(* ===== verification/AllnetPrelude.thy ===== *)
theory AllnetPrelude
  imports Main "HOL-Library.Word"
begin

text \<open>
  Shared vocabulary of the development: the machine types of the C code, the reading of
  big-endian arrays of 64-bit words as natural numbers, and the generic list and word
  lemmas that the component theories use.
\<close>

unbundle bit_operations_syntax

type_synonym u8 = "8 word"
type_synonym u16 = "16 word"
type_synonym u32 = "32 word"
type_synonym u64 = "64 word"

named_theorems array_len \<open>lengths of the arrays the operations return\<close>

section \<open>Arrays of words as numbers\<close>

lemma digits_unique:
  fixes a b c d M :: nat
  assumes "a * M + b = c * M + d" and "b < M" and "d < M"
  shows "a = c" and "b = d"
proof -
  have "a = (a * M + b) div M" "b = (a * M + b) mod M" using assms(2) by simp_all
  moreover have "c = (c * M + d) div M" "d = (c * M + d) mod M" using assms(3) by simp_all
  ultimately show "a = c" and "b = d" using assms(1) by simp_all
qed

text \<open>
  The long integers of \<open>wp_arith.c\<close> are arrays of \<open>uint64_t\<close>, most significant word
  first. \<open>wbase\<close> is the weight of one word and \<open>wval\<close> the number an array stands for.
\<close>

definition wbase :: nat where
  "wbase = 2 ^ 64"

definition wval :: "u64 list \<Rightarrow> nat" where
  "wval xs = foldl (\<lambda>a w. a * wbase + unat w) 0 xs"

lemma wbase_pos [simp]: "0 < wbase"
  by (simp add: wbase_def)

lemma wbase_neq_0 [simp]: "wbase \<noteq> 0"
  by (simp add: wbase_def)

lemma wbase_gt_1 [simp]: "Suc 0 < wbase"
  by (simp add: wbase_def)

lemma wval_Nil [simp]: "wval [] = 0"
  by (simp add: wval_def)

lemma wval_snoc [simp]: "wval (xs @ [w]) = wval xs * wbase + unat w"
  by (simp add: wval_def)

lemma wval_append: "wval (xs @ ys) = wval xs * wbase ^ length ys + wval ys"
proof (induction ys rule: rev_induct)
  case Nil
  then show ?case by simp
next
  case (snoc y ys)
  have "wval (xs @ ys @ [y]) = wval (xs @ ys) * wbase + unat y"
    using wval_snoc [of "xs @ ys" y] by simp
  with snoc show ?case by (simp add: algebra_simps)
qed

lemma wval_Cons: "wval (x # xs) = unat x * wbase ^ length xs + wval xs"
  using wval_append [of "[x]" xs] by (simp add: wval_def)

lemma unat_lt_wbase: "unat (w :: u64) < wbase"
proof -
  have "unat w < 2 ^ LENGTH(64)" by (rule unsigned_less)
  then show ?thesis by (simp add: wbase_def)
qed

lemma wval_bound: "wval xs < wbase ^ length xs"
proof (induction xs rule: rev_induct)
  case Nil
  then show ?case by simp
next
  case (snoc x xs)
  then have "Suc (wval xs) * wbase \<le> wbase ^ length xs * wbase"
    by (intro mult_le_mono1) simp
  then have "wval xs * wbase + wbase \<le> wbase ^ length xs * wbase"
    by simp
  moreover have "unat x < wbase" by (rule unat_lt_wbase)
  ultimately have "wval xs * wbase + unat x < wbase ^ length xs * wbase" by linarith
  then show ?case by (simp add: mult.commute)
qed

lemma wval_replicate_0 [simp]: "wval (replicate n 0) = 0"
  by (induction n) (simp_all add: wval_Cons)

lemma wval_eq_0_iff: "wval xs = 0 \<longleftrightarrow> (\<forall>x \<in> set xs. x = 0)"
  by (induction xs) (auto simp: wval_Cons unat_eq_0)

lemma wval_take_Suc:
  "i < length xs \<Longrightarrow> wval (take (Suc i) xs) = wval (take i xs) * wbase + unat (xs ! i)"
  by (simp add: take_Suc_conv_app_nth)

lemma wval_split: "i \<le> length xs \<Longrightarrow>
    wval xs = wval (take i xs) * wbase ^ (length xs - i) + wval (drop i xs)"
  using wval_append [of "take i xs" "drop i xs"] by simp

lemma wval_inj: "length xs = length ys \<Longrightarrow> wval xs = wval ys \<Longrightarrow> xs = ys"
proof (induction xs arbitrary: ys rule: rev_induct)
  case Nil
  then show ?case by simp
next
  case (snoc x xs)
  then obtain y zs where ys: "ys = zs @ [y]"
    by (metis length_append_singleton length_Suc_conv_rev)
  from snoc.prems(2) ys have eq: "wval xs * wbase + unat x = wval zs * wbase + unat y"
    by simp
  then have "(wval xs * wbase + unat x) mod wbase = (wval zs * wbase + unat y) mod wbase"
    by simp
  then have "x = y" by (simp add: word_unat_eq_iff unat_lt_wbase)
  with eq have "wval xs = wval zs" by simp
  with snoc ys \<open>x = y\<close> show ?case by simp
qed

section \<open>Single words\<close>

lemma bit_nonzero: "bit (w :: u64) n \<Longrightarrow> w \<noteq> 0"
  by auto

lemma nonzero_bit: "w \<noteq> 0 \<Longrightarrow> \<exists>n < 64. bit (w :: u64) n"
  using bit_eqI [of w 0] by auto

lemma unat_of_bool_carry [simp]: "unat (of_bool c :: u64) = of_bool c"
  by (cases c) simp_all

lemma unat_64_plus: "unat (a + b :: u64) = (unat a + unat b) mod wbase"
  by (simp add: unat_word_ariths wbase_def)

lemma unat_64_times: "unat (a * b :: u64) = (unat a * unat b) mod wbase"
  by (simp add: unat_word_ariths wbase_def)

lemma unat_64_minus: "unat (a - b :: u64) = 
    (if unat b \<le> unat a then unat a - unat b else wbase + unat a - unat b)"
  by (auto simp: unat_sub_if' wbase_def)

lemma plus_mod_wbase: "(a :: nat) < wbase \<Longrightarrow> b < wbase \<Longrightarrow>
    (a + b) mod wbase = (if a + b < wbase then a + b else a + b - wbase)"
  by (simp add: mod_if)

section \<open>Byte strings as numbers\<close>

text \<open>\<open>bval\<close> is the number a big-endian byte string stands for.\<close>

definition bval :: "u8 list \<Rightarrow> nat" where
  "bval bs = foldl (\<lambda>a b. a * 256 + unat b) 0 bs"

lemma bval_Nil [simp]: "bval [] = 0"
  by (simp add: bval_def)

lemma bval_snoc [simp]: "bval (bs @ [b]) = bval bs * 256 + unat b"
  by (simp add: bval_def)

lemma unat_lt_256: "unat (b :: u8) < 256"
proof -
  have "unat b < 2 ^ LENGTH(8)" by (rule unsigned_less)
  then show ?thesis by simp
qed

lemma bval_append: "bval (xs @ ys) = bval xs * 256 ^ length ys + bval ys"
proof (induction ys rule: rev_induct)
  case Nil
  then show ?case by simp
next
  case (snoc y ys)
  have "bval (xs @ ys @ [y]) = bval (xs @ ys) * 256 + unat y"
    using bval_snoc [of "xs @ ys" y] by simp
  with snoc show ?case by (simp add: algebra_simps)
qed

lemma bval_Cons: "bval (x # xs) = unat x * 256 ^ length xs + bval xs"
  using bval_append [of "[x]" xs] by (simp add: bval_def)

lemma bval_bound: "bval bs < 256 ^ length bs"
proof (induction bs rule: rev_induct)
  case Nil
  then show ?case by simp
next
  case (snoc b bs)
  then have "Suc (bval bs) * 256 \<le> 256 ^ length bs * 256" by (intro mult_le_mono1) simp
  with unat_lt_256 [of b] show ?case by simp
qed

section \<open>Loops over array indices\<close>

text \<open>
  \<open>for_down f n st\<close> is \<open>for (i = n - 1; i >= 0; i--) st = f i st\<close>;
  \<open>for_down16\<close> is the same loop unrolled sixteen times, as the \<open>_unrolled\<close> functions
  of \<open>wp_arith.c\<close> write it; \<open>for_up f n st\<close> counts from 0 to \<open>n - 1\<close>.
\<close>

fun for_down :: "(nat \<Rightarrow> 's \<Rightarrow> 's) \<Rightarrow> nat \<Rightarrow> 's \<Rightarrow> 's" where
  "for_down f 0 st = st"
| "for_down f (Suc i) st = for_down f i (f i st)"

function for_down16 :: "(nat \<Rightarrow> 's \<Rightarrow> 's) \<Rightarrow> nat \<Rightarrow> 's \<Rightarrow> 's" where
  "for_down16 f k st =
     (if k = 0 then st
      else for_down16 f (k - 16)
       (f (k - 16) (f (k - 15) (f (k - 14) (f (k - 13)
       (f (k - 12) (f (k - 11) (f (k - 10) (f (k - 9)
       (f (k - 8) (f (k - 7) (f (k - 6) (f (k - 5)
       (f (k - 4) (f (k - 3) (f (k - 2) (f (k - 1) st)))))))))))))))))"
  by pat_completeness auto
termination
  by (relation "measure (\<lambda>(f, k, st). k)") auto

declare for_down16.simps [simp del]

definition for_up :: "(nat \<Rightarrow> 's \<Rightarrow> 's) \<Rightarrow> nat \<Rightarrow> 's \<Rightarrow> 's" where
  "for_up f n st = fold f [0..<n] st"

lemma for_up_0 [simp]: "for_up f 0 st = st"
  by (simp add: for_up_def)

lemma for_up_Suc [simp]: "for_up f (Suc n) st = f n (for_up f n st)"
  by (simp add: for_up_def)

lemma for_up_update:
  "n \<le> length d \<Longrightarrow> for_up (\<lambda>i d. d[i := f i]) n d = map f [0..<n] @ drop n d"
proof (induction n)
  case 0
  then show ?case by simp
next
  case (Suc n)
  then have "drop n d = d ! n # drop (Suc n) d" by (simp add: Cons_nth_drop_Suc)
  with Suc show ?case by (simp add: list_update_append)
qed

lemma for_down_add16:
  "for_down f (m + 16) st = for_down f m
       (f m (f (m + 1) (f (m + 2) (f (m + 3)
       (f (m + 4) (f (m + 5) (f (m + 6) (f (m + 7)
       (f (m + 8) (f (m + 9) (f (m + 10) (f (m + 11)
       (f (m + 12) (f (m + 13) (f (m + 14) (f (m + 15) st))))))))))))))))"
  by (simp add: numeral_eq_Suc)

text \<open>An unrolled loop over a multiple of sixteen words is the plain loop.\<close>

lemma for_down16_eq: "k mod 16 = 0 \<Longrightarrow> for_down16 f k st = for_down f k st"
proof (induction f k st rule: for_down16.induct)
  case (1 f k st)
  show ?case
  proof (cases "k = 0")
    case True
    then show ?thesis by (simp add: for_down16.simps)
  next
    case False
    with "1.prems" obtain m where k: "k = m + 16"
      by (metis add.commute le_Suc_ex mod_less not_less)
    with "1.prems" have "m mod 16 = 0" by simp
    show ?thesis
      using "1.IH" [OF False] \<open>m mod 16 = 0\<close> k
      by (simp add: for_down16.simps [of f "m + 16" st] for_down_add16 add.commute)
  qed
qed

section \<open>Carry chains\<close>

text \<open>
  Addition, subtraction and left shift all run from the least significant word to the most
  significant one, computing one word and one carry bit at a time. \<open>chain_word\<close> is one
  iteration; the locale \<open>carry_chain\<close> states what a digit function promises (the word it
  produces is its weight, plus or minus the carry that comes in, minus or plus \<open>wbase\<close> times
  the carry that goes out) and proves once what the whole loop then computes.
\<close>

definition chain_word ::
  "(nat \<Rightarrow> bool \<Rightarrow> u64 \<times> bool) \<Rightarrow> nat \<Rightarrow> u64 list \<times> bool \<Rightarrow> u64 list \<times> bool" where
  "chain_word digit i st =
     (case st of (res, carry) \<Rightarrow>
       (case digit i carry of (w, carry') \<Rightarrow> (res[i := w], carry')))"

lemma chain_word_apply [simp]: "digit i c = (w, c') \<Longrightarrow>
    chain_word digit i (res, c) = (res[i := w], c')"
  by (simp add: chain_word_def)

primrec weights :: "(nat \<Rightarrow> int) \<Rightarrow> nat \<Rightarrow> int" where
  "weights wt 0 = 0"
| "weights wt (Suc i) = weights wt i * int wbase + wt i"

lemma weights_wval: "i \<le> length xs \<Longrightarrow>
    weights (\<lambda>i. int (unat (xs ! i))) i = int (wval (take i xs))"
  by (induction i) (simp_all add: wval_take_Suc)

lemma weights_add: "weights (\<lambda>i. f i + g i) i = weights f i + weights g i"
  by (induction i) (simp_all add: algebra_simps)

lemma weights_diff: "weights (\<lambda>i. f i - g i) i = weights f i - weights g i"
proof (induction i)
  case 0
  then show ?case by simp
next
  case (Suc i)
  show ?case by (simp only: weights.simps Suc.IH) (simp add: algebra_simps)
qed

lemma weights_scale: "weights (\<lambda>i. c * f i) i = c * weights f i"
  by (induction i) (simp_all add: algebra_simps)

lemma chain_step_arith:
  fixes V W s d P e u t c B :: int
  assumes "V = W + s * d - s * P * e" and "u = t + s * c - s * B * d"
  shows "V * B + u = W * B + t + s * c - s * (P * B) * e"
  by (simp only: assms) (simp add: algebra_simps)

locale carry_chain =
  fixes digit :: "nat \<Rightarrow> bool \<Rightarrow> u64 \<times> bool"
    and weight :: "nat \<Rightarrow> int"
    and sgn :: int
  assumes digit_law: "digit i c = (w, c') \<Longrightarrow>
    int (unat w) = weight i + sgn * of_bool c - sgn * int wbase * of_bool c'"
begin

lemma chain_frame:
  "for_down (chain_word digit) i (res, c) = (res', c') \<Longrightarrow>
     length res' = length res \<and> (\<forall>j \<ge> i. res' ! j = res ! j)"
proof (induction i arbitrary: res c)
  case 0
  then show ?case by simp
next
  case (Suc i)
  obtain w d where d: "digit i c = (w, d)" by force
  with Suc.prems have "for_down (chain_word digit) i (res[i := w], d) = (res', c')"
    by simp
  from Suc.IH [OF this] show ?case by auto
qed

lemma chain_value:
  "for_down (chain_word digit) i (res, c) = (res', c') \<Longrightarrow> i \<le> length res \<Longrightarrow>
     int (wval (take i res')) =
       weights weight i + sgn * of_bool c - sgn * int wbase ^ i * of_bool c'"
proof (induction i arbitrary: res c)
  case 0
  then show ?case by simp
next
  case (Suc i)
  obtain w d where d: "digit i c = (w, d)" by force
  with Suc.prems have run: "for_down (chain_word digit) i (res[i := w], d) = (res', c')"
    by simp
  from Suc.IH [OF run] Suc.prems(2)
  have IH: "int (wval (take i res')) =
      weights weight i + sgn * of_bool d - sgn * int wbase ^ i * of_bool c'"
    by simp
  from chain_frame [OF run] Suc.prems(2) have "length res' = length res" "res' ! i = w"
    by auto
  with Suc.prems(2) have "int (wval (take (Suc i) res')) =
      int (wval (take i res')) * int wbase + int (unat w)"
    by (simp add: wval_take_Suc)
  also have "\<dots> = weights weight i * int wbase + weight i + sgn * of_bool c
      - sgn * (int wbase ^ i * int wbase) * of_bool c'"
    by (rule chain_step_arith [OF IH digit_law [OF d]])
  finally show ?case by (simp add: mult.commute)
qed

lemma chain_result:
  assumes "for_down (chain_word digit) n (res, False) = (res', c')" and "length res = n"
  shows "length res' = n"
    and "int (wval res') = weights weight n - sgn * int wbase ^ n * of_bool c'"
  using chain_frame [OF assms(1)] chain_value [OF assms(1)] assms(2) by auto

end

end
