(* ===== verification/WpArith.thy ===== *)
theory WpArith
  imports AllnetPrelude
begin

text \<open>
  The long-integer kernel of \<open>lib/wp_arith.c\<close>: construction, comparison, shifts,
  addition and subtraction. A long integer of \<open>nbits\<close> bits is the list of its
  \<open>NUM_WORDS (nbits)\<close> words, most significant first; an operation takes the arrays it
  reads and the one it writes (\<open>res\<close>) and returns the written array. Every loop that may
  be called with \<open>res\<close> equal to an input reads index \<open>i\<close> before it writes index \<open>i\<close>
  and never reads a written index again, so passing the same list twice is the in-place
  call. The lemmas give the value of each result under \<^const>\<open>wval\<close>.
\<close>

section \<open>Construction and inspection\<close>

definition max_word_value :: u64 where
  "max_word_value = 0 - 1"

definition wp_copy :: "nat \<Rightarrow> u64 list \<Rightarrow> u64 list \<Rightarrow> u64 list" where
  "wp_copy nwords dst src = take nwords src @ drop nwords dst"

definition wp_init :: "nat \<Rightarrow> nat \<Rightarrow> u64 list" where
  "wp_init nwords value = (replicate nwords 0)[nwords - 1 := of_nat value]"

definition wp_extend :: "nat \<Rightarrow> u64 list \<Rightarrow> u64 list option" where
  "wp_extend new_words old =
     (if new_words = 0 \<or> new_words < length old then None
      else Some (replicate (new_words - length old) 0 @ old))"

definition wp_shrink :: "nat \<Rightarrow> u64 list \<Rightarrow> u64 list option" where
  "wp_shrink new_words old =
     (if new_words = 0 \<or> length old \<le> new_words then None
      else
        let diff = length old - new_words;
            new_high = drop_bit 63 (old ! diff);
            expected = (if new_high \<noteq> 0 then 0 - 1 else 0)
        in if (\<forall>w \<in> set (take diff old). w = expected) then Some (drop diff old) else None)"

fun wp_is_zero :: "u64 list \<Rightarrow> bool" where
  "wp_is_zero [] = True"
| "wp_is_zero (w # ws) = (if w \<noteq> 0 then False else wp_is_zero ws)"

definition wp_is_even :: "u64 list \<Rightarrow> bool" where
  "wp_is_even n = (1 - (n ! (length n - 1) AND 1) \<noteq> 0)"

fun wp_compare :: "u64 list \<Rightarrow> u64 list \<Rightarrow> int" where
  "wp_compare (a # as) (b # bs) =
     (if a < b then -1 else if a > b then 1 else wp_compare as bs)"
| "wp_compare _ _ = 0"

definition wp_get_byte :: "u64 list \<Rightarrow> nat \<Rightarrow> int" where
  "wp_get_byte n byte_pos =
     (let index = int (length n) - 1 - int (byte_pos div 8)
      in if index < 0 then -1
         else uint (drop_bit ((byte_pos mod 8) * 8) (n ! nat index) AND 0xff))"

section \<open>Shifts\<close>

definition shl_digit :: "u64 list \<Rightarrow> nat \<Rightarrow> bool \<Rightarrow> u64 \<times> bool" where
  "shl_digit n i carry =
     (let word = n ! i
      in (push_bit 1 word OR of_bool carry, drop_bit 63 word \<noteq> 0))"

definition wp_shift_left_unrolled :: "u64 list \<Rightarrow> u64 list" where
  "wp_shift_left_unrolled n = fst (for_down16 (chain_word (shl_digit n)) (length n) (n, False))"

definition wp_shift_left :: "u64 list \<Rightarrow> u64 list" where
  "wp_shift_left n =
     (if length n mod 16 = 0 then wp_shift_left_unrolled n
      else fst (for_down (chain_word (shl_digit n)) (length n) (n, False)))"

fun shift_right_from :: "u64 \<Rightarrow> u64 list \<Rightarrow> u64 list" where
  "shift_right_from carry [] = []"
| "shift_right_from carry (word # ws) =
     (drop_bit 1 word OR carry) # shift_right_from (push_bit 63 word) ws"

definition wp_shift_right :: "u64 list \<Rightarrow> u64 list" where
  "wp_shift_right n = shift_right_from 0 n"

fun times_power2 :: "nat \<Rightarrow> u64 list \<Rightarrow> u64 list" where
  "times_power2 0 n = n"
| "times_power2 (Suc k) n = times_power2 k (wp_shift_left n)"

section \<open>Addition and subtraction\<close>

definition add_digit :: "u64 list \<Rightarrow> u64 list \<Rightarrow> nat \<Rightarrow> bool \<Rightarrow> u64 \<times> bool" where
  "add_digit v1 v2 i carry =
     (let raw = v1 ! i + v2 ! i
      in (raw + of_bool carry, raw < v2 ! i \<or> (raw = max_word_value \<and> carry)))"

definition wp_add_unrolled :: "u64 list \<Rightarrow> u64 list \<Rightarrow> u64 list \<Rightarrow> u64 list \<times> bool" where
  "wp_add_unrolled res v1 v2 =
     for_down16 (chain_word (add_digit v1 v2)) (length res) (res, False)"

definition wp_add :: "u64 list \<Rightarrow> u64 list \<Rightarrow> u64 list \<Rightarrow> u64 list \<times> bool" where
  "wp_add res v1 v2 =
     (if length res mod 16 = 0 then wp_add_unrolled res v1 v2
      else for_down (chain_word (add_digit v1 v2)) (length res) (res, False))"

definition sub_digit :: "u64 list \<Rightarrow> u64 list \<Rightarrow> nat \<Rightarrow> bool \<Rightarrow> u64 \<times> bool" where
  "sub_digit from sub i borrow =
     (let spb = sub ! i + of_bool borrow
      in (from ! i - spb, (spb = 0 \<and> borrow) \<or> from ! i < spb))"

definition wp_sub_unrolled :: "u64 list \<Rightarrow> u64 list \<Rightarrow> u64 list \<Rightarrow> u64 list \<times> bool" where
  "wp_sub_unrolled res from sub =
     for_down16 (chain_word (sub_digit from sub)) (length res) (res, False)"

definition wp_sub :: "u64 list \<Rightarrow> u64 list \<Rightarrow> u64 list \<Rightarrow> u64 list \<times> bool" where
  "wp_sub res from sub =
     (if length res mod 16 = 0 then wp_sub_unrolled res from sub
      else for_down (chain_word (sub_digit from sub)) (length res) (res, False))"

fun add_carry_down :: "nat \<Rightarrow> u64 list \<Rightarrow> bool \<Rightarrow> u64 list" where
  "add_carry_down 0 res carry = res"
| "add_carry_down (Suc i) res carry =
     (if carry then
        let w = res ! i + of_bool carry in add_carry_down i (res[i := w]) (w = 0)
      else res)"

definition wp_add_int :: "u64 list \<Rightarrow> int \<Rightarrow> u64 list" where
  "wp_add_int res value =
     (let n = length res;
          w = res ! (n - 1) + of_int value
      in add_carry_down (n - 1) (res[n - 1 := w]) (w < of_int value))"

fun sub_borrow_down :: "nat \<Rightarrow> u64 list \<Rightarrow> bool \<Rightarrow> u64 list" where
  "sub_borrow_down 0 res borrow = res"
| "sub_borrow_down (Suc i) res borrow =
     (if borrow then sub_borrow_down i (res[i := res ! i - 1]) (res ! i = 0) else res)"

definition wp_sub_int :: "u64 list \<Rightarrow> int \<Rightarrow> u64 list" where
  "wp_sub_int res sub =
     (let n = length res
      in sub_borrow_down (n - 1) (res[n - 1 := res ! (n - 1) - of_int sub])
           (res ! (n - 1) < of_int sub))"

section \<open>Bytes\<close>

fun from_bytes_loop :: "u64 list \<Rightarrow> u8 list \<Rightarrow> u64 list" where
  "from_bytes_loop n [] = n"
| "from_bytes_loop n (b # bs) = from_bytes_loop (wp_add_int (times_power2 8 n) (uint b)) bs"

definition wp_from_bytes :: "nat \<Rightarrow> u8 list \<Rightarrow> u64 list" where
  "wp_from_bytes nwords data = from_bytes_loop (wp_init nwords 0) (take (8 * nwords) data)"

definition wp_to_bytes :: "u64 list \<Rightarrow> u8 list \<Rightarrow> u8 list" where
  "wp_to_bytes n data =
     for_up (\<lambda>i d. d[i := ucast (drop_bit (56 - (i mod 8) * 8) (n ! (i div 8)) AND 0xff)])
       (min (8 * length n) (length data)) data"

section \<open>Values of the basic operations\<close>

lemma wp_copy_all [simp]: "length src = nwords \<Longrightarrow> length dst = nwords \<Longrightarrow> wp_copy nwords dst src = src"
  by (simp add: wp_copy_def)

lemma length_wp_init [array_len, simp]: "length (wp_init n v) = n"
  by (simp add: wp_init_def)

lemma wp_init_Suc: "wp_init (Suc n) v = replicate n 0 @ [of_nat v]"
proof -
  have "replicate (Suc n) (0 :: u64) = replicate n 0 @ [0]"
    by (simp add: replicate_append_same)
  then show ?thesis by (simp only: wp_init_def) (simp add: list_update_append)
qed

lemma wval_wp_init: "0 < n \<Longrightarrow> v < wbase \<Longrightarrow> wval (wp_init n v) = v"
  by (cases n) (simp_all add: wp_init_Suc unat_of_nat wbase_def)

lemma wval_wp_init_0 [simp]: "wval (wp_init n 0) = 0"
  by (cases n) (simp_all add: wp_init_Suc, simp add: wp_init_def)

lemma wp_is_zero_iff: "wp_is_zero n \<longleftrightarrow> wval n = 0"
  by (induction n) (auto simp: wval_eq_0_iff)

lemma word_and_1_odd: "(w AND 1 :: u64) = of_bool (odd w)"
  by (simp add: and_one_eq mod2_eq_if)

lemma even_unat_iff: "even (unat (w :: u64)) \<longleftrightarrow> even w"
  by (simp add: even_iff_mod_2_eq_zero word_unat_eq_iff unat_mod_distrib)

lemma wp_is_even_iff: "n \<noteq> [] \<Longrightarrow> wp_is_even n \<longleftrightarrow> even (wval n)"
  by (induction n rule: rev_induct)
     (auto simp: wp_is_even_def word_and_1_odd even_unat_iff nth_append wbase_def)

lemma wp_compare_val: "length n1 = length n2 \<Longrightarrow> wp_compare n1 n2 =
    (if wval n1 < wval n2 then -1 else if wval n1 > wval n2 then 1 else 0)"
proof (induction n1 n2 rule: wp_compare.induct)
  case (1 a as b bs)
  then have len: "length as = length bs" by simp
  let ?P = "wbase ^ length bs"
  have bnd: "wval as < ?P" "wval bs < ?P"
    using wval_bound [of as] wval_bound [of bs] len by simp_all
  have lt: "unat x * ?P + wval xs < unat y * ?P + wval ys"
    if "unat x < unat y" "wval xs < ?P" for x y :: u64 and xs ys
  proof -
    from that(1) have "Suc (unat x) * ?P \<le> unat y * ?P" by (intro mult_le_mono1) simp
    with that(2) show ?thesis by simp
  qed
  consider "a < b" | "b < a" | "a = b" by (meson linorder_neqE)
  then show ?case
  proof cases
    case 1
    then show ?thesis using lt [of a b as bs] bnd len by (simp add: wval_Cons word_less_nat_alt)
  next
    case 2
    then show ?thesis using lt [of b a bs as] bnd len
      by (simp add: wval_Cons word_less_nat_alt)
  next
    case 3
    with "1.IH" len show ?thesis by (simp add: wval_Cons)
  qed
qed simp_all

lemma wp_compare_lt: "length n1 = length n2 \<Longrightarrow> wp_compare n1 n2 < 0 \<longleftrightarrow> wval n1 < wval n2"
  and wp_compare_ge: "length n1 = length n2 \<Longrightarrow> 0 \<le> wp_compare n1 n2 \<longleftrightarrow> wval n2 \<le> wval n1"
  and wp_compare_gt: "length n1 = length n2 \<Longrightarrow> 0 < wp_compare n1 n2 \<longleftrightarrow> wval n2 < wval n1"
  by (simp_all add: wp_compare_val)

section \<open>Values of the carry chains\<close>

lemma max_word_value_nat: "w = max_word_value \<longleftrightarrow> unat (w :: u64) = wbase - 1"
proof -
  have "unat max_word_value = wbase - 1"
    unfolding max_word_value_def unat_64_minus by (simp add: wbase_def)
  then show ?thesis by (metis word_unat_eq_iff)
qed

lemma unat_plus_carry: "unat (w + of_bool c :: u64) =
    (if unat w = wbase - 1 \<and> c then 0 else unat w + of_bool c)"
  using unat_lt_wbase [of w] by (cases c) (auto simp: unat_64_plus mod_if)

lemma add_digit_law:
  assumes "add_digit v1 v2 i c = (w, c')"
  shows "unat w + wbase * of_bool c' = unat (v1 ! i) + unat (v2 ! i) + of_bool c"
proof -
  let ?raw = "v1 ! i + v2 ! i"
  define a b r where "a = unat (v1 ! i)" and "b = unat (v2 ! i)" and "r = unat ?raw"
  have ab: "a < wbase" "b < wbase" by (simp_all add: a_def b_def unat_lt_wbase)
  have r: "r = (if a + b < wbase then a + b else a + b - wbase)"
    using ab by (simp add: r_def a_def b_def unat_64_plus plus_mod_wbase)
  have "w = ?raw + of_bool c" "c' = (?raw < v2 ! i \<or> (?raw = max_word_value \<and> c))"
    using assms by (simp_all only: add_digit_def Let_def prod.inject)
  then have "unat w = (if r = wbase - 1 \<and> c then 0 else r + of_bool c)"
    and "c' \<longleftrightarrow> r < b \<or> (r = wbase - 1 \<and> c)"
    by (simp_all only: unat_plus_carry r_def b_def word_less_nat_alt max_word_value_nat)
  then have "unat w + wbase * of_bool c' = a + b + of_bool c"
    using ab r by (cases c) (auto split: if_splits)
  then show ?thesis by (simp add: a_def b_def)
qed

lemma sub_digit_law:
  assumes "sub_digit from sub i c = (w, c')"
  shows "unat w + unat (sub ! i) + of_bool c = unat (from ! i) + wbase * of_bool c'"
proof -
  let ?s = "sub ! i + of_bool c"
  define a b s where "a = unat (from ! i)" and "b = unat (sub ! i)" and "s = unat ?s"
  have ab: "a < wbase" "b < wbase" by (simp_all add: a_def b_def unat_lt_wbase)
  have s: "s = (if b = wbase - 1 \<and> c then 0 else b + of_bool c)"
    by (simp add: s_def b_def unat_plus_carry)
  have "unat w = (if s \<le> a then a - s else wbase + a - s)"
    and "c' \<longleftrightarrow> (s = 0 \<and> c) \<or> a < s"
    using assms
    by (auto simp: sub_digit_def Let_def unat_64_minus s_def a_def word_less_nat_alt
        unat_eq_0)
  then have "unat w + b + of_bool c = a + wbase * of_bool c'"
    using ab s by (cases c) (auto split: if_splits)
  then show ?thesis by (simp add: a_def b_def)
qed

lemma unat_drop_bit: "unat (drop_bit k w :: u64) = unat w div 2 ^ k"
  by (simp only: unat_drop_bit_eq drop_bit_nat_def)

lemma unat_double: "unat (2 * w :: u64) + wbase * of_bool (2 ^ 63 \<le> unat w) = 2 * unat w"
  using unat_lt_wbase [of w] by (auto simp: unat_64_times mod_if wbase_def)

lemma high_bit_iff: "drop_bit 63 w \<noteq> 0 \<longleftrightarrow> 2 ^ 63 \<le> unat (w :: u64)"
proof -
  have "drop_bit 63 w = 0 \<longleftrightarrow> unat w div 2 ^ 63 = 0"
    using unat_drop_bit [of 63 w] by (metis unat_eq_0)
  then show ?thesis by (auto simp: div_eq_0_iff)
qed

lemma push_1_or_bit: "push_bit 1 (w :: u64) OR of_bool c = 2 * w + of_bool c"
  by (cases c) (simp_all add: or_one_eq push_bit_eq_mult)

lemma shl_digit_law:
  assumes "shl_digit n i c = (w, c')"
  shows "unat w + wbase * of_bool c' = 2 * unat (n ! i) + of_bool c"
proof -
  define a d where "a = unat (n ! i)" and "d = unat (2 * (n ! i))"
  have w: "w = push_bit 1 (n ! i) OR of_bool c" and c': "c' = (drop_bit 63 (n ! i) \<noteq> 0)"
    using assms by (simp_all only: shl_digit_def Let_def prod.inject)
  have c': "c' \<longleftrightarrow> 2 ^ 63 \<le> a"
    by (simp only: c' high_bit_iff a_def)
  have d: "d + wbase * of_bool c' = 2 * a"
    using unat_double [of "n ! i"] by (simp add: c' a_def d_def)
  have w: "unat w = (if d = wbase - 1 \<and> c then 0 else d + of_bool c)"
    by (simp only: w push_1_or_bit unat_plus_carry d_def)
  have "even wbase" by (simp add: wbase_def)
  with d have "even d" by (metis dvd_add_left_iff dvd_triv_left dvd_mult2)
  moreover have "odd (wbase - 1)" by (simp add: wbase_def)
  ultimately show ?thesis using d w by (auto simp: a_def)
qed

interpretation add_chain: carry_chain "add_digit v1 v2"
    "\<lambda>i. int (unat (v1 ! i)) + int (unat (v2 ! i))" 1 for v1 v2
  by unfold_locales (drule add_digit_law, drule arg_cong [of _ _ int], simp add: algebra_simps)

interpretation sub_chain: carry_chain "sub_digit from sub"
    "\<lambda>i. int (unat (from ! i)) - int (unat (sub ! i))" "-1" for "from" sub
  by unfold_locales (drule sub_digit_law, drule arg_cong [of _ _ int], simp add: algebra_simps)

interpretation shl_chain: carry_chain "shl_digit n" "\<lambda>i. 2 * int (unat (n ! i))" 1 for n
  by unfold_locales (drule shl_digit_law, drule arg_cong [of _ _ int], simp add: algebra_simps)

text \<open>The unrolled variants compute what the plain loops compute.\<close>

lemma wp_add_loop: "wp_add res v1 v2 = for_down (chain_word (add_digit v1 v2)) (length res) (res, False)"
  by (simp add: wp_add_def wp_add_unrolled_def for_down16_eq)

lemma wp_sub_loop: "wp_sub res v1 v2 = for_down (chain_word (sub_digit v1 v2)) (length res) (res, False)"
  by (simp add: wp_sub_def wp_sub_unrolled_def for_down16_eq)

lemma wp_shift_left_loop: "wp_shift_left n = fst (for_down (chain_word (shl_digit n)) (length n) (n, False))"
  by (simp add: wp_shift_left_def wp_shift_left_unrolled_def for_down16_eq)

lemma weights_wval_all: "weights (\<lambda>i. int (unat (xs ! i))) (length xs) = int (wval xs)"
  using weights_wval [of "length xs" xs] by simp

lemma wp_add_value:
  assumes "wp_add res v1 v2 = (r, c)" and "length v1 = length res" and "length v2 = length res"
  shows "length r = length res"
    and "wval r + of_bool c * wbase ^ length res = wval v1 + wval v2"
proof -
  note run = assms(1) [unfolded wp_add_loop]
  show "length r = length res" by (rule add_chain.chain_result(1) [OF run refl])
  have "int (wval r) = int (wval v1) + int (wval v2) - int wbase ^ length res * of_bool c"
    using add_chain.chain_result(2) [OF run refl] assms(2,3) weights_wval_all [of v1]
      weights_wval_all [of v2]
    by (simp add: weights_add)
  then have "int (wval r + of_bool c * wbase ^ length res) = int (wval v1 + wval v2)"
    by simp
  then show "wval r + of_bool c * wbase ^ length res = wval v1 + wval v2"
    by (simp only: of_nat_eq_iff)
qed

lemma wp_sub_value:
  assumes "wp_sub res v1 v2 = (r, c)" and "length v1 = length res" and "length v2 = length res"
  shows "length r = length res"
    and "wval r + wval v2 = wval v1 + of_bool c * wbase ^ length res"
proof -
  note run = assms(1) [unfolded wp_sub_loop]
  show "length r = length res" by (rule sub_chain.chain_result(1) [OF run refl])
  have "int (wval r) = int (wval v1) - int (wval v2) + int wbase ^ length res * of_bool c"
    using sub_chain.chain_result(2) [OF run refl] assms(2,3) weights_wval_all [of v1]
      weights_wval_all [of v2]
    by (simp add: weights_diff)
  then have "int (wval r + wval v2) = int (wval v1 + of_bool c * wbase ^ length res)"
    by simp
  then show "wval r + wval v2 = wval v1 + of_bool c * wbase ^ length res"
    by (simp only: of_nat_eq_iff)
qed

lemma wp_shift_left_value:
  shows "length (wp_shift_left n) = length n"
    and "wval (wp_shift_left n) = 2 * wval n mod wbase ^ length n"
proof -
  obtain r c where run: "for_down (chain_word (shl_digit n)) (length n) (n, False) = (r, c)"
    by force
  have r: "wp_shift_left n = r" by (simp add: wp_shift_left_loop run)
  show len: "length (wp_shift_left n) = length n"
    using shl_chain.chain_result(1) [OF run refl] r by simp
  have "int (wval r) = 2 * int (wval n) - int wbase ^ length n * of_bool c"
    using shl_chain.chain_result(2) [OF run refl] weights_wval_all [of n]
    by (simp add: weights_scale)
  then have "int (wval r + of_bool c * wbase ^ length n) = int (2 * wval n)" by simp
  then have "wval r + of_bool c * wbase ^ length n = 2 * wval n" by (simp only: of_nat_eq_iff)
  moreover have "wval r < wbase ^ length n" using wval_bound [of r] len r by simp
  ultimately show "wval (wp_shift_left n) = 2 * wval n mod wbase ^ length n"
    using r by (metis mod_less mod_mult_self1)
qed

section \<open>Shifting right, small additions, bytes\<close>

lemma half_or_carry:
  "unat (drop_bit 1 w OR push_bit 63 p :: u64) = unat w div 2 + 2 ^ 63 * (unat p mod 2)"
proof -
  have "drop_bit 1 w AND push_bit 63 p = 0"
    by (rule bit_eqI) (auto simp: bit_simps dest: bit_imp_le_length)
  then have "drop_bit 1 w OR push_bit 63 p = drop_bit 1 w + push_bit 63 p"
    by (simp add: disjunctive_add_eq_or)
  moreover have "unat (push_bit 63 p) = 2 ^ 63 * (unat p mod 2)"
  proof -
    have "push_bit 63 p = push_bit 63 (take_bit 1 p)"
      by (rule bit_eqI) (auto simp: bit_simps bit_0 dest: bit_imp_le_length)
    also have "take_bit 1 p = of_bool (odd p)" by (simp add: take_bit_Suc mod2_eq_if)
    finally show ?thesis
      by (cases "odd p") (auto simp: even_unat_iff [symmetric] push_bit_eq_mult mod2_eq_if)
  qed
  moreover have "unat w div 2 + 2 ^ 63 * (unat p mod 2) < wbase"
    using unat_lt_wbase [of w] by (cases "even (unat p)") (auto simp: wbase_def mod2_eq_if)
  ultimately show ?thesis
    by (simp only: unat_64_plus unat_drop_bit power_one_right) simp
qed

lemma shift_right_from_value:
  "length (shift_right_from (push_bit 63 p) ws) = length ws \<and>
   wval (shift_right_from (push_bit 63 p) ws) =
     ((unat p mod 2) * wbase ^ length ws + wval ws) div 2"
proof (induction ws arbitrary: p)
  case Nil
  then show ?case by simp
next
  case (Cons w ws)
  define P H where "P = wbase ^ length ws" and "H = (2 :: nat) ^ 63"
  define m q r where "m = unat p mod 2" and "q = unat w div 2" and "r = unat w mod 2"
  have w: "unat w = 2 * q + r" by (simp add: q_def r_def)
  have "wbase ^ length (w # ws) = 2 * H * P" by (simp add: P_def H_def wbase_def)
  then have "m * wbase ^ length (w # ws) + wval (w # ws) = 2 * ((q + H * m) * P) + (r * P + wval ws)"
    by (simp only: wval_Cons w P_def [symmetric]) (simp add: algebra_simps)
  then have "(m * wbase ^ length (w # ws) + wval (w # ws)) div 2 =
      (q + H * m) * P + (r * P + wval ws) div 2"
    by (simp only:)
  with Cons.IH [of w] show ?case
    by (simp only: shift_right_from.simps wval_Cons half_or_carry P_def H_def m_def q_def r_def
        length_Cons)
qed

lemma wp_shift_right_value:
  shows "length (wp_shift_right n) = length n"
    and "wval (wp_shift_right n) = wval n div 2"
  using shift_right_from_value [of 0 n] by (simp_all add: wp_shift_right_def)

lemma times_power2_value:
  "length (times_power2 k n) = length n \<and> wval (times_power2 k n) = 2 ^ k * wval n mod wbase ^ length n"
proof (induction k arbitrary: n)
  case 0
  then show ?case using wval_bound [of n] by simp
next
  case (Suc k)
  have "2 ^ k * (2 * wval n mod wbase ^ length n) mod wbase ^ length n =
      2 ^ k * (2 * wval n) mod wbase ^ length n"
    by (rule mod_mult_right_eq)
  also have "2 ^ k * (2 * wval n) = 2 ^ Suc k * wval n" by simp
  finally show ?case using Suc.IH [of "wp_shift_left n"] by (simp add: wp_shift_left_value)
qed

lemma add_carry_down_value:
  "i \<le> length res \<Longrightarrow> length (add_carry_down i res c) = length res \<and>
     drop i (add_carry_down i res c) = drop i res \<and>
     wval (take i (add_carry_down i res c)) = (wval (take i res) + of_bool c) mod wbase ^ i"
proof (induction i arbitrary: res c)
  case 0
  then show ?case by simp
next
  case (Suc i)
  show ?case
  proof (cases c)
    case False
    then show ?thesis using Suc.prems wval_bound [of "take (Suc i) res"] by simp
  next
    case True
    define w where "w = res ! i + 1"
    let ?r = "add_carry_down i (res[i := w]) (w = 0)"
    have run: "add_carry_down (Suc i) res c = ?r" using True by (simp add: w_def Let_def)
    from Suc.IH [of "res[i := w]" "w = 0"] Suc.prems
    have len: "length ?r = length res" and dr: "drop i ?r = drop i (res[i := w])"
      and IH: "wval (take i ?r) = (wval (take i res) + of_bool (w = 0)) mod wbase ^ i"
      by simp_all
    have "?r ! i = w" using dr Suc.prems len
      by (metis Suc_le_lessD hd_drop_conv_nth length_list_update nth_list_update_eq)
    moreover have "drop (Suc i) ?r = drop (Suc i) res"
      using dr Suc.prems by (metis drop_Suc drop_update_cancel lessI tl_drop)
    moreover have "unat w + wbase * of_bool (w = 0) = unat (res ! i) + 1"
      using unat_plus_carry [of "res ! i" True] unat_lt_wbase [of "res ! i"]
      by (auto simp: w_def unat_eq_0 [symmetric] simp del: unat_eq_0 split: if_splits)
    ultimately show ?thesis
    proof (intro conjI)
      assume nth: "?r ! i = w" and tl: "drop (Suc i) ?r = drop (Suc i) res"
        and dig: "unat w + wbase * of_bool (w = 0) = unat (res ! i) + 1"
      show "length (add_carry_down (Suc i) res c) = length res" using run len by simp
      show "drop (Suc i) (add_carry_down (Suc i) res c) = drop (Suc i) res" using run tl by simp
      have "wval (take (Suc i) ?r) = ((wval (take i res) + of_bool (w = 0)) mod wbase ^ i) * wbase + unat w"
        using Suc.prems len nth IH by (simp add: wval_take_Suc)
      also have "\<dots> = ((wval (take i res) + of_bool (w = 0)) * wbase + unat w) mod wbase ^ Suc i"
        by (simp add: mod_mult2_eq unat_lt_wbase mult.commute)
      also have "(wval (take i res) + of_bool (w = 0)) * wbase + unat w = wval (take (Suc i) res) + 1"
        using Suc.prems dig by (simp add: wval_take_Suc algebra_simps)
      finally show "wval (take (Suc i) (add_carry_down (Suc i) res c)) =
          (wval (take (Suc i) res) + of_bool c) mod wbase ^ Suc i"
        using run True by simp
    qed
  qed
qed

lemma unat_plus_mod_split: "unat (a + b :: u64) + wbase * of_bool (a + b < b) = unat a + unat b"
  using unat_lt_wbase [of a] unat_lt_wbase [of b]
  by (auto simp: unat_64_plus plus_mod_wbase word_less_nat_alt)

lemma last_word_split:
  "res \<noteq> [] \<Longrightarrow> wval res = wval (take (length res - 1) res) * wbase + unat (res ! (length res - 1))"
  using wval_take_Suc [of "length res - 1" res] by simp

lemma last_word_result:
  assumes "res \<noteq> []" and "length r = length res"
    and "drop (length res - 1) r = drop (length res - 1) (res[length res - 1 := w])"
  shows "r ! (length res - 1) = w"
  using assms by (metis One_nat_def diff_Suc_less hd_drop_conv_nth length_greater_0_conv
      length_list_update nth_list_update_eq)

lemma wp_add_int_value:
  assumes "res \<noteq> []" and "0 \<le> v" and "v < int wbase"
  shows "length (wp_add_int res v) = length res"
    and "wval (wp_add_int res v) = (wval res + nat v) mod wbase ^ length res"
proof -
  let ?n = "length res - 1"
  define b where "b = (of_int v :: u64)"
  have ub: "unat b = nat v"
    using assms(2,3) by (simp add: b_def unat_eq_nat_uint uint_word_of_int_eq take_bit_eq_mod wbase_def)
  define w where "w = res ! ?n + b"
  have n: "Suc ?n = length res" using assms(1) by (simp add: Suc_diff_1)
  have "?n \<le> length (res[?n := w])" by simp
  from add_carry_down_value [OF this, of "w < b"]
  have r: "length (wp_add_int res v) = length res"
      "drop ?n (wp_add_int res v) = drop ?n (res[?n := w])"
      "wval (take ?n (wp_add_int res v)) = (wval (take ?n res) + of_bool (w < b)) mod wbase ^ ?n"
    by (simp_all add: wp_add_int_def w_def b_def Let_def)
  then show "length (wp_add_int res v) = length res" by simp
  have "wp_add_int res v ! ?n = w" by (rule last_word_result [OF assms(1) r(1,2)])
  moreover have "wp_add_int res v \<noteq> []" using r(1) assms(1) by auto
  ultimately have "wval (wp_add_int res v) =
      ((wval (take ?n res) + of_bool (w < b)) mod wbase ^ ?n) * wbase + unat w"
    using last_word_split [of "wp_add_int res v"] r by simp
  also have "\<dots> = ((wval (take ?n res) + of_bool (w < b)) * wbase + unat w) mod wbase ^ Suc ?n"
    by (simp add: mod_mult2_eq unat_lt_wbase mult.commute)
  also have "(wval (take ?n res) + of_bool (w < b)) * wbase + unat w = wval res + nat v"
    using last_word_split [OF assms(1)] unat_plus_mod_split [of "res ! ?n" b] ub
    by (simp add: w_def algebra_simps)
  finally show "wval (wp_add_int res v) = (wval res + nat v) mod wbase ^ length res"
    by (simp only: n)
qed

lemma from_bytes_loop_value:
  "n \<noteq> [] \<Longrightarrow> length (from_bytes_loop n bs) = length n \<and>
     wval (from_bytes_loop n bs) = (wval n * 256 ^ length bs + bval bs) mod wbase ^ length n"
proof (induction bs arbitrary: n)
  case Nil
  then show ?case using wval_bound [of n] by simp
next
  case (Cons b bs)
  let ?n = "wp_add_int (times_power2 8 n) (uint b)" and ?M = "wbase ^ length n"
  have ne: "times_power2 8 n \<noteq> []" using Cons.prems times_power2_value [of 8 n] by auto
  have "uint b < int wbase" using uint_lt2p [of b] by (simp add: wbase_def)
  note add = wp_add_int_value [OF ne uint_ge_0 this]
  have len: "length ?n = length n" using add(1) times_power2_value [of 8 n] by simp
  have "wval ?n = (2 ^ 8 * wval n mod ?M + unat b) mod ?M"
    using add(2) times_power2_value [of 8 n] by simp
  also have "\<dots> = (2 ^ 8 * wval n + unat b) mod ?M" by (rule mod_add_left_eq)
  finally have v: "wval ?n = (wval n * 256 + unat b) mod ?M" by (simp add: mult.commute)
  have "?n \<noteq> []" using len Cons.prems by auto
  from Cons.IH [OF this] len v
  have "wval (from_bytes_loop ?n bs) =
      ((wval n * 256 + unat b) mod ?M * 256 ^ length bs + bval bs) mod ?M"
    and l2: "length (from_bytes_loop ?n bs) = length n" by simp_all
  then have "wval (from_bytes_loop ?n bs) =
      ((wval n * 256 + unat b) * 256 ^ length bs + bval bs) mod ?M"
    by (metis mod_add_left_eq mod_mult_left_eq)
  with l2 show ?case by (simp add: bval_Cons algebra_simps)
qed

lemma wp_from_bytes_value:
  assumes "0 < nwords" and "length data \<le> 8 * nwords"
  shows "length (wp_from_bytes nwords data) = nwords"
    and "wval (wp_from_bytes nwords data) = bval data"
proof -
  have ne: "wp_init nwords 0 \<noteq> []" using assms(1) by (metis length_wp_init list.size(3) not_less0)
  have "(256 :: nat) ^ length data \<le> 256 ^ (8 * nwords)" using assms(2) by (intro power_increasing) auto
  then have "bval data < wbase ^ nwords"
    using bval_bound [of data] by (simp add: power_mult wbase_def)
  with from_bytes_loop_value [OF ne, of data] assms(2)
  show "length (wp_from_bytes nwords data) = nwords"
    and "wval (wp_from_bytes nwords data) = bval data"
    by (simp_all add: wp_from_bytes_def)
qed

definition word_bytes :: "u64 \<Rightarrow> u8 list" where
  "word_bytes w = map (\<lambda>k. ucast (drop_bit (56 - k * 8) w AND 0xff)) [0..<8]"

lemma unat_byte_of: "unat (ucast (drop_bit k w AND 0xff :: u64) :: u8) = unat w div 2 ^ k mod 256"
proof -
  have "(0xff :: u64) = mask 8" by (simp add: mask_eq_exp_minus_1)
  then have "drop_bit k w AND 0xff = take_bit 8 (drop_bit k w)"
    by (simp only: take_bit_eq_mask)
  then have "unat (ucast (drop_bit k w AND 0xff :: u64) :: u8) = take_bit 8 (unat (drop_bit k w))"
    by (simp only:) (simp add: unsigned_ucast_eq unsigned_take_bit_eq)
  then show ?thesis by (simp only: unat_drop_bit take_bit_eq_mod) simp
qed

lemma length_word_bytes [simp]: "length (word_bytes w) = 8"
  by (simp add: word_bytes_def)

lemma bval_word_bytes: "bval (word_bytes w) = unat w"
proof -
  define n where "n = unat w"
  have split: "n div 2 ^ k = n div 2 ^ (k + 8) * 256 + n div 2 ^ k mod 256" for k
    using div_mult_mod_eq [of "n div 2 ^ k" 256] by (simp add: power_add div_mult2_eq)
  have "n div 18446744073709551616 = 0"
    using unat_lt_wbase [of w] by (simp add: wbase_def n_def)
  then have "bval (map (\<lambda>k. ucast (drop_bit (56 - k * 8) w AND 0xff)) [0, 1, 2, 3, 4, 5, 6, 7]) = n"
    using split [of 0] split [of 8] split [of 16] split [of 24] split [of 32] split [of 40]
      split [of 48] split [of 56]
    using unat_byte_of [of 0 w] by (simp add: bval_def unat_byte_of n_def [symmetric])
  moreover have "[0..<8] = [0, 1, 2, 3, 4, 5, 6, 7 :: nat]" by (simp add: upt_rec)
  ultimately show ?thesis by (simp only: word_bytes_def n_def)
qed

lemma wp_to_bytes_words:
  assumes "8 * length n \<le> length data"
  shows "wp_to_bytes n data = concat (map word_bytes n) @ drop (8 * length n) data"
proof -
  define f where "f = (\<lambda>i. ucast (drop_bit (56 - (i mod 8) * 8) (n ! (i div 8)) AND 0xff) :: u8)"
  have "wp_to_bytes n data = map f [0..<8 * length n] @ drop (8 * length n) data"
    using assms by (simp add: wp_to_bytes_def for_up_update min_absorb1 f_def)
  moreover have "k \<le> length n \<Longrightarrow> map f [0..<8 * k] = concat (map word_bytes (take k n))" for k
  proof (induction k)
    case 0
    then show ?case by simp
  next
    case (Suc k)
    have "map f [8 * k..<8 * k + 8] = word_bytes (n ! k)"
      by (rule nth_equalityI) (auto simp: word_bytes_def f_def)
    moreover have "[0..<8 * Suc k] = [0..<8 * k] @ [8 * k..<8 * k + 8]"
      using upt_add_eq_append [of 0 "8 * k" 8] by (simp add: add.commute)
    ultimately show ?case using Suc by (simp add: take_Suc_conv_app_nth)
  qed
  ultimately show ?thesis by simp
qed

lemma bval_concat_word_bytes: "bval (concat (map word_bytes n)) = wval n"
proof (induction n rule: rev_induct)
  case Nil
  then show ?case by simp
next
  case (snoc w n)
  then show ?case by (simp add: bval_append bval_word_bytes wbase_def)
qed

lemma length_concat_word_bytes [simp]: "length (concat (map word_bytes n)) = 8 * length n"
  by (induction n) simp_all

lemma wp_extend_value:
  "wp_extend w n = Some e \<Longrightarrow> length e = w \<and> wval e = wval n"
  by (auto simp: wp_extend_def wval_append split: if_splits)

section \<open>Properties\<close>

text \<open>
  \<open>wp_add\<close>, in its plain and its unrolled form and with \<open>res\<close> the same array as an
  operand or not, computes the exact sum: the result and the carry it returns, at the weight
  of the next word, add up to it.
\<close>

theorem wp_add_correct:
  assumes "length v1 = length res" and "length v2 = length res"
  shows "case wp_add res v1 v2 of (r, carry) \<Rightarrow> length r = length res \<and>
    wval r + of_bool carry * wbase ^ length res = wval v1 + wval v2"
proof (cases "wp_add res v1 v2")
  case (Pair r c)
  from wp_add_value [OF this assms] Pair show ?thesis by simp
qed

theorem wp_add_correct_witness:
  "case wp_add [7, 7] [1, -1] [2, 1] of (r, carry) \<Rightarrow> length r = 2 \<and>
    wval r + of_bool carry * wbase ^ 2 = wval [1, -1] + wval [2, 1]"
  using wp_add_correct [of "[1, -1]" "[7, 7]" "[2, 1]"] by (simp add: numeral_2_eq_2)

text \<open>
  \<open>wp_sub\<close>, in both forms, computes the exact difference: the result plus what was
  subtracted is the minuend plus the borrow at the weight of the next word, so the borrow
  says exactly that the difference was negative.
\<close>

theorem wp_sub_correct:
  assumes "length from = length res" and "length sub = length res"
  shows "case wp_sub res from sub of (r, borrow) \<Rightarrow> length r = length res \<and>
    wval r + wval sub = wval from + of_bool borrow * wbase ^ length res \<and>
    (borrow \<longleftrightarrow> wval from < wval sub)"
proof (cases "wp_sub res from sub")
  case (Pair r b)
  note val = wp_sub_value [OF this assms]
  have "wval r < wbase ^ length res" using wval_bound [of r] val(1) by simp
  moreover have "wval sub < wbase ^ length res" using wval_bound [of sub] assms(2) by simp
  ultimately have "b \<longleftrightarrow> wval from < wval sub" using val(2) by (cases b) auto
  with Pair val show ?thesis by simp
qed

theorem wp_sub_correct_witness:
  "case wp_sub [7, 7] [1, 0] [0, 1] of (r, borrow) \<Rightarrow> length r = 2 \<and>
    wval r + wval [0, 1] = wval [1, 0] + of_bool borrow * wbase ^ 2 \<and>
    (borrow \<longleftrightarrow> wval [1, 0] < wval [0, 1])"
  using wp_sub_correct [of "[1, 0]" "[7, 7]" "[0, 1]"] by (simp add: numeral_2_eq_2)

text \<open>
  \<open>wp_shift_left\<close>, plain or unrolled, doubles a long integer and drops the carry, and
  \<open>wp_shift_right\<close> halves it and drops the remainder.
\<close>

theorem wp_shifts_correct:
  "wval (wp_shift_left n) = 2 * wval n mod wbase ^ length n \<and>
   wval (wp_shift_right n) = wval n div 2"
  by (simp add: wp_shift_left_value wp_shift_right_value)

text \<open>
  \<open>wp_from_bytes\<close> reads back what \<open>wp_to_bytes\<close> wrote, and the bytes written are the
  number most significant byte first.
\<close>

theorem wp_bytes_roundtrip:
  assumes "n \<noteq> []" and "length data = 8 * length n"
  shows "wp_from_bytes (length n) (wp_to_bytes n data) = n \<and> bval (wp_to_bytes n data) = wval n"
proof -
  have bytes: "wp_to_bytes n data = concat (map word_bytes n)"
    using wp_to_bytes_words [of n data] assms(2) by simp
  have "0 < length n" using assms(1) by simp
  from wp_from_bytes_value [OF this, of "concat (map word_bytes n)"]
  have "length (wp_from_bytes (length n) (concat (map word_bytes n))) = length n"
    "wval (wp_from_bytes (length n) (concat (map word_bytes n))) = wval n"
    by (simp_all add: bval_concat_word_bytes)
  then have "wp_from_bytes (length n) (concat (map word_bytes n)) = n" by (rule wval_inj)
  then show ?thesis by (simp add: bytes bval_concat_word_bytes)
qed

theorem wp_bytes_roundtrip_witness:
  "wp_from_bytes 2 (wp_to_bytes [1, 258] (replicate 16 0)) = [1, 258] \<and>
   bval (wp_to_bytes [1, 258] (replicate 16 0)) = wval [1, 258]"
  using wp_bytes_roundtrip [of "[1, 258]" "replicate 16 0"] by (simp add: numeral_2_eq_2)

text \<open>
  \<open>wp_extend\<close> keeps the value, and \<open>wp_shrink\<close> takes the extension off again when the
  high bit of the number is clear; when it is set, the assertion of \<open>wp_shrink\<close> fails, since
  it reads the numbers as signed.
\<close>

theorem wp_extend_shrink:
  assumes "n \<noteq> []" and "length n < w"
  shows "\<exists>e. wp_extend w n = Some e \<and> length e = w \<and> wval e = wval n \<and>
    wp_shrink (length n) e = (if drop_bit 63 (n ! 0) = 0 then Some n else None)"
proof -
  let ?e = "replicate (w - length n) 0 @ n"
  have ext: "wp_extend w n = Some ?e" using assms by (simp add: wp_extend_def)
  have "length ?e - length n = w - length n" "?e ! (w - length n) = n ! 0"
    using assms by (simp_all add: nth_append)
  moreover have "set (take (w - length n) ?e) = {0}" using assms by (auto simp: set_replicate_conv_if)
  ultimately have "wp_shrink (length n) ?e = (if drop_bit 63 (n ! 0) = 0 then Some n else None)"
    using assms by (simp add: wp_shrink_def Let_def)
  with ext wp_extend_value [OF ext] show ?thesis by blast
qed

theorem wp_extend_shrink_witness:
  "\<exists>e. wp_extend 3 [5, 6] = Some e \<and> length e = 3 \<and> wval e = wval [5, 6] \<and>
    wp_shrink (length [5, 6 :: u64]) e = Some [5, 6]"
  using wp_extend_shrink [of "[5, 6]" 3] by simp

end
