(* ===== verification/WpMod.thy ===== *)
theory WpMod
  imports WpArith
begin

text \<open>
  Modular arithmetic and long multiplication and division of \<open>lib/wp_arith.c\<close>. A scratch
  array every word of which is written before it is read (the \<open>temp\<close> arguments, and
  \<open>res\<close> where the code starts with \<open>wp_init\<close>) is a local value of the model.

  The double loops over the bits of a long integer, most significant bit first, are one
  combinator, \<open>bit_scan\<close>; the locale \<open>msb_scan\<close> states what its loop body promises about the
  prefix of the bits read so far, and proves once what the loop computes.
\<close>

section \<open>Scanning the bits of a long integer\<close>

function bit_loop :: "(bool \<Rightarrow> 's \<Rightarrow> 's) \<Rightarrow> u64 \<Rightarrow> u64 \<Rightarrow> 's \<Rightarrow> 's" where
  "bit_loop f inner word st =
     (if inner = 0 then st
      else bit_loop f (drop_bit 1 inner) word (f (inner AND word \<noteq> 0) st))"
  by pat_completeness auto
termination
proof (relation "measure (\<lambda>(f, inner, word, st). unat inner)")
  fix inner :: u64
  assume "inner \<noteq> 0"
  then have "0 < unat inner" by (simp add: unat_gt_0)
  then show "((f, drop_bit 1 inner, word, st), (f, inner, word, st'))
      \<in> measure (\<lambda>(f, inner, word, st). unat inner)" for f word st st'
    by (simp add: unat_drop_bit)
qed simp

declare bit_loop.simps [simp del]

definition bit_scan :: "(bool \<Rightarrow> 's \<Rightarrow> 's) \<Rightarrow> u64 list \<Rightarrow> 's \<Rightarrow> 's" where
  "bit_scan f ws st = fold (\<lambda>word. bit_loop f (push_bit 63 1) word) ws st"

lemma bit_loop_for_down:
  "k < 64 \<Longrightarrow> bit_loop f (push_bit k 1) word st = for_down (\<lambda>i. f (bit word i)) (Suc k) st"
proof (induction k arbitrary: st)
  case 0
  have "(1 AND word \<noteq> 0) = bit word 0"
    by (simp add: bit_0 and.commute [of 1] and_one_eq mod2_eq_if)
  then show ?case by (simp add: bit_loop.simps [of f 1] bit_loop.simps [of f 0])
next
  case (Suc k)
  have nz: "push_bit (Suc k) (1 :: u64) \<noteq> 0"
  proof -
    have "bit (push_bit (Suc k) (1 :: u64)) (Suc k)" using Suc.prems by (simp add: bit_simps)
    then show ?thesis by (rule bit_nonzero)
  qed
  have "(push_bit (Suc k) 1 AND word \<noteq> 0) = bit word (Suc k)"
  proof
    assume "push_bit (Suc k) 1 AND word \<noteq> 0"
    then obtain j where "bit (push_bit (Suc k) 1 AND word) j"
      using nonzero_bit by blast
    then show "bit word (Suc k)" by (auto simp: bit_simps)
  next
    assume "bit word (Suc k)"
    then have "bit (push_bit (Suc k) 1 AND word) (Suc k)"
      using Suc.prems by (simp add: bit_simps)
    then show "push_bit (Suc k) 1 AND word \<noteq> 0" by auto
  qed
  moreover have "drop_bit 1 (push_bit (Suc k) 1) = (push_bit k 1 :: u64)"
    using Suc.prems by (auto intro: bit_eqI simp: bit_simps dest: bit_imp_le_length)
  moreover have "bit_loop f (push_bit (Suc k) 1) word st =
      bit_loop f (drop_bit 1 (push_bit (Suc k) 1)) word (f (push_bit (Suc k) 1 AND word \<noteq> 0) st)"
    by (subst bit_loop.simps) (simp only: nz if_False)
  moreover have "bit_loop f (push_bit k 1) word (f (bit word (Suc k)) st) =
      for_down (\<lambda>i. f (bit word i)) (Suc k) (f (bit word (Suc k)) st)"
    using Suc.prems by (intro Suc.IH) simp
  ultimately show ?case by (simp only: for_down.simps)
qed

lemma unat_bit_sum: "unat (take_bit (Suc k) w) = unat (take_bit k (w :: u64)) + 2 ^ k * of_bool (bit w k)"
proof -
  have "take_bit (Suc k) (unat w) = take_bit k (unat w) + 2 ^ k * of_bool (bit (unat w) k)"
    by (cases "bit (unat w) k")
       (simp_all add: take_bit_Suc_from_most add.commute)
  then show ?thesis by (simp add: unsigned_take_bit_eq bit_unsigned_iff)
qed

locale msb_scan =
  fixes f :: "bool \<Rightarrow> 's \<Rightarrow> 's" and P :: "nat \<Rightarrow> 's \<Rightarrow> bool"
  assumes scan_bit: "P e st \<Longrightarrow> P (2 * e + of_bool b) (f b st)"
begin

lemma scan_down:
  "P e st \<Longrightarrow> P (e * 2 ^ k + unat (take_bit k w)) (for_down (\<lambda>i. f (bit w i)) k st)"
  for w :: u64
proof (induction k arbitrary: e st)
  case 0
  then show ?case by simp
next
  case (Suc k)
  from Suc.IH [OF scan_bit [OF Suc.prems, of "bit w k"]]
  show ?case by (simp add: unat_bit_sum algebra_simps)
qed

lemma scan_word: "P e st \<Longrightarrow> P (e * wbase + unat w) (bit_loop f (push_bit 63 1) w st)"
proof -
  assume "P e st"
  then have "P (e * 2 ^ 64 + unat (take_bit 64 w)) (for_down (\<lambda>i. f (bit w i)) 64 st)"
    by (rule scan_down)
  moreover have "take_bit 64 w = w" by (simp add: take_bit_word_eq_self)
  moreover have "for_down (\<lambda>i. f (bit w i)) 64 st = bit_loop f (push_bit 63 1) w st"
    using bit_loop_for_down [of 63 f w st] by (simp only: Suc_numeral Num.arith_simps)
  ultimately show ?thesis by (simp only: wbase_def)
qed

lemma scan: "P e st \<Longrightarrow> P (e * wbase ^ length ws + wval ws) (bit_scan f ws st)"
proof (induction ws arbitrary: e st)
  case Nil
  then show ?case by (simp add: bit_scan_def)
next
  case (Cons w ws)
  from Cons.IH [OF scan_word [OF Cons.prems, of w]]
  show ?case by (simp add: bit_scan_def wval_Cons algebra_simps)
qed

lemma scan_all: "P 0 st \<Longrightarrow> P (wval ws) (bit_scan f ws st)"
  using scan [of 0 st ws] by simp

end

section \<open>Modular addition, subtraction, doubling\<close>

definition wp_add_mod :: "u64 list \<Rightarrow> u64 list \<Rightarrow> u64 list \<Rightarrow> u64 list \<Rightarrow> u64 list" where
  "wp_add_mod res v1 v2 m =
     (case wp_add res v1 v2 of (r, carry) \<Rightarrow>
        if carry \<or> wp_compare r m \<ge> 0 then fst (wp_sub r r m) else r)"

definition wp_sub_mod :: "u64 list \<Rightarrow> u64 list \<Rightarrow> u64 list \<Rightarrow> u64 list \<Rightarrow> u64 list" where
  "wp_sub_mod res from sub m =
     (case wp_sub res from sub of (r, borrow) \<Rightarrow>
        if borrow then fst (wp_add r r m) else r)"

definition wp_shift_left_mod :: "u64 list \<Rightarrow> u64 list \<Rightarrow> u64 list" where
  "wp_shift_left_mod n m =
     (case for_down (chain_word (shl_digit n)) (length n) (n, False) of (r, carry) \<Rightarrow>
        if carry \<or> wp_compare r m \<ge> 0 then fst (wp_sub r r m) else r)"

lemma reduce_arith:
  fixes R S M m x :: nat
  assumes "R + of_bool c * M = x" "S + m = R + of_bool b * M"
    and "m < M" "R < M" "S < M" "x < 2 * m"
  shows "(if c \<or> m \<le> R then S else R) = x mod m"
proof -
  have "x mod m = (if m \<le> x then x - m else x)" using assms(6) by (auto simp: mod_if)
  with assms show ?thesis by (cases c; cases b) simp_all
qed

lemma restore_arith:
  fixes R S M m v1 v2 :: nat
  assumes "R + v2 = v1 + of_bool b * M" "S + of_bool c * M = R + m"
    and "m < M" "R < M" "S < M" "v1 < m" "v2 < m"
  shows "(if b then S else R) = (v1 + m - v2) mod m"
proof -
  have "(v1 + m - v2) mod m = (if v2 \<le> v1 then v1 - v2 else v1 + m - v2)"
    using assms(6,7) by (auto simp: mod_if)
  with assms show ?thesis by (cases b; cases c) simp_all
qed

lemma reduce_once:
  assumes r: "wval r + of_bool c * wbase ^ length r = x" and len: "length r = length m"
    and x: "x < 2 * wval m"
  shows "length (if c \<or> wp_compare r m \<ge> 0 then fst (wp_sub r r m) else r) = length m"
    and "wval (if c \<or> wp_compare r m \<ge> 0 then fst (wp_sub r r m) else r) = x mod wval m"
proof -
  define M where "M = wbase ^ length m"
  obtain s b where s: "wp_sub r r m = (s, b)" by force
  note sub = wp_sub_value [OF s refl len [symmetric]]
  have ls: "length s = length m" and vs: "wval s + wval m = wval r + of_bool b * M"
    using sub len by (simp_all add: M_def)
  show "length (if c \<or> wp_compare r m \<ge> 0 then fst (wp_sub r r m) else r) = length m"
    using s ls len by simp
  have M: "wval m < M" "wval r < M" "wval s < M"
    using wval_bound [of m] wval_bound [of r] wval_bound [of s] len ls by (simp_all add: M_def)
  have "wval (if c \<or> wval m \<le> wval r then s else r) = x mod wval m"
    unfolding if_distrib [of wval]
    by (rule reduce_arith [OF r [unfolded len, folded M_def] vs M x])
  then show "wval (if c \<or> wp_compare r m \<ge> 0 then fst (wp_sub r r m) else r) = x mod wval m"
    by (simp only: s wp_compare_ge [OF len] fst_conv)
qed

lemma wp_add_mod_value:
  assumes "length res = length m" "length v1 = length m" "length v2 = length m"
    and "wval v1 < wval m" "wval v2 < wval m"
  shows "length (wp_add_mod res v1 v2 m) = length m"
    and "wval (wp_add_mod res v1 v2 m) = (wval v1 + wval v2) mod wval m"
proof -
  obtain r c where rc: "wp_add res v1 v2 = (r, c)" by force
  have "length v1 = length res" "length v2 = length res" using assms by simp_all
  note add = wp_add_value [OF rc this]
  have len: "length r = length m"
    and val: "wval r + of_bool c * wbase ^ length r = wval v1 + wval v2"
    using add assms(1) by simp_all
  from assms(4,5) have "wval v1 + wval v2 < 2 * wval m" by simp
  from reduce_once [OF val len this] rc
  show "length (wp_add_mod res v1 v2 m) = length m"
    and "wval (wp_add_mod res v1 v2 m) = (wval v1 + wval v2) mod wval m"
    by (simp_all add: wp_add_mod_def)
qed

lemma wp_sub_mod_value:
  assumes "length res = length m" "length v1 = length m" "length v2 = length m"
    and "wval v1 < wval m" "wval v2 < wval m"
  shows "length (wp_sub_mod res v1 v2 m) = length m"
    and "wval (wp_sub_mod res v1 v2 m) = (wval v1 + wval m - wval v2) mod wval m"
proof -
  define M where "M = wbase ^ length m"
  obtain r b where rb: "wp_sub res v1 v2 = (r, b)" by force
  obtain s c where sc: "wp_add r r m = (s, c)" by force
  have "length v1 = length res" "length v2 = length res" using assms by simp_all
  note sub = wp_sub_value [OF rb this]
  have lr: "length r = length m" and vr: "wval r + wval v2 = wval v1 + of_bool b * M"
    using sub assms(1) by (simp_all add: M_def)
  note add = wp_add_value [OF sc refl lr [symmetric]]
  have ls: "length s = length m" and vs: "wval s + of_bool c * M = wval r + wval m"
    using add lr by (simp_all add: M_def)
  have "wval m < M" "wval r < M" "wval s < M"
    using wval_bound [of m] wval_bound [of r] wval_bound [of s] lr ls by (simp_all add: M_def)
  then have "wval (if b then s else r) = (wval v1 + wval m - wval v2) mod wval m"
    unfolding if_distrib [of wval] by (intro restore_arith [OF vr vs _ _ _ assms(4,5)])
  moreover have "wp_sub_mod res v1 v2 m = (if b then s else r)"
    using rb sc by (simp add: wp_sub_mod_def)
  ultimately show "length (wp_sub_mod res v1 v2 m) = length m"
    and "wval (wp_sub_mod res v1 v2 m) = (wval v1 + wval m - wval v2) mod wval m"
    using lr ls by simp_all
qed

lemma wp_shift_left_mod_value:
  assumes "length n = length m" and "wval n < wval m"
  shows "length (wp_shift_left_mod n m) = length m"
    and "wval (wp_shift_left_mod n m) = 2 * wval n mod wval m"
proof -
  obtain r c where run: "for_down (chain_word (shl_digit n)) (length n) (n, False) = (r, c)"
    by force
  note res = shl_chain.chain_result [OF run refl]
  have "int (wval r) = 2 * int (wval n) - int wbase ^ length n * of_bool c"
    using res(2) weights_wval_all [of n] by (simp add: weights_scale)
  then have "int (wval r + of_bool c * wbase ^ length n) = int (2 * wval n)" by simp
  then have "wval r + of_bool c * wbase ^ length n = 2 * wval n" by (simp only: of_nat_eq_iff)
  with res(1) have val: "wval r + of_bool c * wbase ^ length r = 2 * wval n" by simp
  have len: "length r = length m" using res(1) assms(1) by simp
  have "2 * wval n < 2 * wval m" using assms(2) by simp
  from reduce_once [OF val len this] run
  show "length (wp_shift_left_mod n m) = length m"
    and "wval (wp_shift_left_mod n m) = 2 * wval n mod wval m"
    by (simp_all add: wp_shift_left_mod_def)
qed

section \<open>Modular multiplication\<close>

definition mulmod_bit :: "u64 list \<Rightarrow> u64 list \<Rightarrow> bool \<Rightarrow> u64 list \<Rightarrow> u64 list" where
  "mulmod_bit v1 m b res =
     (let r = wp_shift_left_mod res m in if b then wp_add_mod r r v1 m else r)"

definition wp_multiply_mod :: "u64 list \<Rightarrow> u64 list \<Rightarrow> u64 list \<Rightarrow> u64 list" where
  "wp_multiply_mod v1 v2 m = bit_scan (mulmod_bit v1 m) v2 (wp_init (length m) 0)"

definition mulmod_inv :: "u64 list \<Rightarrow> u64 list \<Rightarrow> nat \<Rightarrow> u64 list \<Rightarrow> bool" where
  "mulmod_inv v1 m e res \<longleftrightarrow>
     (length v1 = length m \<and> wval v1 < wval m \<longrightarrow>
      length res = length m \<and> wval res = wval v1 * e mod wval m)"

lemma mulmod_bit_inv:
  assumes inv: "mulmod_inv v1 m e res"
  shows "mulmod_inv v1 m (2 * e + of_bool b) (mulmod_bit v1 m b res)"
  unfolding mulmod_inv_def
proof
  assume v1: "length v1 = length m \<and> wval v1 < wval m"
  with inv have len: "length res = length m" and val: "wval res = wval v1 * e mod wval m"
    by (simp_all add: mulmod_inv_def)
  from v1 have pos: "0 < wval m" by simp
  with val have "wval res < wval m" by simp
  note dbl = wp_shift_left_mod_value [OF len this]
  let ?r = "wp_shift_left_mod res m"
  have r: "wval ?r = wval v1 * (2 * e) mod wval m"
    using dbl(2) val by (simp add: mod_mult_right_eq mult.left_commute)
  show "length (mulmod_bit v1 m b res) = length m \<and>
      wval (mulmod_bit v1 m b res) = wval v1 * (2 * e + of_bool b) mod wval m"
  proof (cases b)
    case False
    then show ?thesis using dbl(1) r by (simp add: mulmod_bit_def)
  next
    case True
    have "wval ?r < wval m" using r pos by simp
    note add = wp_add_mod_value [OF dbl(1) dbl(1) conjunct1 [OF v1] this conjunct2 [OF v1]]
    from add True r show ?thesis
      by (simp add: mulmod_bit_def Let_def mod_add_right_eq distrib_left add.commute)
  qed
qed

interpretation mulmod_scan: msb_scan "mulmod_bit v1 m" "mulmod_inv v1 m" for v1 m
  by unfold_locales (rule mulmod_bit_inv)

lemma wp_multiply_mod_value:
  assumes "length v1 = length m" and "wval v1 < wval m"
  shows "length (wp_multiply_mod v1 v2 m) = length m"
    and "wval (wp_multiply_mod v1 v2 m) = wval v1 * wval v2 mod wval m"
proof -
  have "mulmod_inv v1 m 0 (wp_init (length m) 0)" by (simp add: mulmod_inv_def)
  from mulmod_scan.scan_all [OF this, of v2] assms
  show "length (wp_multiply_mod v1 v2 m) = length m"
    and "wval (wp_multiply_mod v1 v2 m) = wval v1 * wval v2 mod wval m"
    by (simp_all add: mulmod_inv_def wp_multiply_mod_def)
qed

section \<open>Exponentiation by squaring\<close>

text \<open>
  A modular product as the exponentiations use it: on operands of the right length and below
  the modulus it returns such an operand whose value is the product. The locale proves the
  square-and-multiply loop once; \<open>wp_exp_mod\<close> and \<open>wp_exp_mod64\<close> instantiate it with their
  own products.
\<close>

definition reduced :: "u64 list \<Rightarrow> u64 list \<Rightarrow> bool" where
  "reduced m v \<longleftrightarrow> length v = length m \<and> wval v < wval m"

definition square_multiply ::
  "(u64 list \<Rightarrow> u64 list \<Rightarrow> u64 list) \<Rightarrow> u64 list \<Rightarrow> bool \<Rightarrow> u64 list \<Rightarrow> u64 list" where
  "square_multiply mul base b res =
     (let sq = mul res res in if b then mul base sq else wp_copy (length res) res sq)"

locale modular_product =
  fixes mul :: "u64 list \<Rightarrow> u64 list \<Rightarrow> u64 list" and m :: "u64 list" and ok :: bool
  assumes mul_ok: "ok \<Longrightarrow> reduced m a \<Longrightarrow> reduced m b \<Longrightarrow>
      reduced m (mul a b) \<and> wval (mul a b) = wval a * wval b mod wval m"
begin

lemma square_multiply_inv:
  assumes ok: ok and base: "reduced m base" and res: "reduced m res"
    and val: "wval res = wval base ^ e mod wval m"
  shows "reduced m (square_multiply mul base b res) \<and>
    wval (square_multiply mul base b res) = wval base ^ (2 * e + of_bool b) mod wval m"
proof -
  let ?sq = "mul res res"
  have red: "reduced m ?sq" and sq: "wval ?sq = wval res * wval res mod wval m"
    using mul_ok [OF ok res res] by simp_all
  have sq2: "wval ?sq = wval base ^ (2 * e) mod wval m"
    unfolding sq val by (simp add: mod_mult_eq mult_2 power_add)
  show ?thesis
  proof (cases b)
    case False
    have "wp_copy (length res) res ?sq = ?sq" using red res by (simp add: reduced_def)
    with False red sq2 show ?thesis by (simp add: square_multiply_def)
  next
    case True
    have "wval (mul base ?sq) = wval base * wval ?sq mod wval m"
      and red': "reduced m (mul base ?sq)"
      using mul_ok [OF ok base red] by simp_all
    then have "wval (mul base ?sq) = wval base ^ (2 * e + 1) mod wval m"
      by (simp add: sq2 mod_mult_right_eq)
    with True red' show ?thesis by (simp add: square_multiply_def)
  qed
qed

end

definition expmod_inv :: "bool \<Rightarrow> u64 list \<Rightarrow> u64 list \<Rightarrow> nat \<Rightarrow> u64 list \<Rightarrow> bool" where
  "expmod_inv ok m base e res \<longleftrightarrow>
     (ok \<and> reduced m base \<longrightarrow> reduced m res \<and> wval res = wval base ^ e mod wval m)"

sublocale modular_product \<subseteq> power_scan: msb_scan
    "square_multiply mul base" "expmod_inv ok m base" for base
  by unfold_locales (auto simp: expmod_inv_def square_multiply_inv simp del: of_bool_def)

interpretation mulmod: modular_product "\<lambda>a b. wp_multiply_mod a b m" m True for m
proof
  fix a b
  assume ab: "reduced m a" "reduced m b"
  then have "wval a * wval b mod wval m < wval m" by (auto simp: reduced_def)
  with wp_multiply_mod_value [of a m b] ab
  show "reduced m (wp_multiply_mod a b m) \<and>
      wval (wp_multiply_mod a b m) = wval a * wval b mod wval m"
    by (simp add: reduced_def)
qed

fun is65537 :: "u64 list \<Rightarrow> bool" where
  "is65537 [] = False"
| "is65537 [w] = (w = 65537)"
| "is65537 (w # ws) = (if w \<noteq> 0 then False else is65537 ws)"

definition wp_exp_mod_65537 :: "u64 list \<Rightarrow> u64 list \<Rightarrow> u64 list" where
  "wp_exp_mod_65537 base m =
     (let res = wp_multiply_mod base base m;
          res = wp_multiply_mod res res m;
          res = wp_multiply_mod res res m;
          res = wp_multiply_mod res res m;
          res = wp_multiply_mod res res m;
          res = wp_multiply_mod res res m;
          res = wp_multiply_mod res res m;
          res = wp_multiply_mod res res m;
          res = wp_multiply_mod res res m;
          res = wp_multiply_mod res res m;
          res = wp_multiply_mod res res m;
          res = wp_multiply_mod res res m;
          res = wp_multiply_mod res res m;
          res = wp_multiply_mod res res m;
          res = wp_multiply_mod res res m;
          res = wp_multiply_mod res res m
      in wp_multiply_mod res base m)"

definition wp_exp_mod :: "u64 list \<Rightarrow> u64 list \<Rightarrow> u64 list \<Rightarrow> u64 list" where
  "wp_exp_mod base exp m =
     (if is65537 exp then wp_exp_mod_65537 base m
      else bit_scan (square_multiply (\<lambda>a b. wp_multiply_mod a b m) base) exp
             (wp_init (length m) 1))"

lemma is65537_iff: "is65537 ws \<longleftrightarrow> wval ws = 65537"
proof (induction ws rule: is65537.induct)
  case 1
  then show ?case by simp
next
  case (2 w)
  have "wval [w] = unat w" by (simp add: wval_def)
  moreover have "w = 65537 \<longleftrightarrow> unat w = unat (65537 :: u64)" by (simp only: word_unat_eq_iff)
  ultimately show ?case by simp
next
  case (3 w v vs)
  show ?case
  proof (cases "w = 0")
    case True
    with 3 show ?thesis by (simp add: wval_Cons)
  next
    case False
    then have "1 \<le> unat w" by (simp add: unat_gt_0 Suc_le_eq)
    then have "1 * wbase ^ length (v # vs) \<le> wval (w # v # vs)"
      by (subst wval_Cons) (metis mult_le_mono1 trans_le_add1)
    moreover have "wbase \<le> wbase ^ length (v # vs)"
      using power_increasing [of 1 "length (v # vs)" wbase] by (simp add: Suc_le_eq del: power_Suc)
    ultimately have "wbase \<le> wval (w # v # vs)" by linarith
    then have "wval (w # v # vs) \<noteq> 65537" by (simp add: wbase_def)
    with False show ?thesis by simp
  qed
qed

lemma square_step:
  assumes "reduced m res \<and> wval res = wval base ^ e mod wval m"
  shows "reduced m (wp_multiply_mod res res m) \<and>
    wval (wp_multiply_mod res res m) = wval base ^ (2 * e) mod wval m"
  using mulmod.mul_ok [of m res res] assms
  by (simp add: mod_mult_eq mult_2 power_add)

lemma wp_exp_mod_65537_value:
  assumes base: "reduced m base"
  shows "reduced m (wp_exp_mod_65537 base m) \<and>
    wval (wp_exp_mod_65537 base m) = wval base ^ 65537 mod wval m"
proof -
  define sq where "sq = (\<lambda>res. wp_multiply_mod res res m)"
  have step: "reduced m ((sq ^^ k) base) \<and> wval ((sq ^^ k) base) = wval base ^ 2 ^ k mod wval m" for k
  proof (induction k)
    case 0
    then show ?case using base by (simp add: reduced_def)
  next
    case (Suc k)
    from square_step [OF Suc.IH] show ?case by (simp add: sq_def)
  qed
  have "wp_exp_mod_65537 base m = wp_multiply_mod ((sq ^^ 16) base) base m"
    by (simp add: wp_exp_mod_65537_def Let_def sq_def numeral_eq_Suc)
  moreover have "reduced m ((sq ^^ 16) base)"
      "wval ((sq ^^ 16) base) = wval base ^ 65536 mod wval m"
    using step [of 16] by simp_all
  ultimately show ?thesis
    using mulmod.mul_ok [of m "(sq ^^ 16) base" base] base
    by (simp add: mod_mult_left_eq power_Suc2 [symmetric])
qed

lemma wp_exp_mod_value:
  assumes base: "reduced m base" and m: "1 < wval m"
  shows "reduced m (wp_exp_mod base exp m)"
    and "wval (wp_exp_mod base exp m) = wval base ^ wval exp mod wval m"
proof -
  have ne: "0 < length m" using m by (cases m) auto
  have one: "wval (wp_init (length m) 1) = 1" using ne by (simp add: wval_wp_init)
  then have "expmod_inv True m base 0 (wp_init (length m) 1)"
    using m by (simp add: expmod_inv_def reduced_def)
  from mulmod.power_scan.scan_all [OF this, of exp] base
  have "reduced m (bit_scan (square_multiply (\<lambda>a b. wp_multiply_mod a b m) base) exp
          (wp_init (length m) 1)) \<and>
        wval (bit_scan (square_multiply (\<lambda>a b. wp_multiply_mod a b m) base) exp
          (wp_init (length m) 1)) = wval base ^ wval exp mod wval m"
    by (simp add: expmod_inv_def)
  with wp_exp_mod_65537_value [OF base]
  show "reduced m (wp_exp_mod base exp m)"
    and "wval (wp_exp_mod base exp m) = wval base ^ wval exp mod wval m"
    by (auto simp: wp_exp_mod_def is65537_iff)
qed

section \<open>Long multiplication and division\<close>

definition multiply_step :: "u64 list \<Rightarrow> u64 list \<Rightarrow> u64 list" where
  "multiply_step v2 res =
     (let vwords = length v2;
          (hi, c) = (if \<not> wp_is_even res then wp_add (take vwords res) (take vwords res) v2
                     else (take vwords res, False));
          r = wp_shift_right (hi @ drop vwords res)
      in r[0 := r ! 0 OR push_bit 63 (of_bool c)])"

definition wp_multiply :: "u64 list \<Rightarrow> u64 list \<Rightarrow> u64 list" where
  "wp_multiply v1 v2 =
     ((multiply_step v2) ^^ (64 * length v1)) (replicate (length v1) 0 @ v1)"

definition div_step :: "u64 list \<Rightarrow> u64 list \<Rightarrow> u64 list" where
  "div_step denominator num =
     (let dwords = length denominator; n = length num;
          carry = drop_bit 63 (num ! 0);
          shifted = wp_shift_left num
      in if carry \<noteq> 0 \<or> wp_compare (take dwords shifted) denominator \<ge> 0
         then let hi = fst (wp_sub (take dwords shifted) (take dwords shifted) denominator);
                  r = hi @ drop dwords shifted
              in r[n - 1 := r ! (n - 1) OR 1]
         else shifted)"

text \<open>\<open>None\<close> is the failed assertion; the result is remainder and quotient.\<close>

definition wp_div :: "u64 list \<Rightarrow> u64 list \<Rightarrow> u64 list option" where
  "wp_div num denominator =
     (let dwords = length denominator
      in if wp_compare (take dwords num) denominator \<ge> 0 then None
         else Some ((div_step denominator ^^ (64 * dwords)) num))"

fun multiple_loop :: "u64 list \<Rightarrow> u64 \<Rightarrow> u64 \<Rightarrow> u64" where
  "multiple_loop [] m word = word"
| "multiple_loop (n # ns) m word =
     (let word = (push_bit 32 word OR (drop_bit 32 n AND 0xffffffff)) mod m;
          word = (push_bit 32 word OR (n AND 0xffffffff)) mod m
      in multiple_loop ns m word)"

definition wp_multiple_of_int :: "u64 list \<Rightarrow> u32 \<Rightarrow> bool option" where
  "wp_multiple_of_int n m =
     (if m = 0 \<and> n \<noteq> [] then None else Some (multiple_loop n (ucast m) 0 = 0))"

lemma top_bit_or: "unat w < 2 ^ 63 \<Longrightarrow>
    unat (w OR push_bit 63 (of_bool c) :: u64) = unat w + 2 ^ 63 * of_bool c"
proof -
  assume w: "unat w < 2 ^ 63"
  have "w AND push_bit 63 (of_bool c) = 0"
  proof (rule bit_eqI)
    fix n assume "possible_bit TYPE(64 word) n"
    have "\<not> bit w 63"
    proof
      assume "bit w 63"
      then have "bit (drop_bit 63 w) 0" by (simp add: bit_drop_bit_eq)
      then have "drop_bit 63 w \<noteq> 0" by (rule bit_nonzero)
      with w show False by (simp add: high_bit_iff)
    qed
    then show "bit (w AND push_bit 63 (of_bool c)) n = bit 0 n"
      by (simp only: bit_and_iff bit_push_bit_iff) (cases "n = 63"; cases c; auto simp: bit_1_iff)
  qed
  then have "w OR push_bit 63 (of_bool c) = w + push_bit 63 (of_bool c)"
    by (simp add: disjunctive_add_eq_or)
  with w show ?thesis by (cases c) (simp_all add: unat_64_plus wbase_def push_bit_eq_mult)
qed

lemma multiply_step_value:
  assumes len: "length res = 2 * length v2" and ne: "v2 \<noteq> []"
  shows "length (multiply_step v2 res) = 2 * length v2"
    and "wval (multiply_step v2 res) =
      (wval res + of_bool (odd (wval res)) * wval v2 * wbase ^ length v2) div 2"
proof -
  define n M where "n = length v2" and "M = wbase ^ n"
  define top where "top = take n res"
  define low where "low = drop n res"
  have lens: "length top = n" "length low = n" using len by (simp_all add: n_def top_def low_def)
  have res: "wval res = wval top * M + wval low"
    using wval_split [of n res] len by (simp add: n_def M_def top_def low_def)
  obtain hi c where hc:
    "(if \<not> wp_is_even res then wp_add top top v2 else (top, False)) = (hi, c)" by force
  have hi: "length hi = n \<and> wval hi + of_bool c * M = wval top + of_bool (odd (wval res)) * wval v2"
  proof (cases "wp_is_even res")
    case True
    moreover have "res \<noteq> []" using len ne by auto
    ultimately have "even (wval res)" by (simp add: wp_is_even_iff)
    with hc lens True show ?thesis by auto
  next
    case False
    then have add: "wp_add top top v2 = (hi, c)" using hc by simp
    have "res \<noteq> []" using len ne by auto
    with False have odd: "odd (wval res)" by (simp add: wp_is_even_iff)
    have "length v2 = length top" using lens by (simp add: n_def)
    from wp_add_value [OF add refl this] odd lens show ?thesis by (simp add: M_def)
  qed
  define r where "r = wp_shift_right (hi @ low)"
  have r: "length r = 2 * n" "wval r = (wval hi * M + wval low) div 2"
    using hi lens wp_shift_right_value [of "hi @ low"] by (simp_all add: r_def wval_append M_def)
  have step: "multiply_step v2 res = r[0 := r ! 0 OR push_bit 63 (of_bool c)]"
    by (simp only: multiply_step_def Let_def n_def [symmetric] top_def [symmetric]
        low_def [symmetric] hc prod.case r_def)
  have "0 < n" using ne by (simp add: n_def)
  with r obtain w ws where rw: "r = w # ws" "length ws = 2 * n - 1" by (cases r) auto
  define P where "P = wbase ^ (2 * n - 1)"
  have MM: "M * M = wbase * P"
    using \<open>0 < n\<close> by (simp add: M_def P_def mult_2 power_add [symmetric] power_Suc [symmetric] del: power_Suc)
  have "unat w * P \<le> wval r" using rw by (simp add: wval_Cons P_def)
  also have "wval r < 2 ^ 63 * P"
  proof -
    have "wval hi < M" "wval low < M" using wval_bound [of hi] wval_bound [of low] hi lens
      by (simp_all add: M_def)
    then have "(wval hi + 1) * M \<le> M * M" and "wval low < M" by (intro mult_le_mono1, simp_all)
    then have "wval hi * M + wval low < 2 * (2 ^ 63 * P)" by (simp add: MM wbase_def)
    then show ?thesis by (simp add: r(2))
  qed
  finally have "unat w < 2 ^ 63" by simp
  then have "wval (multiply_step v2 res) = wval r + 2 ^ 63 * of_bool c * P"
    using rw by (simp add: step wval_Cons top_bit_or P_def algebra_simps)
  also have "2 ^ 63 * of_bool c * P = of_bool c * (M * M) div 2"
    by (cases c) (simp_all add: MM wbase_def)
  also have "wval r + of_bool c * (M * M) div 2 = ((wval hi + of_bool c * M) * M + wval low) div 2"
  proof -
    have "even (M * M)" by (simp add: MM wbase_def)
    then have "(M * M + x) div 2 = M * M div 2 + x div 2" for x
      by (rule div_plus_div_distrib_dvd_left)
    from this [of "wval hi * M + wval low"] show ?thesis
      by (cases c) (simp_all add: r(2) algebra_simps)
  qed
  also have "(wval hi + of_bool c * M) * M + wval low =
      wval res + of_bool (odd (wval res)) * wval v2 * M"
    using hi by (simp add: res algebra_simps)
  finally show "wval (multiply_step v2 res) =
      (wval res + of_bool (odd (wval res)) * wval v2 * wbase ^ length v2) div 2"
    by (simp add: M_def n_def)
  show "length (multiply_step v2 res) = 2 * length v2" using step r by (simp add: n_def)
qed

text \<open>
  After \<open>i\<close> steps the product register holds the bits of \<open>v1\<close> not yet used, below the
  partial product of the bits used.
\<close>

lemma multiply_arith:
  fixes a b :: nat
  assumes i: "i < V" and x: "x = a div 2 ^ i + (a mod 2 ^ i) * b * 2 ^ (V - i)"
  shows "(x + of_bool (odd x) * b * 2 ^ V) div 2 =
    a div 2 ^ Suc i + (a mod 2 ^ Suc i) * b * 2 ^ (V - Suc i)"
proof -
  define q t where "q = a div 2 ^ Suc i" and "t = a div 2 ^ i mod 2"
  have V: "2 ^ (V - i) = 2 * (2 :: nat) ^ (V - Suc i)" "2 ^ V = 2 ^ i * (2 * (2 :: nat) ^ (V - Suc i))"
    using i by (simp_all add: power_Suc [symmetric] power_add [symmetric] Suc_diff_Suc del: power_Suc)
  have q: "a div 2 ^ i = 2 * q + t"
    using div_mult_mod_eq [of "a div 2 ^ i" 2]
    by (simp add: q_def t_def div_mult2_eq [symmetric] mult.commute [of 2])
  have m: "a mod 2 ^ Suc i = 2 ^ i * t + a mod 2 ^ i"
    by (simp add: t_def mod_mult2_eq mult.commute [of 2])
  have "odd x = odd (2 * q + t)" unfolding x q V by simp
  then have "of_bool (odd x) = t" by (simp add: t_def mod2_eq_if)
  then have "x + of_bool (odd x) * b * 2 ^ V =
      t + 2 * (q + (2 ^ i * t + a mod 2 ^ i) * b * 2 ^ (V - Suc i))"
    unfolding x q V by (simp add: algebra_simps)
  moreover have "t < 2" by (simp add: t_def)
  ultimately show ?thesis unfolding m q_def [symmetric] by (simp add: t_def)
qed

lemma wp_multiply_value:
  assumes "length v2 = length v1"
  shows "length (wp_multiply v1 v2) = 2 * length v1"
    and "wval (wp_multiply v1 v2) = wval v1 * wval v2"
proof -
  define V where "V = 64 * length v1"
  have M: "wbase ^ length v1 = 2 ^ V" by (simp add: V_def wbase_def power_mult)
  have "i \<le> V \<Longrightarrow> length ((multiply_step v2 ^^ i) (replicate (length v1) 0 @ v1)) = 2 * length v1 \<and>
      wval ((multiply_step v2 ^^ i) (replicate (length v1) 0 @ v1)) =
        wval v1 div 2 ^ i + (wval v1 mod 2 ^ i) * wval v2 * 2 ^ (V - i)" for i
  proof (induction i)
    case 0
    then show ?case by (simp add: wval_append)
  next
    case (Suc i)
    let ?r = "(multiply_step v2 ^^ i) (replicate (length v1) 0 @ v1)"
    from Suc have len: "length ?r = 2 * length v2"
      and val: "wval ?r = wval v1 div 2 ^ i + (wval v1 mod 2 ^ i) * wval v2 * 2 ^ (V - i)"
      using assms by simp_all
    have "v2 \<noteq> []" using Suc.prems assms by (auto simp: V_def)
    note step = multiply_step_value [OF len this]
    from Suc.prems have "i < V" by simp
    from multiply_arith [OF this val] step assms M show ?case by simp
  qed
  from this [of V] have "length (wp_multiply v1 v2) = 2 * length v1 \<and>
      wval (wp_multiply v1 v2) = wval v1 div 2 ^ V + (wval v1 mod 2 ^ V) * wval v2"
    by (simp add: wp_multiply_def V_def [symmetric])
  moreover have "wval v1 < 2 ^ V" using wval_bound [of v1] M by simp
  ultimately show "length (wp_multiply v1 v2) = 2 * length v1"
    and "wval (wp_multiply v1 v2) = wval v1 * wval v2" by simp_all
qed

lemma or_1_value:
  assumes "r \<noteq> []" and "even (wval r)"
  shows "wval (r[length r - 1 := r ! (length r - 1) OR 1]) = wval r + 1"
proof -
  obtain ws w where r: "r = ws @ [w]" using assms(1) by (metis rev_exhaust)
  have "even wbase" by (simp add: wbase_def)
  with assms(2) r have "even w" by (simp add: even_unat_iff)
  then have "w OR 1 = w + of_bool True" by (simp add: or_one_eq)
  then have or: "unat (w OR 1) = (if unat w = wbase - 1 then 0 else unat w + 1)"
    by (simp only: unat_plus_carry) simp
  moreover have "unat w \<noteq> wbase - 1"
  proof
    assume "unat w = wbase - 1"
    moreover have "odd (wbase - 1)" by (simp add: wbase_def)
    ultimately show False using \<open>even w\<close> by (simp add: even_unat_iff [symmetric])
  qed
  ultimately show ?thesis using r by (simp add: list_update_append)
qed

text \<open>The bit that a left shift pushes out is the top bit of the first word.\<close>

lemma shift_left_carry:
  assumes "n \<noteq> []"
  shows "2 * wval n = wval (wp_shift_left n) + of_bool (drop_bit 63 (n ! 0) \<noteq> 0) * wbase ^ length n"
proof -
  obtain w ws where n: "n = w # ws" using assms by (cases n) auto
  define P c where "P = wbase ^ length ws" and "c = (drop_bit 63 (n ! 0) \<noteq> 0)"
  have "wval n = unat w * P + wval ws" and ws: "wval ws < P"
    using n wval_bound [of ws] by (simp_all add: wval_Cons P_def)
  then have "2 * wval n = (2 * unat w) * P + 2 * wval ws" by simp
  also have "2 * unat w = unat (2 * w) + wbase * of_bool c"
    using unat_double [of w] n by (simp add: c_def high_bit_iff)
  also have "(unat (2 * w) + wbase * of_bool c) * P + 2 * wval ws =
      unat (2 * w) * P + 2 * wval ws + of_bool c * (wbase * P)"
    by (cases c) (simp_all add: distrib_right)
  finally have two: "2 * wval n = unat (2 * w) * P + 2 * wval ws + of_bool c * (wbase * P)" .
  have "even (unat (2 * w))" by (simp add: even_unat_iff)
  moreover have "unat (2 * w) < wbase" by (rule unat_lt_wbase)
  moreover have "even wbase" by (simp add: wbase_def)
  ultimately have "unat (2 * w) + 2 \<le> wbase" by presburger
  then have "(unat (2 * w) + 2) * P \<le> wbase * P" by (rule mult_le_mono1)
  with ws have "unat (2 * w) * P + 2 * wval ws < wbase * P" by (simp add: algebra_simps)
  then have "2 * wval n mod (wbase * P) = unat (2 * w) * P + 2 * wval ws" by (simp add: two)
  then have "wval (wp_shift_left n) = unat (2 * w) * P + 2 * wval ws"
    using wp_shift_left_value(2) [of n] n by (simp add: P_def)
  with two n show ?thesis by (simp add: P_def c_def)
qed

lemma div_step_value:
  assumes len: "length num = 2 * length d" and top: "wval num < wval d * wbase ^ length d"
  shows "length (div_step d num) = length num"
    and "wval (div_step d num) =
      (if wval d * wbase ^ length d \<le> 2 * wval num
       then 2 * wval num - wval d * wbase ^ length d + 1 else 2 * wval num)"
proof -
  define n M where "n = length d" and "M = wbase ^ n"
  let ?s = "wp_shift_left num"
  define hi lo where "hi = take n ?s" and "lo = drop n ?s"
  have lens: "length hi = n" "length lo = n" "length ?s = 2 * n"
    using len wp_shift_left_value(1) [of num] by (simp_all add: n_def hi_def lo_def)
  have bnds: "wval d < M" "wval hi < M" "wval lo < M"
    using wval_bound [of d] wval_bound [of hi] wval_bound [of lo] lens by (simp_all add: M_def n_def)
  have "0 < n" using top by (cases "length d") (auto simp: n_def)
  define C where "C = (drop_bit 63 (num ! 0) \<noteq> 0)"
  have s: "wval ?s = wval hi * M + wval lo"
    using wval_split [of n ?s] lens by (simp add: M_def hi_def lo_def)
  have "num \<noteq> []" using len \<open>0 < n\<close> by (auto simp: n_def)
  moreover have "wbase ^ length num = M * M"
    using len by (simp add: M_def n_def mult_2 power_add)
  ultimately have dbl: "2 * wval num = (wval hi + of_bool C * M) * M + wval lo"
    using shift_left_carry [of num] s by (simp add: C_def distrib_right)
  have lend: "length hi = length d" using lens by (simp add: n_def)
  have cond: "(C \<or> wp_compare hi d \<ge> 0) \<longleftrightarrow> wval d * M \<le> 2 * wval num"
  proof -
    have "wval d * M \<le> 2 * wval num \<longleftrightarrow> wval d \<le> wval hi + of_bool C * M"
    proof
      assume "wval d * M \<le> 2 * wval num"
      with dbl bnds have "wval d * M < (wval hi + of_bool C * M + 1) * M" by simp
      then have "wval d < wval hi + of_bool C * M + 1" by (simp only: mult_less_cancel2)
      then show "wval d \<le> wval hi + of_bool C * M" by simp
    next
      assume "wval d \<le> wval hi + of_bool C * M"
      then have "wval d * M \<le> (wval hi + of_bool C * M) * M" by (rule mult_le_mono1)
      also have "\<dots> \<le> 2 * wval num" by (simp only: dbl le_add1)
      finally show "wval d * M \<le> 2 * wval num" .
    qed
    with bnds(1) show ?thesis by (cases C) (auto simp: wp_compare_ge [OF lend])
  qed
  have step: "div_step d num =
      (if C \<or> wp_compare hi d \<ge> 0
       then let h = fst (wp_sub hi hi d); r = h @ lo in r[length num - 1 := r ! (length num - 1) OR 1]
       else ?s)"
    by (simp only: div_step_def Let_def n_def [symmetric] hi_def [symmetric] lo_def [symmetric] C_def)
  obtain h b where h: "wp_sub hi hi d = (h, b)" by force
  note sub = wp_sub_value [OF h refl lend [symmetric]]
  show "length (div_step d num) = length num"
    using sub(1) lens len by (simp add: step h n_def Let_def)
  show "wval (div_step d num) = (if wval d * wbase ^ length d \<le> 2 * wval num
       then 2 * wval num - wval d * wbase ^ length d + 1 else 2 * wval num)"
  proof (cases "wval d * M \<le> 2 * wval num")
    case False
    then have "\<not> C" using cond by blast
    with False cond dbl s show ?thesis by (simp add: step M_def n_def)
  next
    case True
    have T: "wval hi + of_bool C * M < 2 * wval d"
    proof -
      have "(wval hi + of_bool C * M) * M \<le> 2 * wval num" using dbl by simp
      also have "\<dots> < 2 * wval d * M" using top by (simp add: M_def n_def)
      finally show ?thesis by simp
    qed
    have ge: "wval d \<le> wval hi + of_bool C * M"
      using cond True bnds(1) by (cases C) (auto simp: wp_compare_ge [OF lend])
    have "wval h < M" using wval_bound [of h] sub(1) lens by (simp add: M_def)
    then have hv: "wval h + wval d = wval hi + of_bool C * M"
      using sub(2) T ge bnds lens by (cases b; cases C) (simp_all add: M_def)
    have r: "wval (h @ lo) = 2 * wval num - wval d * M"
    proof -
      have "wval (h @ lo) + wval d * M = (wval h + wval d) * M + wval lo"
        using lens by (simp add: wval_append M_def algebra_simps)
      then show ?thesis using dbl hv by simp
    qed
    have "even M" using \<open>0 < n\<close> by (simp add: M_def wbase_def)
    then have "even (wval (h @ lo))" using r by simp
    moreover have "h @ lo \<noteq> []" "length (h @ lo) = length num" using lens len sub(1) \<open>0 < n\<close> by (auto simp: n_def)
    ultimately have "wval (div_step d num) = wval (h @ lo) + 1"
      using or_1_value [of "h @ lo"] True cond by (simp add: step h Let_def)
    with r True show ?thesis by (simp add: M_def n_def)
  qed
qed

lemma div_arith:
  fixes N R q d :: nat
  assumes i: "i < V" and N: "x = R * 2 ^ i + q" and q: "q < 2 ^ i"
    and R: "R < d * 2 ^ (V - i)" and tot: "N = R + q * d * 2 ^ (V - i)"
    and y: "y = (if d * 2 ^ V \<le> 2 * x then 2 * x - d * 2 ^ V + 1 else 2 * x)"
  shows "\<exists>R' q'. y = R' * 2 ^ Suc i + q' \<and> q' < 2 ^ Suc i \<and> R' < d * 2 ^ (V - Suc i) \<and>
    N = R' + q' * d * 2 ^ (V - Suc i)"
proof -
  define W where "W = (2 :: nat) ^ (V - Suc i)"
  have V: "2 ^ (V - i) = 2 * W" "2 ^ V = W * 2 ^ Suc i"
    using i by (simp_all add: W_def power_Suc [symmetric] power_add [symmetric] Suc_diff_Suc del: power_Suc)
  have x2: "2 * x = R * 2 ^ Suc i + 2 * q" using N by simp
  have q2: "2 * q + 1 < 2 ^ Suc i" using q by (simp add: Suc_le_eq [symmetric] algebra_simps)
  have cond: "d * 2 ^ V \<le> 2 * x \<longleftrightarrow> d * W \<le> R"
  proof
    assume "d * 2 ^ V \<le> 2 * x"
    with x2 q2 have "(d * W) * 2 ^ Suc i < (R + 1) * 2 ^ Suc i"
      by (simp add: V mult.assoc distrib_right)
    then have "d * W < R + 1" by (simp only: mult_less_cancel2)
    then show "d * W \<le> R" by simp
  next
    assume "d * W \<le> R"
    then have "(d * W) * 2 ^ Suc i \<le> R * 2 ^ Suc i" by (rule mult_le_mono1)
    also have "\<dots> \<le> 2 * x" by (simp only: x2 le_add1)
    finally show "d * 2 ^ V \<le> 2 * x" by (simp only: V mult.assoc)
  qed
  show ?thesis
  proof (cases "d * W \<le> R")
    case False
    then have "y = R * 2 ^ Suc i + 2 * q" using y cond x2 by simp
    with False q2 tot show ?thesis by (intro exI [of _ R] exI [of _ "2 * q"]) (simp add: V W_def)
  next
    case True
    then have "y = R * 2 ^ Suc i + 2 * q - (d * W) * 2 ^ Suc i + 1"
      using y cond x2 by (simp add: V mult.assoc)
    also have "\<dots> = (R - d * W) * 2 ^ Suc i + (2 * q + 1)"
      using mult_le_mono1 [OF True, of "2 ^ Suc i"] by (simp add: diff_mult_distrib)
    finally have y': "y = (R - d * W) * 2 ^ Suc i + (2 * q + 1)" .
    have "R - d * W < d * W" using R True V by simp
    moreover have "N = (R - d * W) + (2 * q + 1) * d * W"
      using tot True V by (simp add: algebra_simps)
    ultimately show ?thesis
      using y' q2 by (intro exI [of _ "R - d * W"] exI [of _ "2 * q + 1"]) (simp add: W_def)
  qed
qed

lemma div_step_iterate:
  assumes len: "length num = 2 * length d" and top: "wval num < wval d * wbase ^ length d"
  defines "V \<equiv> 64 * length d"
  shows "i \<le> V \<Longrightarrow> length ((div_step d ^^ i) num) = length num \<and>
    (\<exists>R q. wval ((div_step d ^^ i) num) = R * 2 ^ i + q \<and> q < 2 ^ i \<and>
      R < wval d * 2 ^ (V - i) \<and> wval num = R + q * wval d * 2 ^ (V - i))"
proof (induction i)
  case 0
  then show ?case using top by (simp add: V_def wbase_def power_mult)
next
  case (Suc i)
  let ?x = "(div_step d ^^ i) num"
  from Suc obtain R q where l: "length ?x = length num" and x: "wval ?x = R * 2 ^ i + q"
    and q: "q < 2 ^ i" and R: "R < wval d * 2 ^ (V - i)"
    and tot: "wval num = R + q * wval d * 2 ^ (V - i)" by auto
  have M: "wbase ^ length d = 2 ^ V" by (simp add: V_def wbase_def power_mult)
  have "wval ?x < wval d * 2 ^ V"
  proof -
    have "wval ?x < (R + 1) * 2 ^ i" using x q by simp
    also have "\<dots> \<le> wval d * 2 ^ (V - i) * 2 ^ i" using R by (intro mult_le_mono1) simp
    also have "\<dots> = wval d * 2 ^ V" using Suc.prems by (simp add: power_add [symmetric])
    finally show ?thesis .
  qed
  with l len M have "length ?x = 2 * length d" "wval ?x < wval d * wbase ^ length d" by simp_all
  note step = div_step_value [OF this]
  have "i < V" using Suc.prems by simp
  from div_arith [OF this x q R tot step(2) [unfolded M]] step(1) l show ?case by simp
qed

lemma wp_div_value:
  assumes len: "length num = 2 * length d" and top: "wval (take (length d) num) < wval d"
  shows "\<exists>r. wp_div num d = Some r \<and> length r = length num \<and>
    wval (take (length d) r) = wval num mod wval d \<and>
    wval (drop (length d) r) = wval num div wval d"
proof -
  let ?n = "length d"
  let ?r = "(div_step d ^^ (64 * ?n)) num"
  define M where "M = wbase ^ ?n"
  have M2: "M = 2 ^ (64 * ?n)" by (simp add: M_def wbase_def power_mult)
  have lt: "length (take ?n num) = length d" using len by simp
  have "wval num = wval (take ?n num) * M + wval (drop ?n num)" and "wval (drop ?n num) < M"
    using wval_split [of ?n num] wval_bound [of "drop ?n num"] len by (simp_all add: M_def)
  then have "wval num < (wval (take ?n num) + 1) * M" by simp
  also have "\<dots> \<le> wval d * M" using top by (intro mult_le_mono1) simp
  finally have "wval num < wval d * wbase ^ length d" by (simp add: M_def)
  from div_step_iterate [OF len this, of "64 * ?n"] obtain R q
    where l: "length ?r = length num" and x: "wval ?r = R * M + q" and q: "q < M"
      and R: "R < wval d" and tot: "wval num = R + q * wval d"
    by (auto simp: M2)
  have "wval (take ?n ?r) * M + wval (drop ?n ?r) = R * M + q" and "wval (drop ?n ?r) < M"
    using wval_split [of ?n ?r] wval_bound [of "drop ?n ?r"] l len x by (simp_all add: M_def)
  then have "wval (take ?n ?r) = R" "wval (drop ?n ?r) = q"
    using q digits_unique by blast+
  moreover have "wval num mod wval d = R" "wval num div wval d = q"
    using R tot by simp_all
  moreover have "wp_div num d = Some ?r"
    using top by (simp add: wp_div_def Let_def wp_compare_ge [OF lt])
  ultimately show ?thesis using l by auto
qed

section \<open>Divisibility by a small number\<close>

lemma mask32: "(w AND 0xffffffff :: u64) = take_bit 32 w"
proof -
  have "(0xffffffff :: u64) = mask 32" by (simp add: mask_eq_exp_minus_1)
  then show ?thesis by (simp only: take_bit_eq_mask)
qed

lemma unat_take_bit: "unat (take_bit k w :: u64) = unat w mod 2 ^ k"
  by (simp only: unsigned_take_bit_eq take_bit_nat_def)

lemma unat_concat_32:
  assumes "unat w < 2 ^ 32"
  shows "unat (push_bit 32 w OR take_bit 32 y :: u64) = unat w * 2 ^ 32 + unat y mod 2 ^ 32"
proof -
  have "push_bit 32 w AND take_bit 32 y = 0"
    by (rule bit_eqI) (auto simp: bit_simps)
  then have "push_bit 32 w OR take_bit 32 y = 2 ^ 32 * w + take_bit 32 y"
    by (simp add: disjunctive_add_eq_or [symmetric] push_bit_eq_mult mult.commute)
  moreover have "unat (2 ^ 32 * w) = 2 ^ 32 * unat w"
    using assms by (simp add: unat_64_times wbase_def)
  ultimately show ?thesis
    using assms by (simp add: unat_64_plus unat_take_bit wbase_def)
qed

lemma multiple_loop_value:
  assumes "unat word < unat m" and "unat m \<le> 2 ^ 32"
  shows "unat (multiple_loop ns m word) = (unat word * wbase ^ length ns + wval ns) mod unat m"
  using assms
proof (induction ns m word rule: multiple_loop.induct)
  case (1 m word)
  then show ?case by simp
next
  case (2 n ns m word)
  define a where "a = (push_bit 32 word OR (drop_bit 32 n AND 0xffffffff)) mod m"
  define b where "b = (push_bit 32 a OR (n AND 0xffffffff)) mod m"
  define K where "K = (2 :: nat) ^ 32"
  have n: "unat n div K < K" "unat n = unat n div K * K + unat n mod K"
    using unat_lt_wbase [of n] by (simp_all add: K_def wbase_def)
  have "unat word < K" using less_le_trans [OF "2.prems"] by (simp add: K_def)
  then have a: "unat a = (unat word * K + unat n div K) mod unat m"
    using n by (simp add: a_def unat_mod_distrib mask32 unat_concat_32 unat_drop_bit K_def)
  then have am: "unat a < unat m" using "2.prems" by simp
  then have "unat a < K" using less_le_trans [OF _ "2.prems"(2)] by (simp add: K_def)
  then have "unat b = (unat a * K + unat n mod K) mod unat m"
    by (simp add: b_def unat_mod_distrib mask32 unat_concat_32 K_def)
  also have "\<dots> = ((unat word * K + unat n div K) * K + unat n mod K) mod unat m"
    unfolding a by (metis mod_add_left_eq mod_mult_left_eq)
  also have "(unat word * K + unat n div K) * K + unat n mod K = unat word * wbase + unat n"
    using n(2) by (simp add: algebra_simps K_def wbase_def)
  finally have b: "unat b = (unat word * wbase + unat n) mod unat m" .
  then have "unat b < unat m" using "2.prems" by simp
  from "2.IH" [OF a_def b_def this "2.prems"(2)] have
    "unat (multiple_loop ns m b) = (unat b * wbase ^ length ns + wval ns) mod unat m" .
  also have "\<dots> = ((unat word * wbase + unat n) * wbase ^ length ns + wval ns) mod unat m"
    unfolding b by (metis mod_add_left_eq mod_mult_left_eq)
  finally show ?case
    by (simp add: a_def [symmetric] b_def [symmetric] wval_Cons Let_def algebra_simps)
qed

lemma wp_multiple_of_int_value:
  assumes "0 < m"
  shows "wp_multiple_of_int n m = Some (unat m dvd wval n)"
proof -
  have "unat m < 2 ^ LENGTH(32)" by (rule unsigned_less)
  then have "unat m < 2 ^ 64" and le: "unat m \<le> 2 ^ 32" by simp_all
  then have m: "unat (ucast m :: u64) = unat m"
    by (simp only: unsigned_ucast_eq) (simp add: take_bit_nat_eq_self)
  have "0 < unat m" using assms by (simp add: word_less_nat_alt)
  then have "unat (multiple_loop n (ucast m) 0) = wval n mod unat m"
    using multiple_loop_value [of 0 "ucast m" n] le by (simp add: m)
  moreover have "m \<noteq> 0" using assms by auto
  ultimately show ?thesis
    by (auto simp: wp_multiple_of_int_def unat_eq_0 [symmetric] dvd_eq_mod_eq_0 simp del: unat_eq_0)
qed

section \<open>Properties\<close>

text \<open>
  On operands below the modulus, \<open>wp_add_mod\<close> and \<open>wp_sub_mod\<close> return the sum and the
  difference modulo it; one conditional subtraction, or addition, is enough.
\<close>

theorem wp_add_sub_mod_correct:
  assumes "length res = length m" "length v1 = length m" "length v2 = length m"
    and "wval v1 < wval m" "wval v2 < wval m"
  shows "wval (wp_add_mod res v1 v2 m) = (wval v1 + wval v2) mod wval m \<and>
    int (wval (wp_sub_mod res v1 v2 m)) = (int (wval v1) - int (wval v2)) mod int (wval m)"
proof -
  have "int (wval v1 + wval m - wval v2) = int (wval v1) - int (wval v2) + int (wval m)"
    using assms(5) by simp
  then have "int ((wval v1 + wval m - wval v2) mod wval m) =
      (int (wval v1) - int (wval v2)) mod int (wval m)"
    by (simp add: zmod_int)
  with wp_add_mod_value(2) [OF assms] wp_sub_mod_value(2) [OF assms] show ?thesis by simp
qed

theorem wp_add_sub_mod_correct_witness:
  "wval (wp_add_mod [0] [5] [6] [7]) = 4 \<and> int (wval (wp_sub_mod [0] [5] [6] [7])) = 6"
  using wp_add_sub_mod_correct [of "[0]" "[7]" "[5]" "[6]"] by (simp add: wval_def)

text \<open>
  \<open>wp_multiply_mod\<close> multiplies modulo the modulus, and \<open>wp_exp_mod\<close> raises to a power
  modulo it: for a base below a modulus greater than 1 its result is the power, for every
  exponent, on the path of the exponent 65537 and on the general one.
\<close>

theorem wp_exp_mod_correct:
  assumes "length base = length m" and "wval base < wval m" and "1 < wval m"
  shows "length (wp_exp_mod base exp m) = length m \<and>
    wval (wp_exp_mod base exp m) = wval base ^ wval exp mod wval m"
  using wp_exp_mod_value [of m base exp] assms by (simp add: reduced_def)

theorem wp_exp_mod_correct_witness:
  "length (wp_exp_mod [3] [5] [7]) = 1 \<and> wval (wp_exp_mod [3] [5] [7]) = 5"
  using wp_exp_mod_correct [of "[3]" "[7]" "[5]"] by (simp add: wval_def)

text \<open>\<open>wp_multiply\<close> returns the exact product, in twice the words of its operands.\<close>

theorem wp_multiply_correct:
  assumes "length v2 = length v1"
  shows "length (wp_multiply v1 v2) = 2 * length v1 \<and> wval (wp_multiply v1 v2) = wval v1 * wval v2"
  using wp_multiply_value [OF assms] by simp

theorem wp_multiply_correct_witness:
  "length (wp_multiply [1, 2] [3, 4]) = 4 \<and> wval (wp_multiply [1, 2] [3, 4]) = wval [1, 2] * wval [3, 4]"
  using wp_multiply_correct [of "[3, 4]" "[1, 2]"] by simp

text \<open>
  \<open>wp_div\<close>, whose assertion holds exactly when the quotient fits, leaves the remainder
  in the high words and the quotient in the low words of the dividend.
\<close>

theorem wp_div_correct:
  assumes "length num = 2 * length d" and "wval (take (length d) num) < wval d"
  shows "\<exists>r. wp_div num d = Some r \<and> length r = length num \<and>
    wval (take (length d) r) = wval num mod wval d \<and>
    wval (drop (length d) r) = wval num div wval d"
  by (rule wp_div_value [OF assms])

theorem wp_div_correct_witness:
  "\<exists>r. wp_div [1, 5] [7] = Some r \<and> length r = length [1, 5 :: u64] \<and>
    wval (take 1 r) = wval [1, 5] mod wval [7] \<and> wval (drop 1 r) = wval [1, 5] div wval [7]"
  using wp_div_correct [of "[1, 5]" "[7]"] by (simp add: wval_def)

text \<open>
  \<open>wp_multiple_of_int\<close> decides divisibility of a long integer by a positive 32-bit
  number, working in 32-bit halves so that no intermediate value exceeds a word.
\<close>

theorem wp_multiple_of_int_correct:
  assumes "0 < m"
  shows "wp_multiple_of_int n m = Some (unat m dvd wval n)"
  by (rule wp_multiple_of_int_value [OF assms])

theorem wp_multiple_of_int_correct_witness:
  "wp_multiple_of_int [0, 21] 7 = Some True"
  using wp_multiple_of_int_correct [of 7 "[0, 21]"] by (simp add: wval_def)

end
