(* ===== verification/WpFast.thy ===== *)
theory WpFast
  imports WpMod
begin

text \<open>
  The fast modular exponentiation \<open>wp_exp_mod64\<close> of \<open>lib/wp_arith.c\<close>: 64 by 64 bit
  products, multiplication by one word, and reduction by a table of shifted moduli. The flat
  array \<open>shifted\<close> of 64 blocks of words and its array \<open>extra\<close> of 64 high words are one
  list of 64 pairs, the block and its high word at the same index.
\<close>

section \<open>Products of words\<close>

definition multiply128 :: "u64 \<Rightarrow> u64 \<Rightarrow> u64 \<times> u64" where
  "multiply128 v1 v2 =
     (let v1_low = v1 AND 0xffffffff;
          v1_high = drop_bit 32 v1 AND 0xffffffff;
          v2_low = v2 AND 0xffffffff;
          v2_high = drop_bit 32 v2 AND 0xffffffff;
          i1 = v1_low * v2_high + v1_high * v2_low;
          i_carry = (of_bool (i1 < v1_high * v2_low) :: u64);
          i1_low = push_bit 32 (i1 AND 0xffffffff);
          i1_high = drop_bit 32 i1 AND 0xffffffff;
          r1 = v1_low * v2_low + i1_low;
          carry = r1 < i1_low;
          r2 = v1_high * v2_high + i1_high + push_bit 32 i_carry + of_bool carry
      in (r2, r1))"

definition add128 :: "u64 \<Rightarrow> u64 \<Rightarrow> u64 \<Rightarrow> u64 \<Rightarrow> (u64 \<times> u64) \<times> bool" where
  "add128 res0 res1 v carry =
     (let r1 = res1 + v;
          carry' = (if r1 < v then carry + 1 else carry);
          r0 = res0 + carry'
      in ((r0, r1), r0 < carry'))"

lemma unat_mult_32: "unat a < 2 ^ 32 \<Longrightarrow> unat b < 2 ^ 32 \<Longrightarrow> unat (a * b :: u64) = unat a * unat b"
proof -
  assume "unat a < 2 ^ 32" "unat b < 2 ^ 32"
  then have "unat a * unat b < 2 ^ 32 * 2 ^ 32" by (intro mult_strict_mono) auto
  then show ?thesis by (simp add: unat_64_times wbase_def)
qed

lemma unat_high_32: "unat (drop_bit 32 v AND 0xffffffff :: u64) = unat v div 2 ^ 32"
proof -
  have "unat v div 2 ^ 32 < 2 ^ 32" using unat_lt_wbase [of v] by (simp add: wbase_def)
  then show ?thesis by (simp only: mask32 unat_take_bit unat_drop_bit mod_less)
qed

lemma unat_low_32: "unat (v AND 0xffffffff :: u64) = unat v mod 2 ^ 32"
  by (simp only: mask32 unat_take_bit)

lemma split_32: "unat (drop_bit 32 v AND 0xffffffff) * 2 ^ 32 + unat (v AND 0xffffffff) = unat (v :: u64)"
  by (subst unat_high_32, subst unat_low_32, rule div_mult_mod_eq)

lemma unat_push_32: "unat w < 2 ^ 32 \<Longrightarrow> unat (push_bit 32 w :: u64) = unat w * 2 ^ 32"
proof -
  assume w: "unat w < 2 ^ 32"
  have "push_bit 32 w = w * 2 ^ 32" by (simp add: push_bit_eq_mult)
  then have "unat (push_bit 32 w) = unat w * unat (2 ^ 32 :: u64) mod wbase"
    by (simp only: unat_64_times)
  with w show ?thesis by (simp add: wbase_def)
qed

text \<open>The schoolbook product in base \<open>K\<close>, as an identity of natural numbers.\<close>

lemma school_product:
  fixes a0 a1 b0 b1 K :: nat
  assumes i: "i + ic * (K * K) = a0 * b1 + a1 * b0" and ih: "i = ih * K + il"
    and r1: "r1 + c * (K * K) = a0 * b0 + il * K"
  shows "(a1 * b1 + ih + ic * K + c) * (K * K) + r1 = (a1 * K + a0) * (b1 * K + b0)"
proof -
  have "(a1 * K + a0) * (b1 * K + b0) = a1 * b1 * (K * K) + (a0 * b1 + a1 * b0) * K + a0 * b0"
    by (simp add: algebra_simps)
  also have "\<dots> = a1 * b1 * (K * K) + (ih * K + il + ic * (K * K)) * K + a0 * b0"
    using i ih by simp
  also have "\<dots> = (a1 * b1 + ih + ic * K) * (K * K) + (a0 * b0 + il * K)"
    by (simp add: algebra_simps)
  finally show ?thesis using r1 by (simp add: algebra_simps)
qed

lemma multiply128_value:
  assumes "multiply128 v1 v2 = (hi, lo)"
  shows "unat hi * wbase + unat lo = unat v1 * unat v2"
proof -
  define K where "K = (2 :: nat) ^ 32"
  have KK: "K * K = wbase" by (simp add: K_def wbase_def)
  define a0 where "a0 = v1 AND 0xffffffff"
  define a1 where "a1 = drop_bit 32 v1 AND 0xffffffff"
  define b0 where "b0 = v2 AND 0xffffffff"
  define b1 where "b1 = drop_bit 32 v2 AND 0xffffffff"
  define i where "i = a0 * b1 + a1 * b0"
  define il where "il = i AND 0xffffffff"
  define ih where "ih = drop_bit 32 i AND 0xffffffff"
  define ic where "ic \<longleftrightarrow> i < a1 * b0"
  define r1 where "r1 = a0 * b0 + push_bit 32 il"
  define c where "c \<longleftrightarrow> r1 < push_bit 32 il"
  have lt: "unat a0 < K" "unat a1 < K" "unat b0 < K" "unat b1 < K" "unat il < K"
    using unat_lt_wbase [of v1] unat_lt_wbase [of v2]
    by (simp_all add: a0_def a1_def b0_def b1_def il_def unat_low_32 unat_high_32 K_def wbase_def)
  note mult = unat_mult_32 [folded K_def]
  have i: "unat i + of_bool ic * (K * K) = unat a0 * unat b1 + unat a1 * unat b0"
    using unat_plus_mod_split [of "a0 * b1" "a1 * b0"] lt
    by (simp add: i_def ic_def KK mult mult.commute)
  have ih: "unat i = unat ih * K + unat il"
    by (simp only: ih_def il_def K_def split_32)
  have r1: "unat r1 + of_bool c * (K * K) = unat a0 * unat b0 + unat il * K"
    using unat_plus_mod_split [of "a0 * b0" "push_bit 32 il"] lt unat_push_32 [folded K_def, OF lt(5)]
    by (simp add: r1_def c_def KK mult mult.commute)
  have v: "unat v1 = unat a1 * K + unat a0" "unat v2 = unat b1 * K + unat b0"
    by (simp_all only: a0_def a1_def b0_def b1_def K_def split_32)
  define S where "S = unat a1 * unat b1 + unat ih + of_bool ic * K + of_bool c"
  have prod: "S * wbase + unat r1 = unat v1 * unat v2"
    using school_product [OF i ih r1] by (simp add: S_def v KK)
  have "unat v1 * unat v2 < wbase * wbase"
    using unat_lt_wbase [of v1] unat_lt_wbase [of v2] by (intro mult_strict_mono) auto
  then have "S * wbase < wbase * wbase" using prod by linarith
  then have S: "S < wbase" by simp
  have out: "hi = a1 * b1 + ih + push_bit 32 (of_bool ic) + of_bool c" "lo = r1"
    using assms by (auto simp only: multiply128_def Let_def a0_def a1_def b0_def b1_def i_def
        il_def ih_def ic_def r1_def c_def prod.inject)
  have "unat (push_bit 32 (of_bool ic) :: u64) = of_bool ic * K"
    by (cases ic) (simp_all add: K_def push_bit_eq_mult)
  then have "unat hi = S"
    using S lt by (simp add: out S_def unat_64_plus mult)
  with prod out show ?thesis by simp
qed

section \<open>Adding a multiple of one word\<close>

definition add_mul_word :: "u64 list \<Rightarrow> u64 \<Rightarrow> nat \<Rightarrow> u64 list \<times> u64 \<Rightarrow> u64 list \<times> u64" where
  "add_mul_word a b64 i st =
     (case st of (r, high) \<Rightarrow>
       (case multiply128 (a ! i) b64 of (new_high, low) \<Rightarrow>
         let w = r ! i + low;
             new_high = (if w < low then new_high + 1 else new_high);
             w' = w + high;
             new_high = (if w' < high then new_high + 1 else new_high)
         in (r[i := w'], new_high)))"

definition add_multiply_int64 :: "u64 list \<Rightarrow> u64 list \<Rightarrow> u64 \<Rightarrow> u64 \<times> u64 list" where
  "add_multiply_int64 r a b64 =
     (let nwords = length r;
          (high, low) = multiply128 (a ! (nwords - 1)) b64;
          w = r ! (nwords - 1) + low;
          high = (if w < low then high + 1 else high);
          (r', rhigh) = for_down (add_mul_word a b64) (nwords - 1) (r[nwords - 1 := w], high)
      in (rhigh, r'))"

lemma unat_inc: "unat w + of_bool b < wbase \<Longrightarrow> unat (if b then w + 1 else w :: u64) = unat w + of_bool b"
  by (cases b) (simp_all add: unat_64_plus)

lemma mul_add_bound:
  fixes a b r h :: nat
  assumes "a < B" "b < B" "r < B" "h < B"
  shows "r + a * b + h < B * B"
proof -
  obtain C where B: "B = Suc C" using assms(1) by (cases B) auto
  have "a * b \<le> C * C" using assms B by (intro mult_le_mono) auto
  with assms B show ?thesis by simp
qed

lemma add_mul_word_digit:
  assumes "add_mul_word a b i (r, high) = (r', high')" and "i < length r"
  shows "\<exists>w. r' = r[i := w] \<and>
    unat w + wbase * unat high' = unat (r ! i) + unat (a ! i) * unat b + unat high"
proof -
  obtain nh low where m: "multiply128 (a ! i) b = (nh, low)" by force
  define w1 where "w1 = r ! i + low"
  define w2 where "w2 = w1 + high"
  define h1 where "h1 = (if w1 < low then nh + 1 else nh)"
  define h2 where "h2 = (if w2 < high then h1 + 1 else h1)"
  have r': "r' = r[i := w2]" "high' = h2"
    using assms(1) by (auto simp only: add_mul_word_def Let_def m prod.case prod.inject
        w1_def w2_def h1_def h2_def)
  note prod = multiply128_value [OF m]
  have w1: "unat w1 + wbase * of_bool (w1 < low) = unat (r ! i) + unat low"
    unfolding w1_def by (rule unat_plus_mod_split)
  have w2: "unat w2 + wbase * of_bool (w2 < high) = unat w1 + unat high"
    unfolding w2_def by (rule unat_plus_mod_split)
  define S where "S = unat nh + of_bool (w1 < low) + of_bool (w2 < high)"
  have total: "unat w2 + wbase * S = unat (r ! i) + unat (a ! i) * unat b + unat high"
    using prod w1 w2 by (simp add: S_def algebra_simps)
  have "unat (r ! i) + unat (a ! i) * unat b + unat high < wbase * wbase"
    by (intro mul_add_bound unat_lt_wbase)
  then have "wbase * S < wbase * wbase" using total by linarith
  then have S: "S < wbase" by simp
  then have "unat h1 = unat nh + of_bool (w1 < low)"
    unfolding h1_def S_def by (intro unat_inc) simp
  moreover from this S have "unat h2 = unat h1 + of_bool (w2 < high)"
    unfolding h2_def S_def by (intro unat_inc) simp
  ultimately have "unat h2 = S" by (simp add: S_def)
  with total r' show ?thesis by auto
qed

lemma add_mul_loop:
  "for_down (add_mul_word a b) i (r, high) = (r', high') \<Longrightarrow> i \<le> length r \<Longrightarrow> i \<le> length a \<Longrightarrow>
     length r' = length r \<and> drop i r' = drop i r \<and>
     wval (take i r') + unat high' * wbase ^ i =
       wval (take i r) + wval (take i a) * unat b + unat high"
proof (induction i arbitrary: r high)
  case 0
  then show ?case by simp
next
  case (Suc i)
  obtain r1 h1 where s: "add_mul_word a b i (r, high) = (r1, h1)" by force
  have il: "i < length r" "i < length a" using Suc.prems by simp_all
  from add_mul_word_digit [OF s il(1)] obtain w where r1: "r1 = r[i := w]"
    and dig: "unat w + wbase * unat h1 = unat (r ! i) + unat (a ! i) * unat b + unat high"
    by blast
  have run: "for_down (add_mul_word a b) i (r1, h1) = (r', high')" using Suc.prems s by simp
  from Suc.IH [OF this] il r1 have len: "length r' = length r" and dr: "drop i r' = drop i r1"
    and IH: "wval (take i r') + unat high' * wbase ^ i =
      wval (take i r) + wval (take i a) * unat b + unat h1"
    by simp_all
  have nth: "r' ! i = w" using dr il len r1 by (metis hd_drop_conv_nth length_list_update nth_list_update_eq)
  have tl: "drop (Suc i) r' = drop (Suc i) r"
    using dr r1 by (metis drop_Suc drop_update_cancel lessI tl_drop)
  have "wval (take (Suc i) r') + unat high' * wbase ^ Suc i =
      (wval (take i r') + unat high' * wbase ^ i) * wbase + unat w"
    using il len nth by (simp add: wval_take_Suc algebra_simps)
  also have "\<dots> = (wval (take i r) + wval (take i a) * unat b) * wbase + (unat w + wbase * unat h1)"
    by (simp add: IH algebra_simps)
  also have "\<dots> = wval (take (Suc i) r) + wval (take (Suc i) a) * unat b + unat high"
    using il by (simp add: dig wval_take_Suc algebra_simps)
  finally show ?case using len tl by simp
qed

lemma add_multiply_int64_loop:
  assumes "r \<noteq> []"
  shows "add_multiply_int64 r a b = prod.swap (for_down (add_mul_word a b) (length r) (r, 0))"
proof -
  obtain n where n: "length r = Suc n" using assms by (cases r) auto
  show ?thesis
    by (simp add: add_multiply_int64_def n add_mul_word_def [of a b n "(r, 0)"] Let_def
        split: prod.splits)
qed

lemma add_multiply_int64_value:
  assumes "add_multiply_int64 r a b = (high, r')" and "length a = length r" and "r \<noteq> []"
  shows "length r' = length r"
    and "unat high * wbase ^ length r + wval r' = wval r + wval a * unat b"
proof -
  have "for_down (add_mul_word a b) (length r) (r, 0) = (r', high)"
    using assms(1) add_multiply_int64_loop [OF assms(3)] by (simp add: prod.swap_def prod_eq_iff)
  moreover have "length r \<le> length a" using assms(2) by simp
  ultimately have "length r' = length r \<and> drop (length r) r' = drop (length r) r \<and>
      wval (take (length r) r') + unat high * wbase ^ length r =
      wval (take (length r) r) + wval (take (length r) a) * unat b + unat (0 :: u64)"
    by (intro add_mul_loop) simp_all
  then have len: "length r' = length r"
    and val: "wval (take (length r) r') + unat high * wbase ^ length r =
      wval (take (length r) r) + wval (take (length r) a) * unat b + unat (0 :: u64)"
    by blast+
  show "length r' = length r" by (rule len)
  have "take (length r) r' = r'" "take (length r) a = a" using len assms(2) by simp_all
  with val show "unat high * wbase ^ length r + wval r' = wval r + wval a * unat b"
    by simp
qed

section \<open>Reduction by the table of shifted moduli\<close>

definition sub_conditional_extra ::
  "u64 \<Rightarrow> u64 list \<Rightarrow> u64 \<Rightarrow> u64 list \<Rightarrow> u64 \<times> u64 list" where
  "sub_conditional_extra er res es sub =
     (if es > er \<or> (es = er \<and> wp_compare sub res > 0) then (er, res)
      else (case wp_sub res res sub of (r, borrow) \<Rightarrow> (er - es - of_bool borrow, r)))"

definition shift_extra :: "u64 \<times> u64 list \<Rightarrow> u64 \<times> u64 list" where
  "shift_extra p =
     (case p of (extra, old) \<Rightarrow>
       (push_bit 1 extra + drop_bit 63 (old ! 0), wp_shift_left old))"

fun init_shifted_loop :: "nat \<Rightarrow> (u64 \<times> u64 list) list \<Rightarrow> (u64 \<times> u64 list) list" where
  "init_shifted_loop 0 table = table"
| "init_shifted_loop (Suc i) table = init_shifted_loop i (shift_extra (hd table) # table)"

definition init_shifted :: "u64 list \<Rightarrow> (u64 \<times> u64 list) list" where
  "init_shifted m = init_shifted_loop 63 [(drop_bit 63 (m ! 0), wp_shift_left m)]"

definition mod64_extra_shifted ::
  "u64 \<Rightarrow> u64 list \<Rightarrow> (u64 \<times> u64 list) list \<Rightarrow> u64 list \<Rightarrow> u64 list" where
  "mod64_extra_shifted extra n shifted m =
     (case fold (\<lambda>(se, sub) (er, res). sub_conditional_extra er res se sub) shifted (extra, n) of
        (er, res) \<Rightarrow> snd (sub_conditional_extra er res 0 m))"

definition shift_left64_mod ::
  "u64 list \<Rightarrow> (u64 \<times> u64 list) list \<Rightarrow> u64 list \<Rightarrow> u64 list" where
  "shift_left64_mod n shifted m = mod64_extra_shifted (n ! 0) (tl n @ [0]) shifted m"

definition mul_temp_word ::
  "u64 list \<Rightarrow> u64 list \<Rightarrow> (u64 \<times> u64 list) list \<Rightarrow> u64 \<Rightarrow> u64 list \<Rightarrow> u64 list" where
  "mul_temp_word v1 m shifted w res =
     (case add_multiply_int64 res v1 w of (res_high, res) \<Rightarrow>
        mod64_extra_shifted res_high res shifted m)"

definition wp_multiply_mod_temp_internal ::
  "u64 list \<Rightarrow> u64 list \<Rightarrow> u64 list \<Rightarrow> (u64 \<times> u64 list) list \<Rightarrow> u64 list" where
  "wp_multiply_mod_temp_internal v1 v2 m shifted =
     fold (\<lambda>w res. mul_temp_word v1 m shifted w (shift_left64_mod res shifted m)) (tl v2)
       (mul_temp_word v1 m shifted (hd v2) (wp_init (length m) 0))"

definition wp_exp_mod64 :: "u64 list \<Rightarrow> u64 list \<Rightarrow> u64 list \<Rightarrow> u64 list" where
  "wp_exp_mod64 base exp m =
     (if is65537 exp then wp_exp_mod_65537 base m
      else let shifted = init_shifted m
           in bit_scan
                (square_multiply (\<lambda>a b. wp_multiply_mod_temp_internal b a m shifted) base) exp
                (wp_init (length m) 1))"

text \<open>The number a word and an array of words stand for together.\<close>

definition xval :: "u64 \<times> u64 list \<Rightarrow> nat" where
  "xval p = (case p of (e, ws) \<Rightarrow> unat e * wbase ^ length ws + wval ws)"

lemma sub_arith:
  fixes er es r s x M :: nat
  assumes "es < er \<or> es = er \<and> s \<le> r" and "t + s = r + of_bool b * M" and "t < M" "r < M" "s < M"
  shows "(er - es - of_bool b) * M + t = er * M + r - (es * M + s)" and "of_bool b \<le> er - es"
    and "es * M + s \<le> er * M + r"
proof -
  show b: "of_bool b \<le> er - es" using assms by (cases b) auto
  then obtain k where er: "er = es + of_bool b + k" using assms(1)
    by (metis add.assoc le_add_diff_inverse le_less nat_less_le)
  then have "er * M + r = es * M + k * M + (t + s)"
    using assms(2) by (simp add: algebra_simps)
  then show "(er - es - of_bool b) * M + t = er * M + r - (es * M + s)"
    and "es * M + s \<le> er * M + r"
    by (simp_all add: er)
qed

lemma sub_conditional_extra_value:
  assumes "sub_conditional_extra er res es sub = (er', res')" and "length sub = length res"
  shows "length res' = length res"
    and "xval (er', res') = (if xval (es, sub) \<le> xval (er, res)
      then xval (er, res) - xval (es, sub) else xval (er, res))"
proof -
  define M where "M = wbase ^ length res"
  have bnd: "wval res < M" "wval sub < M"
    using wval_bound [of res] wval_bound [of sub] assms(2) by (simp_all add: M_def)
  let ?small = "unat es < unat er \<or> unat es = unat er \<and> wval sub \<le> wval res"
  have le: "xval (es, sub) \<le> xval (er, res) \<longleftrightarrow> ?small"
  proof
    assume ?small
    then show "xval (es, sub) \<le> xval (er, res)"
    proof
      assume "unat es < unat er"
      then have "(unat es + 1) * M \<le> unat er * M" by (intro mult_le_mono1) simp
      with bnd show ?thesis by (simp add: xval_def M_def assms(2))
    qed (simp add: xval_def assms(2))
  next
    assume "xval (es, sub) \<le> xval (er, res)"
    then have le: "unat es * M + wval sub \<le> unat er * M + wval res"
      by (simp add: xval_def M_def assms(2))
    with bnd have "unat es * M < (unat er + 1) * M" by simp
    then have "unat es \<le> unat er" by (simp only: mult_less_cancel2) simp
    with le show ?small by auto
  qed
  have cond: "(es > er \<or> (es = er \<and> wp_compare sub res > 0)) \<longleftrightarrow> \<not> ?small"
    using assms(2) by (auto simp: wp_compare_gt word_less_nat_alt word_unat_eq_iff)
  obtain r b where r: "wp_sub res res sub = (r, b)" by force
  note sub = wp_sub_value [OF r refl assms(2)]
  have "length res' = length res \<and> xval (er', res') = (if ?small
      then xval (er, res) - xval (es, sub) else xval (er, res))"
  proof (cases ?small)
    case False
    then have "er' = er" "res' = res"
      using assms(1) cond by (simp_all add: sub_conditional_extra_def)
    then show ?thesis by (simp only: False if_False simp_thms)
  next
    case True
    then have out: "er' = er - es - of_bool b" "res' = r"
      using assms(1) cond r by (simp_all add: sub_conditional_extra_def)
    have "wval r < M" using wval_bound [of r] sub(1) by (simp add: M_def)
    note ar = sub_arith [OF True sub(2) [folded M_def] this bnd]
    have "unat (er - es) = unat er - unat es"
      using True by (auto simp: unat_64_minus)
    then have "unat er' = unat er - unat es - of_bool b"
      using ar(2) by (simp add: out(1) unat_64_minus)
    with ar(1) sub(1) True show ?thesis by (simp add: out(2) xval_def M_def assms(2))
  qed
  then show "length res' = length res" and "xval (er', res') = (if xval (es, sub) \<le> xval (er, res)
      then xval (er, res) - xval (es, sub) else xval (er, res))"
    using le by simp_all
qed

text \<open>The entry at index \<open>k\<close> of the table is the modulus shifted left by \<open>64 - k\<close> bits.\<close>

definition table_ok :: "u64 list \<Rightarrow> nat \<Rightarrow> (u64 \<times> u64 list) list \<Rightarrow> bool" where
  "table_ok m k table \<longleftrightarrow>
     length table = k \<and> (\<forall>p \<in> set table. length (snd p) = length m) \<and>
     map xval table = map (\<lambda>j. wval m * 2 ^ (k - j)) [0..<k]"

lemma shift_extra_value:
  assumes "old \<noteq> []" and "2 * xval (e, old) < wbase * wbase ^ length old"
  shows "length (snd (shift_extra (e, old))) = length old"
    and "xval (shift_extra (e, old)) = 2 * xval (e, old)"
proof -
  let ?c = "drop_bit 63 (old ! 0) :: u64"
  have c: "unat ?c = of_bool (?c \<noteq> 0)"
  proof -
    have "unat ?c < 2" using unat_lt_wbase [of "old ! 0"] by (simp add: unat_drop_bit wbase_def)
    moreover have "?c \<noteq> 0 \<longleftrightarrow> unat ?c \<noteq> 0" by (simp add: unat_eq_0)
    ultimately show ?thesis by (cases "?c = 0") auto
  qed
  have sh: "2 * wval old = wval (wp_shift_left old) + of_bool (?c \<noteq> 0) * wbase ^ length old"
    by (rule shift_left_carry [OF assms(1)])
  define P where "P = wbase ^ length old"
  have "(2 * unat e) * P + 2 * wval old < wbase * P"
    using assms(2) by (simp add: xval_def P_def)
  then have "(2 * unat e) * P + of_bool (?c \<noteq> 0) * P < wbase * P" using sh by (simp add: P_def)
  then have "(2 * unat e + of_bool (?c \<noteq> 0)) * P < wbase * P" by (simp only: distrib_right)
  then have lt: "2 * unat e + of_bool (?c \<noteq> 0) < wbase" by (simp only: mult_less_cancel2)
  have "push_bit 1 e = 2 * e" by (simp add: push_bit_eq_mult)
  moreover have "unat (2 * e) = 2 * unat e" using lt by (simp add: unat_64_times wbase_def)
  ultimately have "unat (push_bit 1 e + ?c) = 2 * unat e + of_bool (?c \<noteq> 0)"
    using lt c by (simp only: unat_64_plus mod_less)
  then show "xval (shift_extra (e, old)) = 2 * xval (e, old)"
    using sh by (simp add: shift_extra_def xval_def wp_shift_left_value(1) distrib_right)
  show "length (snd (shift_extra (e, old))) = length old"
    by (simp add: shift_extra_def wp_shift_left_value(1))
qed

lemma table_bound: "k \<le> 64 \<Longrightarrow> wval m * 2 ^ k \<le> wbase * wval m"
proof -
  assume "k \<le> 64"
  then have "(2 :: nat) ^ k \<le> 2 ^ 64" by (intro power_increasing) simp_all
  then show ?thesis by (simp add: wbase_def mult.commute)
qed

lemma table_ok_step:
  assumes ok: "table_ok m (Suc k) table" and k: "Suc (Suc k) \<le> 64" and m: "m \<noteq> []"
  shows "table_ok m (Suc (Suc k)) (shift_extra (hd table) # table)"
proof -
  from ok obtain e ws rest where t: "table = (e, ws) # rest" and l: "length ws = length m"
    by (cases table) (auto simp: table_ok_def)
  have x: "xval (e, ws) = wval m * 2 ^ Suc k"
    using ok t by (simp add: table_ok_def upt_conv_Cons del: upt_Suc)
  have "2 * xval (e, ws) = wval m * 2 ^ Suc (Suc k)" by (simp add: x)
  also have "\<dots> \<le> wbase * wval m" by (rule table_bound [OF k])
  also have "\<dots> < wbase * wbase ^ length ws" using wval_bound [of m] l by simp
  finally have "2 * xval (e, ws) < wbase * wbase ^ length ws" .
  moreover have "ws \<noteq> []" using l m by auto
  ultimately have sh: "length (snd (shift_extra (e, ws))) = length m"
      "xval (shift_extra (e, ws)) = wval m * 2 ^ Suc (Suc k)"
    using shift_extra_value [of ws e] l x by simp_all
  have "map (\<lambda>j. wval m * 2 ^ (Suc (Suc k) - j)) [0..<Suc (Suc k)] =
      wval m * 2 ^ Suc (Suc k) # map (\<lambda>j. wval m * 2 ^ (Suc k - j)) [0..<Suc k]"
    by (subst upt_conv_Cons) (simp_all add: map_Suc_upt [symmetric] del: upt_Suc)
  with ok sh t show ?thesis by (simp add: table_ok_def del: upt_Suc)
qed

lemma init_shifted_loop_ok:
  "table_ok m (Suc k) table \<Longrightarrow> Suc k + i \<le> 64 \<Longrightarrow> m \<noteq> [] \<Longrightarrow>
     table_ok m (Suc k + i) (init_shifted_loop i table)"
proof (induction i arbitrary: k table)
  case 0
  then show ?case by simp
next
  case (Suc i)
  then have "Suc (Suc k) \<le> 64" by simp
  with Suc.prems have "table_ok m (Suc (Suc k)) (shift_extra (hd table) # table)"
    by (intro table_ok_step) simp_all
  from Suc.IH [OF this] Suc.prems show ?case by simp
qed

lemma init_shifted_ok: "m \<noteq> [] \<Longrightarrow> table_ok m 64 (init_shifted m)"
proof -
  assume m: "m \<noteq> []"
  have "2 * xval (0, m) < wbase * wbase ^ length m"
  proof -
    have "2 * wval m < 2 * wbase ^ length m" using wval_bound [of m] by simp
    also have "\<dots> \<le> wbase * wbase ^ length m" by (intro mult_le_mono1) (simp add: wbase_def)
    finally show ?thesis by (simp add: xval_def)
  qed
  note first = shift_extra_value [OF m this]
  have "shift_extra (0, m) = (drop_bit 63 (m ! 0), wp_shift_left m)"
    by (simp add: shift_extra_def)
  with first have "table_ok m (Suc 0) [(drop_bit 63 (m ! 0), wp_shift_left m)]"
    by (simp add: table_ok_def xval_def)
  from init_shifted_loop_ok [OF this _ m, of 63] show ?thesis
    by (simp add: init_shifted_def)
qed

text \<open>Conditional subtractions of a doubling sequence of multiples reduce modulo \<open>m\<close>.\<close>

lemma reduce_table:
  assumes "map xval table = map (\<lambda>j. wval m * 2 ^ (k - j)) [0..<k]"
    and "\<forall>p \<in> set table. length (snd p) = length m" and "length res = length m"
    and "xval (er, res) < wval m * 2 ^ Suc k"
    and "fold (\<lambda>(se, sub) (er, res). sub_conditional_extra er res se sub) table (er, res) = (er', res')"
  shows "length res' = length m \<and> xval (er', res') < 2 * wval m \<and>
    xval (er', res') mod wval m = xval (er, res) mod wval m"
  using assms
proof (induction table arbitrary: k er res)
  case Nil
  then show ?case by simp
next
  case (Cons p table)
  obtain se sub where p: "p = (se, sub)" by force
  from Cons.prems(1) obtain k' where k: "k = Suc k'" by (cases k) simp_all
  have split: "map (\<lambda>j. wval m * 2 ^ (Suc k' - j)) [0..<Suc k'] =
      wval m * 2 ^ Suc k' # map (\<lambda>j. wval m * 2 ^ (k' - j)) [0..<k']"
    by (subst upt_conv_Cons) (simp_all add: map_Suc_upt [symmetric] del: upt_Suc)
  have xs: "xval (se, sub) = wval m * 2 ^ Suc k'"
    and rest: "map xval table = map (\<lambda>j. wval m * 2 ^ (k' - j)) [0..<k']"
    using Cons.prems(1) by (simp_all only: k split p list.map list.inject)
  obtain e1 r1 where s: "sub_conditional_extra er res se sub = (e1, r1)" by force
  have "length sub = length res" using Cons.prems(2,3) p by simp
  note step = sub_conditional_extra_value [OF s this]
  let ?X = "xval (er, res)"
  have X: "?X < 2 * (wval m * 2 ^ Suc k')" using Cons.prems(4) k by simp
  have lt: "xval (e1, r1) < wval m * 2 ^ Suc k'" using step(2) X xs by auto
  have md: "xval (e1, r1) mod wval m = ?X mod wval m"
  proof (cases "wval m * 2 ^ Suc k' \<le> ?X")
    case True
    have "?X = xval (e1, r1) + wval m * 2 ^ Suc k'" using step(2) xs True by simp
    then show ?thesis by (simp only: mod_mult_self2)
  qed (simp only: step(2) xs if_False)
  have "length r1 = length m" using step(1) Cons.prems(3) by simp
  from Cons.IH [OF rest _ this lt] Cons.prems(2,5) s p md show ?case by simp
qed

lemma mod64_extra_shifted_value:
  assumes tab: "table_ok m 64 table" and len: "length n = length m"
    and lt: "xval (extra, n) < wval m * 2 ^ 65"
  shows "length (mod64_extra_shifted extra n table m) = length m"
    and "wval (mod64_extra_shifted extra n table m) = xval (extra, n) mod wval m"
proof -
  obtain er res where f: "fold (\<lambda>(se, sub) (er, res). sub_conditional_extra er res se sub) table (extra, n) = (er, res)"
    by force
  have t: "map xval table = map (\<lambda>j. wval m * 2 ^ (64 - j)) [0..<64]"
    "\<forall>p \<in> set table. length (snd p) = length m" using tab by (simp_all add: table_ok_def)
  have "xval (extra, n) < wval m * 2 ^ Suc 64" using lt by simp
  from reduce_table [OF t len this f] have red: "length res = length m"
    "xval (er, res) < 2 * wval m" "xval (er, res) mod wval m = xval (extra, n) mod wval m"
    by blast+
  obtain e2 r2 where s: "sub_conditional_extra er res 0 m = (e2, r2)" by force
  note last = sub_conditional_extra_value [OF s red(1) [symmetric]]
  have "xval (0, m) = wval m" by (simp add: xval_def)
  then have x2: "xval (e2, r2) = xval (er, res) mod wval m"
    using last(2) red(2) by (auto simp: mod_if)
  have "wval r2 = xval (e2, r2)"
  proof -
    have "xval (e2, r2) < wval m" using x2 red(2) by (cases "wval m = 0") simp_all
    also have "\<dots> < wbase ^ length m" by (rule wval_bound)
    finally have "unat e2 * wbase ^ length m + wval r2 < 1 * wbase ^ length m"
      using last(1) red(1) by (simp add: xval_def)
    then have "unat e2 * wbase ^ length m < 1 * wbase ^ length m"
      by (rule le_less_trans [OF le_add1])
    then have "unat e2 < 1" by (simp only: mult_less_cancel2)
    then have "unat e2 = 0" by (rule less_one [THEN iffD1])
    then show ?thesis by (simp add: xval_def)
  qed
  with x2 red(3) last(1) red(1) f s
  show "length (mod64_extra_shifted extra n table m) = length m"
    and "wval (mod64_extra_shifted extra n table m) = xval (extra, n) mod wval m"
    by (simp_all add: mod64_extra_shifted_def)
qed

lemma mul_temp_word_value:
  assumes tab: "table_ok m 64 table" and v1: "reduced m v1" and res: "reduced m res"
  shows "reduced m (mul_temp_word v1 m table w res)"
    and "wval (mul_temp_word v1 m table w res) = (wval res + wval v1 * unat w) mod wval m"
proof -
  obtain h r where hr: "add_multiply_int64 res v1 w = (h, r)" by force
  have len: "length v1 = length m" "length res = length m" "wval v1 < wval m" "wval res < wval m"
    using v1 res by (simp_all add: reduced_def)
  have "m \<noteq> []" using len(3) by auto
  with len have "length v1 = length res" "res \<noteq> []" by auto
  note amul = add_multiply_int64_value [OF hr this]
  have x: "xval (h, r) = wval res + wval v1 * unat w" using amul by (simp add: xval_def)
  have "wval res + wval v1 * unat w < wval m + wval v1 * unat w" using len by simp
  also have "\<dots> \<le> wval m + wval m * 2 ^ 64"
    using len(3) unat_lt_wbase [of w] by (intro add_left_mono mult_le_mono) (simp_all add: wbase_def)
  also have "\<dots> \<le> wval m * 2 ^ 65" by simp
  finally have lt: "xval (h, r) < wval m * 2 ^ 65" by (simp only: x)
  have "length r = length m" using amul(1) len by simp
  note red = mod64_extra_shifted_value [OF tab this lt]
  have eq: "mul_temp_word v1 m table w res = mod64_extra_shifted h r table m"
    by (simp add: mul_temp_word_def hr)
  have "0 < wval m" using len(3) by simp
  with red show "reduced m (mul_temp_word v1 m table w res)"
    by (simp add: reduced_def eq)
  show "wval (mul_temp_word v1 m table w res) = (wval res + wval v1 * unat w) mod wval m"
    using red(2) by (simp add: eq x)
qed

lemma shift_left64_mod_value:
  assumes tab: "table_ok m 64 table" and n: "reduced m n"
  shows "reduced m (shift_left64_mod n table m)"
    and "wval (shift_left64_mod n table m) = wval n * wbase mod wval m"
proof -
  have len: "length n = length m" "wval n < wval m" using n by (simp_all add: reduced_def)
  have "n \<noteq> []" using len by auto
  then obtain w ws where w: "n = w # ws" by (cases n) auto
  have x: "xval (n ! 0, tl n @ [0]) = wval n * wbase"
    by (simp add: w xval_def wval_Cons algebra_simps)
  also have "\<dots> < wval m * 2 ^ 65" using len by (simp add: wbase_def)
  finally have lt: "xval (n ! 0, tl n @ [0]) < wval m * 2 ^ 65" .
  have "length (tl n @ [0]) = length m" using len w by simp
  note red = mod64_extra_shifted_value [OF tab this lt]
  have "0 < wval m" using len(2) by simp
  with red show "reduced m (shift_left64_mod n table m)"
    by (simp add: reduced_def shift_left64_mod_def)
  show "wval (shift_left64_mod n table m) = wval n * wbase mod wval m"
    using red(2) by (simp only: shift_left64_mod_def x)
qed

lemma mul_temp_fold:
  assumes tab: "table_ok m 64 table" and v1: "reduced m v1"
  shows "reduced m res \<and> wval res = wval v1 * e mod wval m \<Longrightarrow>
    reduced m (fold (\<lambda>w res. mul_temp_word v1 m table w (shift_left64_mod res table m)) ws res) \<and>
    wval (fold (\<lambda>w res. mul_temp_word v1 m table w (shift_left64_mod res table m)) ws res) =
      wval v1 * (e * wbase ^ length ws + wval ws) mod wval m"
proof (induction ws arbitrary: e res)
  case Nil
  then show ?case by simp
next
  case (Cons w ws)
  let ?s = "shift_left64_mod res table m"
  let ?r = "mul_temp_word v1 m table w ?s"
  note sh = shift_left64_mod_value [OF tab conjunct1 [OF Cons.prems]]
  note mu = mul_temp_word_value [OF tab v1 sh(1), of w]
  have "wval ?r = (wval v1 * e mod wval m * wbase mod wval m + wval v1 * unat w) mod wval m"
    using mu(2) sh(2) Cons.prems by simp
  also have "\<dots> = (wval v1 * e * wbase + wval v1 * unat w) mod wval m"
    by (metis mod_add_left_eq mod_mult_left_eq)
  finally have "reduced m ?r \<and> wval ?r = wval v1 * (e * wbase + unat w) mod wval m"
    using mu(1) by (simp add: algebra_simps)
  from Cons.IH [OF this] show ?case by (simp add: wval_Cons algebra_simps)
qed

lemma wp_multiply_mod_temp_internal_value:
  assumes tab: "table_ok m 64 table" and v1: "reduced m v1" and v2: "v2 \<noteq> []"
  shows "reduced m (wp_multiply_mod_temp_internal v1 v2 m table)"
    and "wval (wp_multiply_mod_temp_internal v1 v2 m table) = wval v1 * wval v2 mod wval m"
proof -
  have "reduced m (wp_init (length m) 0)" using v1 by (simp add: reduced_def)
  note first = mul_temp_word_value [OF tab v1 this, of "hd v2"]
  then have "reduced m (mul_temp_word v1 m table (hd v2) (wp_init (length m) 0)) \<and>
      wval (mul_temp_word v1 m table (hd v2) (wp_init (length m) 0)) = wval v1 * unat (hd v2) mod wval m"
    by simp
  note all = mul_temp_fold [OF tab v1 this, of "tl v2"]
  have "wval v2 = unat (hd v2) * wbase ^ length (tl v2) + wval (tl v2)"
    using v2 by (metis list.collapse wval_Cons)
  with all show "reduced m (wp_multiply_mod_temp_internal v1 v2 m table)"
    and "wval (wp_multiply_mod_temp_internal v1 v2 m table) = wval v1 * wval v2 mod wval m"
    by (simp_all add: wp_multiply_mod_temp_internal_def)
qed

interpretation temp_internal: modular_product
    "\<lambda>a b. wp_multiply_mod_temp_internal b a m (init_shifted m)" m "m \<noteq> []" for m
proof
  fix a b
  assume m: "m \<noteq> []" and a: "reduced m a" and b: "reduced m b"
  have "a \<noteq> []" using a m by (auto simp: reduced_def)
  from wp_multiply_mod_temp_internal_value [OF init_shifted_ok [OF m] b this]
  show "reduced m (wp_multiply_mod_temp_internal b a m (init_shifted m)) \<and>
      wval (wp_multiply_mod_temp_internal b a m (init_shifted m)) = wval a * wval b mod wval m"
    by (simp add: mult.commute)
qed

lemma wp_exp_mod64_value:
  assumes base: "reduced m base" and m: "1 < wval m"
  shows "reduced m (wp_exp_mod64 base exp m)"
    and "wval (wp_exp_mod64 base exp m) = wval base ^ wval exp mod wval m"
proof -
  have ne: "m \<noteq> []" using m by auto
  then have "wval (wp_init (length m) 1) = 1" by (simp add: wval_wp_init)
  then have "expmod_inv (m \<noteq> []) m base 0 (wp_init (length m) 1)"
    using m by (simp add: expmod_inv_def reduced_def)
  from temp_internal.power_scan.scan_all [OF this, of exp] base ne
  have "reduced m (bit_scan (square_multiply
          (\<lambda>a b. wp_multiply_mod_temp_internal b a m (init_shifted m)) base) exp
          (wp_init (length m) 1)) \<and>
        wval (bit_scan (square_multiply
          (\<lambda>a b. wp_multiply_mod_temp_internal b a m (init_shifted m)) base) exp
          (wp_init (length m) 1)) = wval base ^ wval exp mod wval m"
    by (simp add: expmod_inv_def)
  with wp_exp_mod_65537_value [OF base]
  show "reduced m (wp_exp_mod64 base exp m)"
    and "wval (wp_exp_mod64 base exp m) = wval base ^ wval exp mod wval m"
    by (auto simp: wp_exp_mod64_def is65537_iff Let_def)
qed

section \<open>Properties\<close>

text \<open>
  \<open>multiply128\<close> returns the high and the low word of the product of two words; the two
  carries it computes from 32-bit halves are never lost.
\<close>

theorem multiply128_correct:
  "case multiply128 v1 v2 of (high, low) \<Rightarrow> unat high * wbase + unat low = unat v1 * unat v2"
proof (cases "multiply128 v1 v2")
  case (Pair high low)
  with multiply128_value [OF Pair] show ?thesis by simp
qed

text \<open>
  C37: the optimised \<open>wp_exp_mod64\<close>, which multiplies a word at a time and reduces by a table
  of shifted moduli, returns exactly the array \<open>wp_exp_mod\<close> returns.
\<close>

theorem wp_exp_mod64_equivalent:
  assumes "length base = length m" and "wval base < wval m" and "1 < wval m"
  shows "wp_exp_mod64 base exp m = wp_exp_mod base exp m"
proof -
  have base: "reduced m base" using assms by (simp add: reduced_def)
  from wp_exp_mod64_value [OF base assms(3), of exp] wp_exp_mod_value [OF base assms(3), of exp]
  show ?thesis by (intro wval_inj) (simp_all add: reduced_def)
qed

theorem wp_exp_mod64_equivalent_witness:
  "wp_exp_mod64 [3] [5] [7] = wp_exp_mod [3] [5] [7]"
  using wp_exp_mod64_equivalent [of "[3]" "[7]" "[5]"] by (simp add: wval_def)

end
