(* ===== verification/WpMont.thy ===== *)
theory WpMont
  imports WpFast "HOL-Library.Monad_Syntax"
begin

text \<open>
  Montgomery exponentiation, \<open>wp_exp_mod_montgomery\<close> of \<open>lib/wp_arith.c\<close>. A failed
  assertion, or a call of \<open>exit\<close>, is the value \<open>None\<close>; so is a \<open>while\<close> loop that does
  not end. Arrays of \<open>nbits + 64\<close> bits have one more word than the modulus; the code's
  \<open>array + 1\<close> is the tail of the list.
\<close>

section \<open>Definitions\<close>

fun init_shifted_montgomery_loop :: "nat \<Rightarrow> u64 list \<Rightarrow> u64 list list" where
  "init_shifted_montgomery_loop 0 prev = [prev]"
| "init_shifted_montgomery_loop (Suc k) prev =
     prev # init_shifted_montgomery_loop k (wp_shift_left prev)"

definition init_shifted_montgomery :: "u64 list \<Rightarrow> u64 list list" where
  "init_shifted_montgomery m = init_shifted_montgomery_loop 63 (0 # m)"

partial_function (option) shift_up :: "u64 list \<Rightarrow> u64 list \<Rightarrow> u64 list option" where
  "shift_up temp1 temp2 =
     (if drop_bit 63 (temp2 ! 0) \<noteq> 1 \<and> wp_compare temp1 temp2 > 0
      then shift_up temp1 (wp_shift_left temp2) else Some temp2)"

partial_function (option) sub_shifted :: "u64 list \<Rightarrow> u64 list \<Rightarrow> u64 list \<Rightarrow> u64 list option" where
  "sub_shifted temp1 temp2 m =
     (if wp_compare temp1 m \<ge> 0
      then sub_shifted
             (if wp_compare temp1 temp2 \<ge> 0 then fst (wp_sub temp1 temp1 temp2) else temp1)
             (wp_shift_right temp2) m
      else Some temp1)"

definition compute_r_squared :: "u64 list \<Rightarrow> u64 list option" where
  "compute_r_squared m =
     (let zero = wp_init (length m) 0;
          temp1 = fst (wp_sub zero zero m)
      in do {
        temp2 \<leftarrow> shift_up temp1 m;
        temp1 \<leftarrow> sub_shifted temp1 temp2 m;
        Some (wp_multiply_mod temp1 temp1 m)
      })"

definition mul_add_step :: "u64 list \<Rightarrow> u64 \<Rightarrow> nat \<Rightarrow> u64 list \<times> bool \<Rightarrow> u64 list \<times> bool" where
  "mul_add_step a b i st =
     (case st of (res, carry) \<Rightarrow>
       (case multiply128 (a ! i) b of (high, low) \<Rightarrow>
         (case add128 (res ! i) (res ! Suc i) low (of_bool carry + high) of
           ((r0, r1), carry') \<Rightarrow> (res[i := r0, Suc i := r1], carry'))))"

definition multiply64_add :: "u64 list \<Rightarrow> u64 list \<Rightarrow> u64 \<Rightarrow> u64 list option" where
  "multiply64_add res a b =
     (if length a + 1 \<noteq> length res then None
      else (case for_down (mul_add_step a b) (length a) (res, False) of
        (res, carry) \<Rightarrow> if carry then None else Some res))"

definition clear_bit :: "u64 list list \<Rightarrow> nat \<Rightarrow> (u64 list \<times> u64) option \<Rightarrow> (u64 list \<times> u64) option" where
  "clear_bit shifted i st = do {
     (res, carry) \<leftarrow> st;
     let last = length res - 1;
     if push_bit i 1 AND res ! last \<noteq> 0 then
       (case wp_add res res (shifted ! i) of (r, c) \<Rightarrow>
         if push_bit i 1 AND r ! last \<noteq> 0 then None else Some (r, carry + of_bool c))
     else Some (res, carry)
   }"

partial_function (option) reduce_carry :: "u64 list \<Rightarrow> u64 list \<Rightarrow> u64 \<Rightarrow> u64 list option" where
  "reduce_carry m hi carry =
     (if carry > 0 \<or> wp_compare hi m \<ge> 0
      then (case wp_sub hi hi m of (r, borrow) \<Rightarrow> reduce_carry m r (carry - of_bool borrow))
      else Some hi)"

definition add_multiple_to_make_low_word_zero :: "u64 list \<Rightarrow> u64 list list \<Rightarrow> u64 list option" where
  "add_multiple_to_make_low_word_zero res shifted = do {
     (r, carry) \<leftarrow> for_up (clear_bit shifted) 64 (Some (res, 0));
     hi \<leftarrow> reduce_carry (tl (shifted ! 0)) (butlast r) carry;
     Some (hi @ [last r])
   }"

definition shift_right_64 :: "u64 list \<Rightarrow> u64 list" where
  "shift_right_64 value = 0 # butlast value"

definition montgomery_word ::
  "u64 list \<Rightarrow> u64 list list \<Rightarrow> u64 \<Rightarrow> u64 list option \<Rightarrow> u64 list option" where
  "montgomery_word a shifted w st = do {
     res \<leftarrow> st;
     res \<leftarrow> multiply64_add res a w;
     res \<leftarrow> add_multiple_to_make_low_word_zero res shifted;
     if last res = 0 then Some (shift_right_64 res) else None
   }"

definition montgomery_step :: "u64 list \<Rightarrow> u64 list \<Rightarrow> u64 list list \<Rightarrow> u64 list option" where
  "montgomery_step a b shifted =
     foldr (montgomery_word a shifted) b (Some (wp_init (length a + 1) 0))"

definition mont_bit ::
  "u64 list \<Rightarrow> u64 list list \<Rightarrow> bool \<Rightarrow> u64 list option \<Rightarrow> u64 list option" where
  "mont_bit mbase shifted b st = do {
     mres \<leftarrow> st;
     if \<not> wp_is_zero mres then do {
       mtemp \<leftarrow> montgomery_step (tl mres) (tl mres) shifted;
       if b then montgomery_step (tl mtemp) (tl mbase) shifted else Some mtemp
     }
     else Some (if b then mbase else mres)
   }"

definition mont_word ::
  "u64 list \<Rightarrow> u64 list list \<Rightarrow> u64 \<Rightarrow> u64 list option \<Rightarrow> u64 list option" where
  "mont_word mbase shifted word st = do {
     mres \<leftarrow> st;
     if word = 0 \<and> wp_is_zero mres then Some mres
     else bit_loop (mont_bit mbase shifted) (push_bit 63 1) word (Some mres)
   }"

text \<open>
  For an even modulus the code prints a warning, calls \<open>wp_exp_mod\<close> and goes on; the value
  \<open>wp_exp_mod\<close> stores in \<open>res\<close> is overwritten at the end, so the definition has no case
  for it.
\<close>

definition wp_exp_mod_montgomery :: "u64 list \<Rightarrow> u64 list \<Rightarrow> u64 list \<Rightarrow> u64 list option" where
  "wp_exp_mod_montgomery base exp m = do {
     r_squared \<leftarrow> compute_r_squared m;
     let shifted = init_shifted_montgomery m;
     mbase \<leftarrow> montgomery_step base r_squared shifted;
     mres \<leftarrow> fold (mont_word mbase shifted) exp (Some (wp_init (length m + 1) 0));
     mtemp \<leftarrow> montgomery_step (tl mres) (wp_init (length m) 1) shifted;
     Some (tl mtemp)
   }"

section \<open>The table of shifted moduli\<close>

lemma init_shifted_montgomery_loop_value:
  assumes "x * 2 ^ k < wbase ^ length prev" and "wval prev = x"
  shows "length (init_shifted_montgomery_loop k prev) = Suc k \<and>
    (\<forall>i \<le> k. length (init_shifted_montgomery_loop k prev ! i) = length prev \<and>
      wval (init_shifted_montgomery_loop k prev ! i) = x * 2 ^ i)"
  using assms
proof (induction k arbitrary: x prev)
  case 0
  then show ?case by simp
next
  case (Suc k)
  have "x * 2 * 1 \<le> x * 2 * 2 ^ k" by (intro mult_le_mono2) simp
  moreover have "x * 2 * 2 ^ k = x * 2 ^ Suc k" by simp
  ultimately have "2 * x < wbase ^ length prev" using Suc.prems(1) by linarith
  then have "wval (wp_shift_left prev) = x * 2"
    using Suc.prems(2) by (simp add: wp_shift_left_value(2) mult.commute)
  moreover have "x * 2 * 2 ^ k < wbase ^ length (wp_shift_left prev)"
    using Suc.prems(1) by (simp add: wp_shift_left_value(1))
  ultimately have IH: "length (init_shifted_montgomery_loop k (wp_shift_left prev)) = Suc k"
    "i \<le> k \<Longrightarrow> length (init_shifted_montgomery_loop k (wp_shift_left prev) ! i) = length prev \<and>
      wval (init_shifted_montgomery_loop k (wp_shift_left prev) ! i) = x * 2 * 2 ^ i" for i
    using Suc.IH [of "x * 2" "wp_shift_left prev"] by (simp_all add: wp_shift_left_value(1))
  show ?case
  proof (intro conjI allI impI)
    fix i assume i: "i \<le> Suc k"
    show "length (init_shifted_montgomery_loop (Suc k) prev ! i) = length prev"
      using i IH(2) by (cases i) simp_all
    show "wval (init_shifted_montgomery_loop (Suc k) prev ! i) = x * 2 ^ i"
      using i IH(2) Suc.prems(2) by (cases i) simp_all
  qed (simp add: IH(1))
qed

lemma init_shifted_montgomery_value:
  assumes "i < 64"
  shows "length (init_shifted_montgomery m ! i) = Suc (length m)"
    and "wval (init_shifted_montgomery m ! i) = wval m * 2 ^ i"
proof -
  have "wval m * 2 ^ 63 < wbase ^ length m * 2 ^ 64"
    using wval_bound [of m] by (intro mult_strict_mono) simp_all
  then have "wval m * 2 ^ 63 < wbase ^ length (0 # m)" by (simp add: wbase_def)
  moreover have "wval (0 # m) = wval m" by (simp add: wval_Cons)
  ultimately show "length (init_shifted_montgomery m ! i) = Suc (length m)"
    and "wval (init_shifted_montgomery m ! i) = wval m * 2 ^ i"
    using init_shifted_montgomery_loop_value [of "wval m" 63 "0 # m"] assms
    by (simp_all add: init_shifted_montgomery_def)
qed

lemma init_shifted_montgomery_0: "init_shifted_montgomery m ! 0 = 0 # m"
  by (simp add: init_shifted_montgomery_def numeral_eq_Suc)

section \<open>Reduction by repeated subtraction\<close>

lemma reduce_carry_value:
  assumes "wval hi + unat carry * wbase ^ length m = U" and "length hi = length m" and "0 < wval m"
  shows "\<exists>r. reduce_carry m hi carry = Some r \<and> length r = length m \<and> wval r = U mod wval m"
  using assms(1,2)
proof (induction U arbitrary: hi carry rule: less_induct)
  case (less U)
  obtain r b where s: "wp_sub hi hi m = (r, b)" by force
  note sub = wp_sub_value [OF s refl less.prems(2) [symmetric]]
  have unf: "reduce_carry m hi carry = (if carry > 0 \<or> wval m \<le> wval hi
      then reduce_carry m r (carry - of_bool b) else Some hi)"
    by (subst reduce_carry.simps) (simp only: s prod.case wp_compare_ge [OF less.prems(2)])
  show ?case
  proof (cases "carry > 0 \<or> wval m \<le> wval hi")
    case False
    then have "carry = 0" by (simp add: word_greater_zero_iff)
    with False unf less.prems show ?thesis by simp
  next
    case True
    have "\<not> (b \<and> carry = 0)"
    proof
      assume bc: "b \<and> carry = 0"
      with True have "wval m \<le> wval hi" by simp
      moreover have "wval r < wbase ^ length hi" using wval_bound [of r] sub(1) by simp
      ultimately show False using sub(2) bc by simp
    qed
    then have c: "unat carry = unat (carry - of_bool b) + of_bool b"
      by (cases b) (auto simp: unat_minus_one Suc_leI word_greater_zero_iff unat_gt_0)
    have U: "wval r + unat (carry - of_bool b) * wbase ^ length m + wval m = U"
      using sub(2) less.prems unfolding c by (simp add: algebra_simps)
    then have lt: "U - wval m < U" using assms(3) by linarith
    have eq: "wval r + unat (carry - of_bool b) * wbase ^ length m = U - wval m"
      using U by linarith
    have "length r = length m" using sub(1) less.prems(2) by simp
    from less.IH [OF lt eq this] obtain x where
      "reduce_carry m r (carry - of_bool b) = Some x" "length x = length m"
      "wval x = (U - wval m) mod wval m" by blast
    moreover have "(U - wval m) mod wval m = U mod wval m"
      using U by (metis add_diff_cancel_right' mod_add_self2)
    ultimately show ?thesis using True unf by simp
  qed
qed

section \<open>Adding a product\<close>

lemma add128_value:
  assumes "add128 res0 res1 v c = ((r0, r1), d)"
    and "unat c < wbase - 1 \<or> unat res1 + unat v < wbase"
  shows "unat r0 * wbase + unat r1 + of_bool d * (wbase * wbase) =
    unat res0 * wbase + unat res1 + unat v + unat c * wbase"
proof -
  let ?c = "if res1 + v < v then c + 1 else c"
  have out: "r0 = res0 + ?c" "r1 = res1 + v" "d \<longleftrightarrow> res0 + ?c < ?c"
    using assms(1) by (auto simp only: add128_def Let_def prod.inject)
  have low: "unat r1 + wbase * of_bool (res1 + v < v) = unat res1 + unat v"
    unfolding out by (rule unat_plus_mod_split)
  have "unat ?c = unat c + of_bool (res1 + v < v)"
  proof (cases "res1 + v < v")
    case True
    then have "unat c < wbase - 1" using assms(2) low by auto
    then have "unat c + 1 < wbase" by simp
    then have "unat (c + 1) = unat c + 1" by (simp add: unat_64_plus)
    then show ?thesis using True by simp
  qed simp
  moreover have "unat r0 + wbase * of_bool d = unat res0 + unat ?c"
    unfolding out by (rule unat_plus_mod_split)
  ultimately have "(unat r0 + wbase * of_bool d) * wbase + (unat r1 + wbase * of_bool (res1 + v < v)) =
      (unat res0 + (unat c + of_bool (res1 + v < v))) * wbase + (unat res1 + unat v)"
    using low by simp
  then show ?thesis by (simp add: algebra_simps)
qed

lemma product_high:
  fixes x y h l B :: nat
  assumes "h * B + l = x * y" and "x < B" and "y < B" and "1 < B"
  shows "h \<le> B - 2" and "h = B - 2 \<Longrightarrow> l \<le> 1"
proof -
  define k where "k = B - 2"
  have B: "B = Suc (Suc k)" using assms(4) by (simp add: k_def)
  have "x \<le> Suc k" and "y \<le> Suc k" using assms(2,3) B by linarith+
  then have "x * y \<le> Suc k * Suc k" by (rule mult_le_mono)
  moreover have "Suc k * Suc k = k * B + 1" unfolding B by simp
  ultimately have le: "h * B + l \<le> k * B + 1" using assms(1) B by linarith
  show "h \<le> B - 2"
  proof (rule ccontr)
    assume "\<not> h \<le> B - 2"
    then have "Suc k * B \<le> h * B" using B by (intro mult_le_mono1) simp
    with le assms(4) show False unfolding mult_Suc by linarith
  qed
  show "l \<le> 1" if "h = B - 2"
  proof -
    have "h = k" using that B by simp
    with le show ?thesis by simp
  qed
qed

lemma carry_room:
  fixes r0 r1 s0 s1 p cin B :: nat
  assumes eq: "r0 * B + r1 + B * B = s0 * B + s1 + p + cin * B"
    and s: "s0 < B" "s1 < B" and p: "p \<le> (B - 1) * (B - 1)" and cin: "cin \<le> 1"
    and room: "cin = 1 \<longrightarrow> s1 < B - 1" and B: "1 < B"
  shows "r0 < B - 1"
proof (rule ccontr)
  define M where "M = B - 1"
  have M: "B = M + 1" using B by (simp add: M_def)
  assume "\<not> r0 < B - 1"
  then have "M * B \<le> r0 * B" by (intro mult_le_mono1) (simp add: M_def)
  moreover have "s0 * B \<le> M * B" using s(1) M by (intro mult_le_mono1) simp
  ultimately have "r1 + B * B \<le> s1 + M * M + cin * B" using eq p unfolding M_def by linarith
  moreover have "B * B = M * M + 2 * M + 1" by (simp add: M algebra_simps)
  moreover have "s1 + cin * B < 2 * M + 1"
  proof (cases "cin = 1")
    case True
    with room show ?thesis by (simp add: M_def)
  next
    case False
    with cin have "cin = 0" by simp
    with s(2) M B show ?thesis by simp
  qed
  ultimately show False by linarith
qed

lemma mul_add_step_law:
  assumes "mul_add_step a b i (res, c) = (res', c')"
    and "c \<longrightarrow> unat (res ! Suc i) < wbase - 1"
  obtains r0 r1 where "res' = res[i := r0, Suc i := r1]"
    and "unat r0 * wbase + unat r1 + of_bool c' * (wbase * wbase) =
      unat (res ! i) * wbase + unat (res ! Suc i) + unat (a ! i) * unat b + of_bool c * wbase"
    and "c' \<longrightarrow> unat r0 < wbase - 1"
proof -
  obtain h l where hl: "multiply128 (a ! i) b = (h, l)" by force
  obtain r0 r1 d where add: "add128 (res ! i) (res ! Suc i) l (of_bool c + h) = ((r0, r1), d)"
    by (metis surj_pair)
  have out: "res' = res[i := r0, Suc i := r1]" "d = c'"
    using assms(1) hl add by (simp_all add: mul_add_step_def)
  note prod = multiply128_value [OF hl]
  note ph = product_high [OF prod unat_lt_wbase unat_lt_wbase, simplified]
  have B: "2 \<le> wbase" using wbase_gt_1 by linarith
  have c: "unat (of_bool c + h) = of_bool c + unat h"
    using ph(1) B by (simp add: unat_64_plus)
  have "unat (of_bool c + h) < wbase - 1 \<or> unat (res ! Suc i) + unat l < wbase"
  proof (cases "unat h = wbase - 2")
    case True
    with ph(2) have "unat l \<le> 1" by simp
    with assms(2) c B True unat_lt_wbase [of "res ! Suc i"] show ?thesis
      by (cases c) (simp, linarith)+
  next
    case False
    with ph(1) c B have "unat (of_bool c + h) < wbase - 1" by (cases c) simp_all
    then show ?thesis by simp
  qed
  note add128_value [OF add this]
  then have eq: "unat r0 * wbase + unat r1 + of_bool c' * (wbase * wbase) =
      unat (res ! i) * wbase + unat (res ! Suc i) + unat (a ! i) * unat b + of_bool c * wbase"
    using out(2) unfolding c prod [symmetric] by (simp add: algebra_simps)
  have "unat (a ! i) * unat b \<le> (wbase - 1) * (wbase - 1)"
    using unat_lt_wbase [of "a ! i"] unat_lt_wbase [of b] by (intro mult_le_mono) simp_all
  then have "c' \<longrightarrow> unat r0 < wbase - 1"
    using carry_room [of "unat r0" wbase "unat r1" "unat (res ! i)" "unat (res ! Suc i)"
        "unat (a ! i) * unat b" "of_bool c"] eq assms(2) unat_lt_wbase [of "res ! i"]
        unat_lt_wbase [of "res ! Suc i"] by (cases c; cases c') simp_all
  with out(1) eq that show thesis by blast
qed

lemma wval_two_words:
  assumes "Suc i < length res"
  shows "wval (res[i := r0, Suc i := r1]) +
      (unat (res ! i) * wbase + unat (res ! Suc i)) * wbase ^ (length res - Suc (Suc i)) =
    wval res + (unat r0 * wbase + unat r1) * wbase ^ (length res - Suc (Suc i))"
proof -
  have split: "res = take i res @ [res ! i, res ! Suc i] @ drop (Suc (Suc i)) res"
    using assms by (metis Cons_nth_drop_Suc Suc_lessD append_Cons append_Nil append_take_drop_id)
  have upd: "res[i := r0, Suc i := r1] = take i res @ [r0, r1] @ drop (Suc (Suc i)) res"
    using assms by (subst split) (simp add: list_update_append min_def)
  have val: "wval (take i res @ [x, y] @ drop (Suc (Suc i)) res) =
      wval (take i res) * wbase ^ (length res - i) +
      (unat x * wbase + unat y) * wbase ^ (length res - Suc (Suc i)) +
      wval (drop (Suc (Suc i)) res)" for x y
  proof -
    have "length res - i = Suc (Suc (length res - Suc (Suc i)))" using assms by simp
    then show ?thesis by (simp add: wval_append wval_Cons algebra_simps)
  qed
  show ?thesis
    using trans [OF arg_cong [OF split, of wval] val] trans [OF arg_cong [OF upd, of wval] val]
    by linarith
qed

lemma mul_add_step_value:
  assumes "mul_add_step a b i (res, c) = (res', c')" and len: "length res = length a + 1"
    and i: "i < length a" and "c \<longrightarrow> unat (res ! Suc i) < wbase - 1"
  shows "length res' = length a + 1" and "c' \<longrightarrow> unat (res' ! i) < wbase - 1"
    and "wval res' + of_bool c' * (wbase * wbase * wbase ^ (length a - Suc i)) =
      wval res + unat (a ! i) * unat b * wbase ^ (length a - Suc i) +
      of_bool c * (wbase * wbase ^ (length a - Suc i))"
proof -
  obtain r0 r1 where res': "res' = res[i := r0, Suc i := r1]"
    and eq: "unat r0 * wbase + unat r1 + of_bool c' * (wbase * wbase) =
      unat (res ! i) * wbase + unat (res ! Suc i) + unat (a ! i) * unat b + of_bool c * wbase"
    and c': "c' \<longrightarrow> unat r0 < wbase - 1"
    by (rule mul_add_step_law [OF assms(1,4)])
  show "length res' = length a + 1" "c' \<longrightarrow> unat (res' ! i) < wbase - 1"
    using c' res' len i by simp_all
  define p where "p = wbase ^ (length a - Suc i)"
  have "Suc i < length res" using len i by simp
  from wval_two_words [OF this, of r0 r1] len
  have "wval res' + (unat (res ! i) * wbase + unat (res ! Suc i)) * p =
      wval res + (unat r0 * wbase + unat r1) * p" by (simp add: res' p_def)
  moreover have "(unat r0 * wbase + unat r1 + of_bool c' * (wbase * wbase)) * p =
      (unat (res ! i) * wbase + unat (res ! Suc i) + unat (a ! i) * unat b + of_bool c * wbase) * p"
    by (simp only: eq)
  ultimately show "wval res' + of_bool c' * (wbase * wbase * wbase ^ (length a - Suc i)) =
      wval res + unat (a ! i) * unat b * wbase ^ (length a - Suc i) +
      of_bool c * (wbase * wbase ^ (length a - Suc i))"
    unfolding p_def [symmetric] by (simp add: algebra_simps)
qed

lemma multiply64_add_loop:
  assumes "for_down (mul_add_step a b) i (res, c) = (res', c')" and "length res = length a + 1"
    and "i \<le> length a" and "c \<longrightarrow> unat (res ! i) < wbase - 1"
  shows "length res' = length a + 1 \<and>
    wval res' + of_bool c' * wbase ^ (length a + 1) =
      wval res + wval (take i a) * unat b * wbase ^ (length a - i) +
      of_bool c * wbase ^ (length a - i + 1)"
  using assms
proof (induction i arbitrary: res c)
  case 0
  then show ?case by simp
next
  case (Suc i)
  obtain r d where s: "mul_add_step a b i (res, c) = (r, d)" by force
  from Suc.prems have i: "i < length a" by simp
  note step = mul_add_step_value [OF s Suc.prems(2) i Suc.prems(4)]
  define p where "p = wbase ^ (length a - Suc i)"
  have pow: "wbase ^ (length a - i) = wbase * p"
    using i by (simp add: p_def Suc_diff_Suc flip: power_Suc)
  have "for_down (mul_add_step a b) i (r, d) = (res', c')" using Suc.prems(1) s by simp
  from Suc.IH [OF this step(1) less_imp_le [OF i] step(2)]
  have IH: "length res' = length a + 1" "wval res' + of_bool c' * wbase ^ (length a + 1) =
      wval r + wval (take i a) * unat b * (wbase * p) + of_bool d * (wbase * wbase * p)"
    by (simp_all add: pow mult.assoc)
  have "wval r + of_bool d * (wbase * wbase * p) =
      wval res + unat (a ! i) * unat b * p + of_bool c * (wbase * p)"
    using step(3) by (simp add: p_def)
  moreover have "wval (take (Suc i) a) * unat b * p =
      wval (take i a) * unat b * (wbase * p) + unat (a ! i) * unat b * p"
    by (simp add: wval_take_Suc [OF i] algebra_simps)
  moreover have "wbase ^ (length a - Suc i + 1) = wbase * p" by (simp add: p_def)
  ultimately show ?case using IH unfolding p_def [symmetric] by simp
qed

lemma multiply64_add_value:
  assumes len: "length res = length a + 1"
    and fits: "wval res + wval a * unat b < wbase ^ (length a + 1)"
  shows "\<exists>r. multiply64_add res a b = Some r \<and> length r = length a + 1 \<and>
    wval r = wval res + wval a * unat b"
proof -
  obtain r c where run: "for_down (mul_add_step a b) (length a) (res, False) = (r, c)" by force
  have "length r = length a + 1 \<and> wval r + of_bool c * wbase ^ (length a + 1) =
      wval res + wval a * unat b"
    using multiply64_add_loop [OF run len] by simp
  then have "\<not> c" "length r = length a + 1" "wval r = wval res + wval a * unat b"
    using fits by (cases c; simp)+
  with run len show ?thesis by (simp add: multiply64_add_def)
qed

section \<open>Clearing the low word\<close>

lemma push_bit_and_nonzero: "i < 64 \<Longrightarrow> push_bit i 1 AND w \<noteq> 0 \<longleftrightarrow> bit (w :: u64) i"
proof
  assume "push_bit i 1 AND w \<noteq> 0"
  then obtain j where "bit (push_bit i 1 AND w) j" using nonzero_bit by blast
  then show "bit w i" by (auto simp: bit_simps)
next
  assume "i < 64" "bit w i"
  then have "bit (push_bit i 1 AND w) i" by (simp add: bit_simps)
  then show "push_bit i 1 AND w \<noteq> 0" by auto
qed

lemma last_word_bit:
  assumes "res \<noteq> []" and "i < 64"
  shows "push_bit i 1 AND res ! (length res - 1) \<noteq> 0 \<longleftrightarrow> odd (wval res div 2 ^ i)"
proof -
  have "wval res = wval (butlast res) * wbase + unat (last res)"
    using assms(1) by (metis append_butlast_last_id wval_snoc)
  then have "take_bit 64 (wval res) = unat (last res)"
    using unat_lt_wbase [of "last res"] by (simp add: take_bit_nat_def wbase_def)
  then have "bit (unat (last res)) i \<longleftrightarrow> bit (take_bit 64 (wval res)) i" by simp
  then have "bit (last res) i \<longleftrightarrow> bit (wval res) i"
    using assms(2) by (simp only: bit_take_bit_iff bit_unsigned_iff) simp
  moreover have "bit (wval res) i \<longleftrightarrow> odd (wval res div 2 ^ i)" by (simp only: bit_iff_odd)
  ultimately have "bit (last res) i \<longleftrightarrow> odd (wval res div 2 ^ i)" by (simp only:)
  then show ?thesis
    unfolding push_bit_and_nonzero [OF assms(2)] last_conv_nth [OF assms(1), symmetric] .
qed

definition clear_inv :: "u64 list \<Rightarrow> u64 list \<Rightarrow> nat \<Rightarrow> (u64 list \<times> u64) option \<Rightarrow> bool" where
  "clear_inv m res0 i st \<longleftrightarrow>
     (\<exists>r c s. st = Some (r, c) \<and> length r = length m + 1 \<and> 2 ^ i dvd wval r \<and> unat c \<le> i \<and>
        wval r + unat c * wbase ^ (length m + 1) = wval res0 + wval m * s)"

lemma odd_sum_dvd:
  fixes v m x c P :: nat
  assumes "2 ^ i dvd v" and "odd (v div 2 ^ i)" and "odd m" and "x + c * P = v + m * 2 ^ i"
    and "2 ^ Suc i dvd P"
  shows "2 ^ Suc i dvd x"
proof -
  obtain q where v: "v = 2 ^ i * q" using assms(1) by blast
  then have "odd q" using assms(2) by simp
  then have "even (q + m)" using assms(3) by simp
  then have "2 ^ i * 2 dvd 2 ^ i * (q + m)" by (intro mult_dvd_mono) simp_all
  then have "2 ^ Suc i dvd v + m * 2 ^ i" by (simp add: v algebra_simps)
  then have "2 ^ Suc i dvd x + c * P" using assms(4) by simp
  moreover have "2 ^ Suc i dvd c * P" using assms(5) by simp
  ultimately show ?thesis by (metis dvd_add_left_iff)
qed

lemma even_half_dvd: "2 ^ i dvd v \<Longrightarrow> even (v div 2 ^ i) \<Longrightarrow> 2 ^ Suc i dvd (v :: nat)"
  by (metis dvd_div_iff_mult mult.commute power_Suc power_not_zero zero_neq_numeral)

lemma clear_bit_inv:
  assumes inv: "clear_inv m res0 i st" and i: "i < 64" and m: "odd (wval m)"
  shows "clear_inv m res0 (Suc i) (clear_bit (init_shifted_montgomery m) i st)"
proof -
  obtain r c s where st: "st = Some (r, c)" and len: "length r = length m + 1"
    and dvd: "2 ^ i dvd wval r" and c: "unat c \<le> i"
    and val: "wval r + unat c * wbase ^ (length m + 1) = wval res0 + wval m * s"
    using inv by (auto simp: clear_inv_def)
  have ne: "r \<noteq> []" using len by auto
  note bit = last_word_bit [OF ne i]
  show ?thesis
  proof (cases "odd (wval r div 2 ^ i)")
    case False
    then have "clear_bit (init_shifted_montgomery m) i st = Some (r, c)"
      using bit by (simp add: clear_bit_def st)
    then show ?thesis
      using len even_half_dvd [OF dvd] False c val unfolding clear_inv_def by (auto intro: le_SucI)
  next
    case True
    let ?sh = "init_shifted_montgomery m ! i"
    obtain r' d where add: "wp_add r r ?sh = (r', d)" by force
    have sh: "length ?sh = length r" "wval ?sh = wval m * 2 ^ i"
      using init_shifted_montgomery_value [OF i, of m] len by simp_all
    note sum = wp_add_value [OF add refl sh(1)]
    have len': "length r' = length m + 1" and ne': "r' \<noteq> []" using sum(1) len by auto
    have val': "wval r' + of_bool d * wbase ^ (length m + 1) = wval r + wval m * 2 ^ i"
      using sum(2) sh(2) len by simp
    have "(2 :: nat) ^ Suc i dvd 2 ^ 64" using i by (intro le_imp_power_dvd) simp
    then have "2 ^ Suc i dvd wbase ^ (length m + 1)" by (simp add: wbase_def)
    from odd_sum_dvd [OF dvd True m val' this] have dvd': "2 ^ Suc i dvd wval r'" .
    then have "\<not> odd (wval r' div 2 ^ i)" by (auto simp: elim!: dvdE)
    then have "clear_bit (init_shifted_montgomery m) i st = Some (r', c + of_bool d)"
      using True bit last_word_bit [OF ne' i] add sum(1) by (simp add: clear_bit_def st)
    moreover have uc: "unat (c + of_bool d) = unat c + of_bool d"
      using c i by (simp add: unat_64_plus wbase_def)
    moreover have "wval r' + (unat c + of_bool d) * wbase ^ (length m + 1) =
        wval res0 + wval m * (s + 2 ^ i)"
      using val val' by (simp add: algebra_simps)
    moreover have "unat c + of_bool d \<le> Suc i" using c by (cases d) simp_all
    ultimately show ?thesis using len' dvd' unfolding clear_inv_def by (metis uc)
  qed
qed

lemma clear_bits:
  assumes m: "odd (wval m)" and len: "length res = length m + 1" and i: "i \<le> 64"
  shows "clear_inv m res i (for_up (clear_bit (init_shifted_montgomery m)) i (Some (res, 0)))"
  using i
proof (induction i)
  case 0
  show ?case using len by (auto simp: clear_inv_def intro: exI [of _ 0])
next
  case (Suc i)
  then show ?case using clear_bit_inv [OF _ _ m] by simp
qed

text \<open>
  The reduction step of Montgomery's method: what is left in the high words, times
  \<open>wbase\<close>, is congruent to the input, because the low word is zero.
\<close>

lemma add_multiple_value:
  assumes m: "odd (wval m)" and len: "length res = length m + 1"
  shows "\<exists>hi. add_multiple_to_make_low_word_zero res (init_shifted_montgomery m) = Some (hi @ [0]) \<and>
    reduced m hi \<and> wval hi * wbase mod wval m = wval res mod wval m"
proof -
  let ?sh = "init_shifted_montgomery m"
  obtain r c s where run: "for_up (clear_bit ?sh) 64 (Some (res, 0)) = Some (r, c)"
    and lr: "length r = length m + 1" and dvd: "2 ^ 64 dvd wval r"
    and val: "wval r + unat c * wbase ^ (length m + 1) = wval res + wval m * s"
    using clear_bits [OF m len, of 64] unfolding clear_inv_def by blast
  from lr obtain q w where r: "r = q @ [w]" and lq: "length q = length m"
    by (metis Suc_eq_plus1 length_append_singleton length_Suc_conv_rev nat.inject)
  have "wbase dvd wval q * wbase + unat w" using dvd r by (simp add: wbase_def)
  then have "wbase dvd unat w" by (metis dvd_add_right_iff dvd_triv_right)
  then have "unat w = 0" using unat_lt_wbase [of w] by (meson nat_dvd_not_less neq0_conv)
  then have w: "w = 0" by (simp add: unat_eq_0)
  define U where "U = wval q + unat c * wbase ^ length m"
  have pos: "0 < wval m" using m by (cases "wval m") auto
  obtain hi where hi: "reduce_carry m q c = Some hi" "length hi = length m"
    "wval hi = U mod wval m"
    using reduce_carry_value [OF U_def [symmetric] lq pos] by blast
  have "U * wbase = wval res + wval m * s"
    using val by (simp add: U_def r w algebra_simps)
  then have "U * wbase mod wval m = wval res mod wval m" by simp
  then have "wval hi * wbase mod wval m = wval res mod wval m"
    by (simp add: hi(3) mod_mult_left_eq)
  moreover have "add_multiple_to_make_low_word_zero res ?sh = Some (hi @ [0])"
    using run hi(1) by (simp add: add_multiple_to_make_low_word_zero_def
        init_shifted_montgomery_0 r w)
  moreover have "reduced m hi" using hi pos by (simp add: reduced_def)
  ultimately show ?thesis by blast
qed

section \<open>Montgomery products\<close>

lemma mont_fits:
  fixes r a w m P B :: nat
  assumes "r < m" and "m < P" and "a < P" and "w < B"
  shows "r + a * w < P * B"
proof -
  have "a * w \<le> P * (B - 1)" using assms(3,4) by (intro mult_le_mono) simp_all
  moreover have "P * (B - 1) + P = P * B" using assms(4) by (cases B) simp_all
  ultimately show ?thesis using assms(1,2) by linarith
qed

lemma montgomery_word_value:
  assumes m: "odd (wval m)" and a: "length a = length m" and r: "reduced m r"
  shows "\<exists>r'. montgomery_word a (init_shifted_montgomery m) w (Some (0 # r)) = Some (0 # r') \<and>
    reduced m r' \<and> wval r' * wbase mod wval m = (wval r + wval a * unat w) mod wval m"
proof -
  have "wval r + wval a * unat w < wbase ^ length m * wbase"
    using r wval_bound [of m] wval_bound [of a] unat_lt_wbase [of w] a
    by (intro mont_fits [of _ "wval m"]) (simp_all add: reduced_def)
  then have fits: "wval (0 # r) + wval a * unat w < wbase ^ (length a + 1)"
    using a by (simp add: wval_Cons mult.commute)
  have "length (0 # r) = length a + 1" using r a by (simp add: reduced_def)
  from multiply64_add_value [OF this fits] obtain t where
    t: "multiply64_add (0 # r) a w = Some t" "length t = length m + 1"
      "wval t = wval r + wval a * unat w" using a by (auto simp: wval_Cons)
  from add_multiple_value [OF m t(2)] obtain hi where
    "add_multiple_to_make_low_word_zero t (init_shifted_montgomery m) = Some (hi @ [0])"
    "reduced m hi" "wval hi * wbase mod wval m = wval t mod wval m" by blast
  with t show ?thesis by (simp add: montgomery_word_def shift_right_64_def)
qed

lemma montgomery_step_value:
  assumes m: "odd (wval m)" and a: "length a = length m"
  shows "\<exists>r. montgomery_step a b (init_shifted_montgomery m) = Some (0 # r) \<and> reduced m r \<and>
    wval r * wbase ^ length b mod wval m = wval a * wval b mod wval m"
proof (induction b)
  case Nil
  have "wp_init (length a + 1) 0 = 0 # wp_init (length a) 0"
    by (simp add: wp_init_def numeral_eq_Suc flip: replicate_Suc) (cases "length a"; simp)
  moreover have "0 < wval m" using m by (cases "wval m") auto
  ultimately show ?case using a
    by (auto simp: montgomery_step_def reduced_def)
next
  case (Cons w b)
  then obtain r where r: "montgomery_step a b (init_shifted_montgomery m) = Some (0 # r)"
    "reduced m r" "wval r * wbase ^ length b mod wval m = wval a * wval b mod wval m" by blast
  from montgomery_word_value [OF m a r(2), of w] obtain r' where
    r': "montgomery_word a (init_shifted_montgomery m) w (Some (0 # r)) = Some (0 # r')"
      "reduced m r'" "wval r' * wbase mod wval m = (wval r + wval a * unat w) mod wval m" by blast
  define P where "P = wbase ^ length b"
  have "wval r' * (wbase * P) mod wval m = (wval r' * wbase mod wval m) * P mod wval m"
    by (simp add: mod_mult_left_eq mult.assoc)
  also have "\<dots> = (wval r + wval a * unat w) * P mod wval m"
    by (simp add: r'(3) mod_mult_left_eq)
  also have "\<dots> = (wval r * P mod wval m + wval a * unat w * P) mod wval m"
    by (simp only: distrib_right mod_add_left_eq)
  also have "\<dots> = (wval a * wval b + wval a * unat w * P) mod wval m"
    by (simp only: P_def r(3) mod_add_left_eq)
  also have "\<dots> = wval a * wval (w # b) mod wval m"
    by (simp add: P_def wval_Cons algebra_simps)
  finally show ?case using r(1) r' by (simp add: montgomery_step_def P_def)
qed

section \<open>The square of the radix\<close>

lemma top_bit_iff:
  assumes "xs \<noteq> []"
  shows "drop_bit 63 (xs ! 0) = 1 \<longleftrightarrow> wbase ^ length xs \<le> 2 * wval xs"
proof -
  obtain x ys where xs: "xs = x # ys" using assms by (cases xs) auto
  define P where "P = wbase ^ length ys"
  have ys: "wval ys < P" by (simp add: P_def wval_bound)
  have W: "wbase = 2 * 2 ^ 63" by (simp add: wbase_def)
  have lt: "unat x < 2 * 2 ^ 63" using unat_lt_wbase [of x] W by simp
  have one: "unat (1 :: u64) = 1" by simp
  have "drop_bit 63 x = 1 \<longleftrightarrow> unat x div 2 ^ 63 = 1"
    by (metis one unat_drop_bit word_unat_eq_iff)
  also have "\<dots> \<longleftrightarrow> 2 ^ 63 \<le> unat x"
    using lt by (metis div_less le_less_linear less_mult_imp_div_less mult_1 One_nat_def
        div_greater_zero_iff less_2_cases_iff mult.commute zero_less_numeral zero_less_power
        less_numeral_extra(3) zero_neq_one)
  also have "\<dots> \<longleftrightarrow> wbase * P \<le> 2 * (unat x * P + wval ys)"
  proof
    assume "2 ^ 63 \<le> unat x"
    then have "2 ^ 63 * P \<le> unat x * P" by (rule mult_le_mono1)
    then have "2 * (2 ^ 63 * P) \<le> 2 * (unat x * P + wval ys)"
      by (intro mult_le_mono2 trans_le_add1)
    then show "wbase * P \<le> 2 * (unat x * P + wval ys)" by (simp only: W mult.assoc)
  next
    assume le: "wbase * P \<le> 2 * (unat x * P + wval ys)"
    show "2 ^ 63 \<le> unat x"
    proof (rule ccontr)
      assume "\<not> 2 ^ 63 \<le> unat x"
      then have "Suc (unat x) * P \<le> 2 ^ 63 * P" by (intro mult_le_mono1) simp
      then have "2 * (unat x * P + P) \<le> 2 * (2 ^ 63 * P)" by simp
      also have "\<dots> = wbase * P" by (simp only: W mult.assoc)
      also note le
      finally show False using ys by simp
    qed
  qed
  finally show ?thesis by (simp add: xs wval_Cons P_def)
qed

lemma shift_up_value:
  assumes "length temp1 = length temp2" and "0 < wval temp2"
  shows "\<exists>t k. shift_up temp1 temp2 = Some t \<and> length t = length temp2 \<and>
    wval t = wval temp2 * 2 ^ k \<and> wval temp1 < 2 * wval t"
  using assms
proof (induction "wbase ^ length temp2 - wval temp2" arbitrary: temp2 rule: less_induct)
  case less
  have ne: "temp2 \<noteq> []" using less.prems(2) by auto
  have unf: "shift_up temp1 temp2 =
      (if \<not> wbase ^ length temp2 \<le> 2 * wval temp2 \<and> wval temp2 < wval temp1
       then shift_up temp1 (wp_shift_left temp2) else Some temp2)"
    by (subst shift_up.simps)
       (simp only: top_bit_iff [OF ne] wp_compare_gt [OF less.prems(1)])
  show ?case
  proof (cases "\<not> wbase ^ length temp2 \<le> 2 * wval temp2 \<and> wval temp2 < wval temp1")
    case False
    have "wval temp1 < wbase ^ length temp2" using wval_bound [of temp1] less.prems(1) by simp
    with False less.prems(2) have "wval temp1 < 2 * wval temp2" by linarith
    then show ?thesis using False unf by (auto intro!: exI [of _ 0])
  next
    case True
    let ?t = "wp_shift_left temp2"
    have t: "length ?t = length temp2" "wval ?t = 2 * wval temp2"
      using True by (simp_all add: wp_shift_left_value)
    have "wbase ^ length ?t - wval ?t < wbase ^ length temp2 - wval temp2"
      unfolding t using True less.prems(2) by linarith
    from less.hyps [OF this] t less.prems obtain u k where
      "shift_up temp1 ?t = Some u" "length u = length ?t" "wval u = wval ?t * 2 ^ k"
      "wval temp1 < 2 * wval u" by auto
    then have "shift_up temp1 temp2 = Some u \<and> length u = length temp2 \<and>
        wval u = wval temp2 * 2 ^ Suc k \<and> wval temp1 < 2 * wval u"
      using unf True t by simp
    then show ?thesis by blast
  qed
qed

lemma sub_exact:
  assumes "length t = length u" and "wval u \<le> wval t"
  shows "length (fst (wp_sub t t u)) = length t"
    and "wval (fst (wp_sub t t u)) + wval u = wval t"
proof -
  obtain d b where d: "wp_sub t t u = (d, b)" by force
  note sub = wp_sub_value [OF d refl assms(1) [symmetric]]
  have "wval d < wbase ^ length t" using wval_bound [of d] sub(1) by simp
  with assms(2) sub(2) have "\<not> b" by (cases b) auto
  with d sub show "length (fst (wp_sub t t u)) = length t"
    and "wval (fst (wp_sub t t u)) + wval u = wval t" by simp_all
qed

lemma sub_shifted_done:
  assumes "length temp1 = length m" and "wval temp1 < wval m"
  shows "sub_shifted temp1 temp2 m = Some temp1"
  using assms by (subst sub_shifted.simps) (simp add: wp_compare_ge)

lemma sub_shifted_value:
  assumes "length temp1 = length m" "length temp2 = length m"
    and "wval temp2 = wval m * 2 ^ k" and "wval temp1 < 2 * wval temp2"
  shows "\<exists>r. sub_shifted temp1 temp2 m = Some r \<and> reduced m r \<and> wval r = wval temp1 mod wval m"
  using assms
proof (induction k arbitrary: temp1 temp2)
  case (0 temp1 temp2)
  let ?d = "fst (wp_sub temp1 temp1 temp2)"
  show ?case
  proof (cases "wval temp1 < wval m")
    case True
    then show ?thesis using 0 by (simp add: sub_shifted_done reduced_def)
  next
    case False
    have d: "length ?d = length m" "wval ?d + wval m = wval temp1"
      using sub_exact [of temp1 temp2] 0 False by simp_all
    have lt: "wval ?d < wval m" using d(2) 0 by simp
    have "sub_shifted temp1 temp2 m = sub_shifted ?d (wp_shift_right temp2) m"
      using False 0 by (subst sub_shifted.simps) (simp add: wp_compare_ge)
    moreover have "wval ?d = wval temp1 mod wval m"
      using d(2) lt by (metis mod_add_self2 mod_less)
    ultimately show ?thesis using d(1) lt by (simp add: sub_shifted_done reduced_def)
  qed
next
  case (Suc k temp1 temp2)
  show ?case
  proof (cases "wval temp1 < wval m")
    case True
    then show ?thesis using Suc.prems by (simp add: sub_shifted_done reduced_def)
  next
    case False
    define t where "t = (if wp_compare temp1 temp2 \<ge> 0 then fst (wp_sub temp1 temp1 temp2) else temp1)"
    let ?s = "wp_shift_right temp2"
    have len: "length temp1 = length temp2" using Suc.prems by simp
    have s: "length ?s = length m" "wval ?s = wval m * 2 ^ k"
      using Suc.prems by (simp_all add: wp_shift_right_value)
    have t: "length t = length m \<and> wval t < wval temp2 \<and> wval t mod wval m = wval temp1 mod wval m"
    proof (cases "wval temp2 \<le> wval temp1")
      case True
      note sub = sub_exact [OF len True]
      have "wval temp1 = wval (fst (wp_sub temp1 temp1 temp2)) + wval m * 2 ^ Suc k"
        using sub(2) Suc.prems(3) by simp
      then have "wval (fst (wp_sub temp1 temp1 temp2)) mod wval m = wval temp1 mod wval m" by simp
      then show ?thesis
        using True sub Suc.prems len by (simp add: t_def wp_compare_ge)
    qed (use Suc.prems len in \<open>simp add: t_def wp_compare_ge\<close>)
    have "sub_shifted temp1 temp2 m = sub_shifted t ?s m"
      using False Suc.prems(1) by (subst sub_shifted.simps) (simp add: wp_compare_ge t_def)
    moreover have "wval t < 2 * wval ?s" using t s Suc.prems(3) by simp
    ultimately show ?thesis using Suc.IH [OF conjunct1 [OF t] s] t by simp
  qed
qed

lemma compute_r_squared_value:
  assumes "0 < wval m"
  shows "\<exists>r. compute_r_squared m = Some r \<and> reduced m r \<and>
    wval r = wbase ^ length m * wbase ^ length m mod wval m"
proof -
  let ?zero = "wp_init (length m) 0"
  obtain t b where t: "wp_sub ?zero ?zero m = (t, b)" by force
  have "length m = length ?zero" by simp
  note sub = wp_sub_value [OF t refl this]
  have lt: "length t = length m" using sub(1) by simp
  have val: "wval t + wval m = wbase ^ length m"
    using sub(2) assms wval_bound [of m] by (cases b) simp_all
  from shift_up_value [OF lt assms] obtain u k where u: "shift_up t m = Some u"
    "length u = length m" "wval u = wval m * 2 ^ k" "wval t < 2 * wval u" by blast
  from sub_shifted_value [OF lt u(2,3,4)] obtain r where r: "sub_shifted t u m = Some r"
    "reduced m r" "wval r = wval t mod wval m" by blast
  have R: "wval r = wbase ^ length m mod wval m" using r(3) by (simp flip: val)
  have "compute_r_squared m = Some (wp_multiply_mod r r m)"
    using t u(1) r(1) by (simp add: compute_r_squared_def)
  moreover have "length (wp_multiply_mod r r m) = length m"
    "wval (wp_multiply_mod r r m) = wval r * wval r mod wval m"
    using wp_multiply_mod_value [of r m r] r(2) by (simp_all add: reduced_def)
  ultimately show ?thesis using assms by (simp add: reduced_def R mod_mult_eq)
qed

section \<open>The exponentiation\<close>

text \<open>
  \<open>cancel_radix\<close>: the radix is invertible modulo an odd number, so congruent multiples of
  it have congruent quotients.
\<close>

lemma cancel_radix:
  assumes "odd m" and "x * wbase ^ k mod m = y * wbase ^ k mod m"
  shows "x mod m = (y :: nat) mod m"
proof -
  have "coprime (int m) (int wbase ^ k)"
  proof -
    have "coprime (int m) (2 ^ (64 * k))" using assms(1) by simp
    then show ?thesis by (simp only: wbase_def of_nat_power of_nat_numeral power_mult)
  qed
  moreover have "int m dvd (int x - int y) * int wbase ^ k"
  proof -
    have "int x * int wbase ^ k mod int m = int y * int wbase ^ k mod int m"
      using arg_cong [OF assms(2), of int] by (simp add: zmod_int)
    then show ?thesis by (simp add: mod_eq_dvd_iff left_diff_distrib)
  qed
  ultimately have "int m dvd int x - int y" by (simp add: coprime_dvd_mult_left_iff)
  then have "int x mod int m = int y mod int m" by (simp only: mod_eq_dvd_iff)
  then show ?thesis by (simp flip: zmod_int)
qed

lemma montgomery_product:
  assumes m: "odd (wval m)" and a: "length a = length m" and b: "length b = length m"
    and ab: "wval a * wval b mod wval m = x * wbase ^ length m mod wval m"
  shows "\<exists>r. montgomery_step a b (init_shifted_montgomery m) = Some (0 # r) \<and> reduced m r \<and>
    wval r = x mod wval m"
proof -
  obtain r where r: "montgomery_step a b (init_shifted_montgomery m) = Some (0 # r)"
    "reduced m r" "wval r * wbase ^ length b mod wval m = wval a * wval b mod wval m"
    using montgomery_step_value [OF m a] by blast
  have "wval r mod wval m = x mod wval m"
    using trans [OF r(3) ab] unfolding b by (rule cancel_radix [OF m])
  with r(1,2) show ?thesis by (simp add: reduced_def)
qed

text \<open>
  What the scan computes, without Montgomery forms: \<open>mont_spec\<close> squares and multiplies modulo
  \<open>m\<close>, but takes a zero to mean that no bit of the exponent has been read yet. The state
  \<open>mres\<close> of the code is the Montgomery form of that of \<open>mont_spec\<close>.
\<close>

definition mont_spec :: "nat \<Rightarrow> nat \<Rightarrow> bool \<Rightarrow> nat \<Rightarrow> nat" where
  "mont_spec x m b v =
     (if v = 0 then (if b then x mod m else 0)
      else v * v * (if b then x else 1) mod m)"

definition mont_rel :: "u64 list \<Rightarrow> u64 list option \<Rightarrow> nat \<Rightarrow> bool" where
  "mont_rel m st v \<longleftrightarrow> v < wval m \<and>
     (\<exists>r. st = Some (0 # r) \<and> reduced m r \<and> wval r = v * wbase ^ length m mod wval m)"

lemma bit_loop_smaller: "inner \<noteq> 0 \<Longrightarrow> unat (drop_bit 1 inner :: u64) < unat inner"
  by (simp add: unat_drop_bit unat_gt_0)

lemma bit_loop_sim:
  assumes step: "\<And>b st v. R st v \<Longrightarrow> R (f b st) (g b v)" and "R st v"
  shows "R (bit_loop f inner w st) (bit_loop g inner w v)"
  using assms(2)
proof (induction inner arbitrary: st v rule: measure_induct_rule [of unat])
  case (less inner)
  show ?case
  proof (cases "inner = 0")
    case True
    then show ?thesis using less.prems by (simp add: bit_loop.simps)
  next
    case False
    from less.IH [OF bit_loop_smaller [OF False] step [OF less.prems]] False
    show ?thesis by (subst (1 2) bit_loop.simps) simp
  qed
qed

lemma mont_form_mult:
  fixes x y R m :: nat
  shows "(x * R mod m) * (y * R mod m) mod m = (x * y * R) * R mod m"
proof -
  have "(x * R mod m) * (y * R mod m) mod m = (x * R) * (y * R) mod m" by (rule mod_mult_eq)
  then show ?thesis by (simp add: mult.assoc mult.left_commute)
qed

lemma mont_form_zero:
  assumes "odd m" and "v < m"
  shows "v * wbase ^ k mod m = 0 \<longleftrightarrow> v = (0 :: nat)"
proof
  assume "v * wbase ^ k mod m = 0"
  then have "v * wbase ^ k mod m = 0 * wbase ^ k mod m" by simp
  from cancel_radix [OF assms(1) this] assms(2) show "v = 0" by simp
qed simp

lemma mont_product:
  assumes m: "odd (wval m)" and r: "reduced m r" "wval r = x * wbase ^ length m mod wval m"
    and s: "reduced m s" "wval s = y * wbase ^ length m mod wval m"
  obtains t where "montgomery_step r s (init_shifted_montgomery m) = Some (0 # t)"
    "reduced m t" "wval t = x * y * wbase ^ length m mod wval m"
proof -
  have len: "length r = length m" "length s = length m" using r s by (simp_all add: reduced_def)
  have "wval r * wval s mod wval m = (x * y * wbase ^ length m) * wbase ^ length m mod wval m"
    unfolding r(2) s(2) by (rule mont_form_mult)
  from montgomery_product [OF m len this] that show thesis by blast
qed

lemma mont_bit_rel:
  assumes m: "odd (wval m)" and mb: "reduced m mb" "wval mb = x * wbase ^ length m mod wval m"
    and rel: "mont_rel m st v"
  shows "mont_rel m (mont_bit (0 # mb) (init_shifted_montgomery m) b st)
    (mont_spec x (wval m) b v)"
proof -
  let ?R = "wbase ^ length m"
  let ?sh = "init_shifted_montgomery m"
  from rel obtain r where v: "v < wval m" and st: "st = Some (0 # r)" and r: "reduced m r"
    and vr: "wval r = v * ?R mod wval m" by (auto simp: mont_rel_def)
  have z: "wp_is_zero (0 # r) \<longleftrightarrow> v = 0"
    by (simp add: wp_is_zero_iff wval_Cons vr mont_form_zero [OF m v])
  show ?thesis
  proof (cases "v = 0")
    case True
    have "mont_bit (0 # mb) ?sh b st = Some (if b then 0 # mb else 0 # r)"
      using True z by (simp add: mont_bit_def st)
    then show ?thesis using True v r vr mb
      by (cases b) (simp_all add: mont_rel_def mont_spec_def mod_mult_left_eq)
  next
    case False
    obtain s where s: "montgomery_step r r ?sh = Some (0 # s)" "reduced m s"
      "wval s = v * v * ?R mod wval m" by (rule mont_product [OF m r vr r vr])
    obtain t where t: "montgomery_step s mb ?sh = Some (0 # t)" "reduced m t"
      "wval t = v * v * x * ?R mod wval m" by (rule mont_product [OF m s(2,3) mb])
    have "mont_bit (0 # mb) ?sh b st = Some (if b then 0 # t else 0 # s)"
      using False z s(1) t(1) by (simp add: mont_bit_def st)
    then show ?thesis using False v s t
      by (cases b) (simp_all add: mont_rel_def mont_spec_def mod_mult_left_eq)
  qed
qed

text \<open>Skipping a word of zeros while nothing has been read is reading it.\<close>

lemma mont_spec_zeros: "bit_loop (mont_spec x m) inner 0 0 = 0"
proof (induction inner rule: measure_induct_rule [of unat])
  case (less inner)
  show ?case
  proof (cases "inner = 0")
    case False
    have "mont_spec x m False 0 = 0" by (simp add: mont_spec_def)
    with less.IH [OF bit_loop_smaller [OF False]] False
    show ?thesis by (subst bit_loop.simps) simp
  qed (simp add: bit_loop.simps)
qed

lemma mont_word_rel:
  assumes "odd (wval m)" "reduced m mb" "wval mb = x * wbase ^ length m mod wval m"
    and rel: "mont_rel m st v"
  shows "mont_rel m (mont_word (0 # mb) (init_shifted_montgomery m) w st)
    (bit_loop (mont_spec x (wval m)) (push_bit 63 1) w v)"
proof -
  from rel obtain r where v: "v < wval m" and st: "st = Some (0 # r)"
    and vr: "wval r = v * wbase ^ length m mod wval m" by (auto simp: mont_rel_def)
  have z: "wp_is_zero (0 # r) \<longleftrightarrow> v = 0"
    by (simp add: wp_is_zero_iff wval_Cons vr mont_form_zero [OF assms(1) v])
  show ?thesis
  proof (cases "w = 0 \<and> v = 0")
    case True
    with rel z st show ?thesis by (simp add: mont_word_def mont_spec_zeros)
  next
    case False
    then have "mont_word (0 # mb) (init_shifted_montgomery m) w st =
        bit_loop (mont_bit (0 # mb) (init_shifted_montgomery m)) (push_bit 63 1) w st"
      using z by (auto simp: mont_word_def st)
    then show ?thesis
      using bit_loop_sim [of "mont_rel m", OF mont_bit_rel [OF assms(1-3)] rel] by simp
  qed
qed

lemma mont_words_rel:
  assumes "odd (wval m)" "reduced m mb" "wval mb = x * wbase ^ length m mod wval m"
    and "mont_rel m st v"
  shows "mont_rel m (fold (mont_word (0 # mb) (init_shifted_montgomery m)) ws st)
    (bit_scan (mont_spec x (wval m)) ws v)"
  using assms(4)
proof (induction ws arbitrary: st v)
  case Nil
  then show ?case by (simp add: bit_scan_def)
next
  case (Cons w ws)
  from Cons.IH [OF mont_word_rel [OF assms(1-3) Cons.prems]] show ?case by (simp add: bit_scan_def)
qed

lemma wp_exp_mod_montgomery_run:
  assumes m: "odd (wval m)" and base: "length base = length m"
  shows "\<exists>r. wp_exp_mod_montgomery base exp m = Some r \<and> reduced m r \<and>
    wval r = bit_scan (mont_spec (wval base) (wval m)) exp 0"
proof -
  let ?sh = "init_shifted_montgomery m"
  let ?R = "wbase ^ length m"
  have pos: "0 < wval m" using m by (cases "wval m") auto
  then have n: "0 < length m" by auto
  obtain q where q: "compute_r_squared m = Some q" "reduced m q" "wval q = ?R * ?R mod wval m"
    using compute_r_squared_value [OF pos] by blast
  have "wval base * wval q mod wval m = wval base * (?R * ?R) mod wval m"
    by (simp only: q(3) mod_mult_right_eq)
  then have "wval base * wval q mod wval m = (wval base * ?R) * ?R mod wval m"
    by (simp only: mult.assoc)
  from montgomery_product [OF m base _ this] q(2) obtain mb where
    mb: "montgomery_step base q ?sh = Some (0 # mb)" "reduced m mb"
      "wval mb = wval base * ?R mod wval m" by (auto simp: reduced_def)
  have "wp_init (length m + 1) 0 = 0 # wp_init (length m) 0"
    by (simp add: wp_init_def flip: replicate_Suc) (cases "length m"; simp)
  then have "mont_rel m (Some (wp_init (length m + 1) 0)) 0"
    using pos by (simp add: mont_rel_def reduced_def)
  from mont_words_rel [OF m mb(2,3) this, of exp] obtain t where
    t: "fold (mont_word (0 # mb) ?sh) exp (Some (wp_init (length m + 1) 0)) = Some (0 # t)"
      "reduced m t" and x: "bit_scan (mont_spec (wval base) (wval m)) exp 0 < wval m"
      "wval t = bit_scan (mont_spec (wval base) (wval m)) exp 0 * ?R mod wval m"
    by (auto simp: mont_rel_def)
  have one: "length (wp_init (length m) 1) = length m" "wval (wp_init (length m) 1) = 1"
    using n by (simp_all add: wval_wp_init)
  have "wval t * wval (wp_init (length m) 1) mod wval m =
      bit_scan (mont_spec (wval base) (wval m)) exp 0 * ?R mod wval m"
    by (simp only: one(2) x(2)) simp
  from montgomery_product [OF m _ one(1) this] t(2) obtain r where
    r: "montgomery_step t (wp_init (length m) 1) ?sh = Some (0 # r)" "reduced m r"
      "wval r = bit_scan (mont_spec (wval base) (wval m)) exp 0 mod wval m"
    by (auto simp: reduced_def)
  have "wp_exp_mod_montgomery base exp m = Some r"
    using q(1) mb(1) t(1) r(1) by (simp add: wp_exp_mod_montgomery_def)
  with r(2,3) x(1) show ?thesis by simp
qed

section \<open>When the specification is exponentiation\<close>

text \<open>
  \<open>good_base\<close> excludes the bases whose powers become zero modulo \<open>m\<close> though the base
  is not zero: those \<open>mont_spec\<close> takes for an empty prefix of the exponent.
\<close>

definition good_base :: "nat \<Rightarrow> nat \<Rightarrow> bool" where
  "good_base x m \<longleftrightarrow> (\<forall>e. m dvd x ^ e \<longrightarrow> m dvd x)"

definition mont_power :: "nat \<Rightarrow> nat \<Rightarrow> nat \<Rightarrow> nat \<Rightarrow> bool" where
  "mont_power x m e v \<longleftrightarrow> (good_base x m \<longrightarrow> v = (if e = 0 then 0 else x ^ e mod m))"

lemma mont_spec_power:
  assumes "mont_power x m e v"
  shows "mont_power x m (2 * e + of_bool b) (mont_spec x m b v)"
  unfolding mont_power_def
proof
  assume good: "good_base x m"
  with assms have v: "v = (if e = 0 then 0 else x ^ e mod m)" by (simp add: mont_power_def)
  show "mont_spec x m b v = (if 2 * e + of_bool b = 0 then 0 else x ^ (2 * e + of_bool b) mod m)"
  proof (cases "v = 0")
    case True
    have "x ^ f mod m = 0" if "e \<noteq> 0" "f \<noteq> 0" for f
    proof -
      have "m dvd x ^ e" using True v that(1) by (simp add: dvd_eq_mod_eq_0)
      with good have "m dvd x" by (auto simp: good_base_def)
      moreover have "x dvd x ^ f" using that(2) by simp
      ultimately show ?thesis by (metis dvd_imp_mod_0 dvd_trans)
    qed
    note zero = this [of 1] this [of "2 * e + of_bool b"]
    show ?thesis
      using True zero by (cases "e = 0"; cases b) (simp_all add: mont_spec_def)
  next
    case False
    then have "e \<noteq> 0" and "v = x ^ e mod m" using v by (auto split: if_splits)
    then have "v * v mod m = x ^ (2 * e) mod m" by (simp add: mod_mult_eq mult_2 power_add)
    then have "v * v * y mod m = x ^ (2 * e) * y mod m" for y by (metis mod_mult_left_eq)
    from this [of x] this [of 1] False \<open>e \<noteq> 0\<close> show ?thesis
      by (cases b) (simp_all add: mont_spec_def mult.commute)
  qed
qed

interpretation mont_scan: msb_scan "mont_spec x m" "mont_power x m" for x m
  by unfold_locales (rule mont_spec_power)

lemma mont_spec_scan:
  "good_base x m \<Longrightarrow> bit_scan (mont_spec x m) ws 0 = (if wval ws = 0 then 0 else x ^ wval ws mod m)"
  using mont_scan.scan_all [of x m 0 ws] by (simp add: mont_power_def)

lemma wp_exp_mod_montgomery_power:
  assumes "odd (wval m)" and "length base = length m" and "wval exp \<noteq> 0"
    and "good_base (wval base) (wval m)"
  shows "\<exists>r. wp_exp_mod_montgomery base exp m = Some r \<and> length r = length m \<and>
    wval r = wval base ^ wval exp mod wval m"
  using wp_exp_mod_montgomery_run [OF assms(1,2), of exp] assms(3)
  by (auto simp: reduced_def mont_spec_scan [OF assms(4)])

section \<open>Properties\<close>

text \<open>
  C17: for an odd modulus \<open>wp_exp_mod_montgomery\<close> always returns (no assertion fails and no
  loop runs forever), and what it returns is what \<open>mont_spec\<close> computes from the bits of the
  exponent.
\<close>

theorem wp_exp_mod_montgomery_refines:
  assumes "odd (wval m)" and "length base = length m"
  shows "\<exists>r. wp_exp_mod_montgomery base exp m = Some r \<and> length r = length m \<and>
    wval r = bit_scan (mont_spec (wval base) (wval m)) exp 0"
  using wp_exp_mod_montgomery_run [OF assms] by (auto simp: reduced_def)

theorem wp_exp_mod_montgomery_refines_witness:
  "\<exists>r. wp_exp_mod_montgomery [3] [5] [9] = Some r \<and> length r = 1 \<and>
    wval r = bit_scan (mont_spec 3 9) [5] 0"
  using wp_exp_mod_montgomery_refines [of "[9]" "[3]" "[5]"] by (simp add: wval_def)

text \<open>
  C10: for an odd modulus, an exponent that is not zero, and a base whose powers are zero
  modulo the modulus only when it is (so for every base when the modulus is a product of
  distinct primes), \<open>wp_exp_mod_montgomery\<close> returns the power of the base modulo the
  modulus.
\<close>

theorem wp_exp_mod_montgomery_correct:
  assumes "odd (wval m)" and "length base = length m" and "wval exp \<noteq> 0"
    and "good_base (wval base) (wval m)"
  shows "\<exists>r. wp_exp_mod_montgomery base exp m = Some r \<and> length r = length m \<and>
    wval r = wval base ^ wval exp mod wval m"
  by (rule wp_exp_mod_montgomery_power [OF assms])

lemma good_base_coprime:
  assumes "coprime x m" and "1 < m"
  shows "good_base x m"
proof -
  have "\<not> m dvd x ^ e" for e
  proof
    assume "m dvd x ^ e"
    moreover have "coprime (x ^ e) m" using assms(1) by simp
    ultimately have "m dvd 1" by (metis coprime_absorb_right is_unit_gcd_iff coprime_common_divisor dvd_refl)
    with assms(2) show False by simp
  qed
  then show ?thesis by (simp add: good_base_def)
qed

theorem wp_exp_mod_montgomery_correct_witness:
  "\<exists>r. wp_exp_mod_montgomery [3] [5] [7] = Some r \<and> length r = 1 \<and> wval r = 5"
proof -
  have "coprime (3 :: nat) 7" by (simp add: coprime_iff_gcd_eq_1 gcd_non_0_nat)
  then have "good_base 3 7" by (rule good_base_coprime) simp
  then show ?thesis
    using wp_exp_mod_montgomery_correct [of "[7]" "[3]" "[5]"] by (simp add: wval_def)
qed

text \<open>
  With the exponent zero, \<open>wp_exp_mod_montgomery\<close> returns 0 for every odd modulus, where
  \<open>wp_exp_mod\<close> returns 1.
\<close>

theorem wp_exp_mod_montgomery_zero_exponent:
  assumes "odd (wval m)" and "length base = length m" and "wval exp = 0"
  shows "\<exists>r. wp_exp_mod_montgomery base exp m = Some r \<and> wval r = 0"
proof -
  have "fold (\<lambda>word. bit_loop (mont_spec x k) (push_bit 63 1) word) exp 0 = 0" for x k
    using assms(3)
  proof (induction exp)
    case (Cons w ws)
    then have "w = 0" "wval ws = 0" by (simp_all add: wval_eq_0_iff)
    with Cons show ?case by (simp add: mont_spec_zeros)
  qed simp
  with wp_exp_mod_montgomery_run [OF assms(1,2), of exp] show ?thesis
    by (auto simp: bit_scan_def)
qed

text \<open>
  Without the condition on the base the result can be wrong: \<open>wp_exp_mod_montgomery\<close> takes an
  intermediate power that is zero for an exponent that has not started, and returns 3 for the fifth
  power of 3 modulo 9, where \<open>wp_exp_mod\<close> returns 0.
\<close>

lemma wp_exp_mod_montgomery_3_5_9:
  "\<exists>r. wp_exp_mod_montgomery [3] [5] [9] = Some r \<and> wval r = 3 \<and> wval (wp_exp_mod [3] [5] [9]) = 0"
proof -
  have "bit_scan (mont_spec 3 9) [5] 0 = 3" by code_simp
  moreover have "wval (wp_exp_mod [3] [5] [9]) = 0"
    using wp_exp_mod_value(2) [of "[9]" "[3]" "[5]"] by (simp add: reduced_def wval_def)
  ultimately show ?thesis
    using wp_exp_mod_montgomery_run [of "[9]" "[3]" "[5]"] by (auto simp: wval_def)
qed

end
