(* ===== verification/ShaHash.thy ===== *)
theory ShaHash
  imports AllnetPrelude "HOL-Library.Monad_Syntax"
begin

text \<open>
  \<open>lib/sha.c\<close>: SHA-512, SHA-1 and HMAC, on a little-endian machine. Byte arrays are lists;
  a hash is the list of its words. The reference at the end of each hash is the padding of
  FIPS 180-4 and a fold over the blocks.
\<close>

section \<open>Words and bytes\<close>

text \<open>The round constants, written as their two halves of 32 bits.\<close>

definition K512 :: "u64 list" where
  "K512 = map (\<lambda>(high, low). push_bit 32 high OR low)
     [(0x428a2f98, 0xd728ae22), (0x71374491, 0x23ef65cd), (0xb5c0fbcf, 0xec4d3b2f), (0xe9b5dba5, 0x8189dbbc),
      (0x3956c25b, 0xf348b538), (0x59f111f1, 0xb605d019), (0x923f82a4, 0xaf194f9b), (0xab1c5ed5, 0xda6d8118),
      (0xd807aa98, 0xa3030242), (0x12835b01, 0x45706fbe), (0x243185be, 0x4ee4b28c), (0x550c7dc3, 0xd5ffb4e2),
      (0x72be5d74, 0xf27b896f), (0x80deb1fe, 0x3b1696b1), (0x9bdc06a7, 0x25c71235), (0xc19bf174, 0xcf692694),
      (0xe49b69c1, 0x9ef14ad2), (0xefbe4786, 0x384f25e3), (0x0fc19dc6, 0x8b8cd5b5), (0x240ca1cc, 0x77ac9c65),
      (0x2de92c6f, 0x592b0275), (0x4a7484aa, 0x6ea6e483), (0x5cb0a9dc, 0xbd41fbd4), (0x76f988da, 0x831153b5),
      (0x983e5152, 0xee66dfab), (0xa831c66d, 0x2db43210), (0xb00327c8, 0x98fb213f), (0xbf597fc7, 0xbeef0ee4),
      (0xc6e00bf3, 0x3da88fc2), (0xd5a79147, 0x930aa725), (0x06ca6351, 0xe003826f), (0x14292967, 0x0a0e6e70),
      (0x27b70a85, 0x46d22ffc), (0x2e1b2138, 0x5c26c926), (0x4d2c6dfc, 0x5ac42aed), (0x53380d13, 0x9d95b3df),
      (0x650a7354, 0x8baf63de), (0x766a0abb, 0x3c77b2a8), (0x81c2c92e, 0x47edaee6), (0x92722c85, 0x1482353b),
      (0xa2bfe8a1, 0x4cf10364), (0xa81a664b, 0xbc423001), (0xc24b8b70, 0xd0f89791), (0xc76c51a3, 0x0654be30),
      (0xd192e819, 0xd6ef5218), (0xd6990624, 0x5565a910), (0xf40e3585, 0x5771202a), (0x106aa070, 0x32bbd1b8),
      (0x19a4c116, 0xb8d2d0c8), (0x1e376c08, 0x5141ab53), (0x2748774c, 0xdf8eeb99), (0x34b0bcb5, 0xe19b48a8),
      (0x391c0cb3, 0xc5c95a63), (0x4ed8aa4a, 0xe3418acb), (0x5b9cca4f, 0x7763e373), (0x682e6ff3, 0xd6b2b8a3),
      (0x748f82ee, 0x5defb2fc), (0x78a5636f, 0x43172f60), (0x84c87814, 0xa1f0ab72), (0x8cc70208, 0x1a6439ec),
      (0x90befffa, 0x23631e28), (0xa4506ceb, 0xde82bde9), (0xbef9a3f7, 0xb2c67915), (0xc67178f2, 0xe372532b),
      (0xca273ece, 0xea26619c), (0xd186b8c7, 0x21c0c207), (0xeada7dd6, 0xcde0eb1e), (0xf57d4f7f, 0xee6ed178),
      (0x06f067aa, 0x72176fba), (0x0a637dc5, 0xa2c898a6), (0x113f9804, 0xbef90dae), (0x1b710b35, 0x131c471b),
      (0x28db77f5, 0x23047d84), (0x32caab7b, 0x40c72493), (0x3c9ebe0a, 0x15c9bebc), (0x431d67c4, 0x9c100d4c),
      (0x4cc5d4be, 0xcb3e42b6), (0x597f299c, 0xfc657e2a), (0x5fcb6fab, 0x3ad6faec), (0x6c44198c, 0x4a475817)]"

definition init_H512 :: "u64 list" where
  "init_H512 =
    [0x6a09e667f3bcc908, 0xbb67ae8584caa73b,
     0x3c6ef372fe94f82b, 0xa54ff53a5f1d36f1,
     0x510e527fade682d1, 0x9b05688c2b3e6c1f,
     0x1f83d9abfb41bd6b, 0x5be0cd19137e2179]"

definition init_H1 :: "u32 list" where
  "init_H1 = [0x67452301, 0xefcdab89, 0x98badcfe, 0x10325476, 0xc3d2e1f0]"

definition shr :: "nat \<Rightarrow> u64 \<Rightarrow> u64" where
  "shr n x = drop_bit n x"

definition rotr64 :: "nat \<Rightarrow> u64 \<Rightarrow> u64" where
  "rotr64 n x = drop_bit n x OR push_bit (64 - n) x"

definition rotl32 :: "nat \<Rightarrow> u32 \<Rightarrow> u32" where
  "rotl32 n x = push_bit n x OR drop_bit (32 - n) x"

definition ch :: "u64 \<Rightarrow> u64 \<Rightarrow> u64 \<Rightarrow> u64" where
  "ch x y z = (x AND y) XOR (NOT x AND z)"

definition maj :: "u64 \<Rightarrow> u64 \<Rightarrow> u64 \<Rightarrow> u64" where
  "maj x y z = (x AND y) XOR (x AND z) XOR (y AND z)"

definition SIGMA0 :: "u64 \<Rightarrow> u64" where
  "SIGMA0 x = rotr64 28 x XOR rotr64 34 x XOR rotr64 39 x"

definition SIGMA1 :: "u64 \<Rightarrow> u64" where
  "SIGMA1 x = rotr64 14 x XOR rotr64 18 x XOR rotr64 41 x"

definition sigma0 :: "u64 \<Rightarrow> u64" where
  "sigma0 x = rotr64 1 x XOR rotr64 8 x XOR shr 7 x"

definition sigma1 :: "u64 \<Rightarrow> u64" where
  "sigma1 x = rotr64 19 x XOR rotr64 61 x XOR shr 6 x"

definition read_int :: "u8 list \<Rightarrow> u64" where
  "read_int data =
     push_bit 56 (ucast (data ! 0)) OR push_bit 48 (ucast (data ! 1)) OR
     push_bit 40 (ucast (data ! 2)) OR push_bit 32 (ucast (data ! 3)) OR
     push_bit 24 (ucast (data ! 4)) OR push_bit 16 (ucast (data ! 5)) OR
     push_bit 8 (ucast (data ! 6)) OR ucast (data ! 7)"

definition read_int32 :: "u8 list \<Rightarrow> u32" where
  "read_int32 data =
     push_bit 24 (ucast (data ! 0)) OR push_bit 16 (ucast (data ! 1)) OR
     push_bit 8 (ucast (data ! 2)) OR ucast (data ! 3)"

definition write_int32 :: "u8 list \<Rightarrow> nat \<Rightarrow> u32 \<Rightarrow> u8 list" where
  "write_int32 data off v =
     data[off + 3 := ucast v, off + 2 := ucast (drop_bit 8 v),
          off + 1 := ucast (drop_bit 16 v), off := ucast (drop_bit 24 v)]"

definition write_int :: "u8 list \<Rightarrow> nat \<Rightarrow> u64 \<Rightarrow> u8 list" where
  "write_int data off v =
     data[off + 7 := ucast v, off + 6 := ucast (drop_bit 8 v),
          off + 5 := ucast (drop_bit 16 v), off + 4 := ucast (drop_bit 24 v),
          off + 3 := ucast (drop_bit 32 v), off + 2 := ucast (drop_bit 40 v),
          off + 1 := ucast (drop_bit 48 v), off := ucast (drop_bit 56 v)]"

definition memcpy :: "u8 list \<Rightarrow> nat \<Rightarrow> u8 list \<Rightarrow> u8 list" where
  "memcpy dst off src = take off dst @ src @ drop (off + length src) dst"

section \<open>SHA-512\<close>

text \<open>The word a little-endian machine finds at an address, and the message schedule.\<close>

definition native_word :: "u8 list \<Rightarrow> u64" where
  "native_word data = read_int (rev (take 8 data))"

definition w_step :: "nat \<Rightarrow> u64 list \<Rightarrow> u64 list" where
  "w_step t W = W[t := sigma1 (W ! (t - 2)) + W ! (t - 7) + sigma0 (W ! (t - 15)) + W ! (t - 16)]"

definition init_w_native_byte_order :: "u8 list \<Rightarrow> u64 list" where
  "init_w_native_byte_order block =
     fold w_step [16..<80] (map (\<lambda>t. native_word (drop (8 * t) block)) [0..<16] @ replicate 64 0)"

definition init_w :: "u8 list \<Rightarrow> u64 list" where
  "init_w block =
     fold w_step [16..<80] (map (\<lambda>t. read_int (drop (8 * t) block)) [0..<16] @ replicate 64 0)"

type_synonym regs512 = "u64 \<times> u64 \<times> u64 \<times> u64 \<times> u64 \<times> u64 \<times> u64 \<times> u64"

fun round512 :: "u64 list \<Rightarrow> nat \<Rightarrow> regs512 \<Rightarrow> regs512" where
  "round512 W t (a, b, c, d, e, f, g, h) =
     (let t1 = h + SIGMA1 e + ch e f g + K512 ! t + W ! t;
          t2 = SIGMA0 a + maj a b c
      in (t1 + t2, a, b, c, d + t1, e, f, g))"

definition compute_sha512 :: "u8 list \<Rightarrow> u64 list \<Rightarrow> bool \<Rightarrow> u64 list" where
  "compute_sha512 block hash native_in =
     (let W = (if native_in then init_w_native_byte_order block else init_w block)
      in case fold (round512 W) [0..<80]
           (hash ! 0, hash ! 1, hash ! 2, hash ! 3, hash ! 4, hash ! 5, hash ! 6, hash ! 7) of
         (a, b, c, d, e, f, g, h) \<Rightarrow>
           [hash ! 0 + a, hash ! 1 + b, hash ! 2 + c, hash ! 3 + d,
            hash ! 4 + e, hash ! 5 + f, hash ! 6 + g, hash ! 7 + h])"

definition sha512 :: "u8 list \<Rightarrow> int \<Rightarrow> u8 list option" where
  "sha512 input bytes =
     (if bytes < 0 then None
      else
        let n = nat bytes;
            bits = (of_int (bytes * 8) :: u32);
            input_blocks = n div 128;
            last1 = replicate 128 (0 :: u8);
            last2 = replicate 128 (0 :: u8);
            last_bytes = n mod 128;
            padding = 128 - last_bytes;
            last1 = (if last_bytes > 0
                     then memcpy last1 0 (take last_bytes (drop (n - last_bytes) input)) else last1);
            (last1, last2) =
              (if padding > 0 then (last1[last_bytes := 0x80], last2)
               else (last1, last2[0 := 0x80]));
            (last1, last2) =
              (if padding < 17 then (last1, write_int last2 (128 - 8) (ucast bits))
               else (write_int last1 (128 - 8) (ucast bits), last2));
            hash = fold (\<lambda>i hash. compute_sha512 (take 128 (drop (128 * i) input)) hash False)
                     [0..<input_blocks] init_H512;
            hash = compute_sha512 last1 hash False;
            hash = (if padding < 17 then compute_sha512 last2 hash False else hash);
            result = fold (\<lambda>i result. write_int result (8 * i) (hash ! i)) [0..<8] (replicate 64 0)
        in Some result)"

definition sha512_bytes :: "u8 list \<Rightarrow> int \<Rightarrow> nat \<Rightarrow> u8 list option" where
  "sha512_bytes data dsize rsize = do {
     sha \<leftarrow> sha512 data dsize;
     Some (if rsize \<le> 64 then take rsize sha else take 64 sha @ replicate (rsize - 64) 0)
   }"

section \<open>SHA-1\<close>

definition native_word32 :: "u8 list \<Rightarrow> u32" where
  "native_word32 data = read_int32 (rev (take 4 data))"

definition w32_step :: "nat \<Rightarrow> u32 list \<Rightarrow> u32 list" where
  "w32_step t W =
     W[t := rotl32 1 (W ! (t - 3) XOR W ! (t - 8) XOR W ! (t - 14) XOR W ! (t - 16))]"

definition init_w32_native_byte_order :: "u8 list \<Rightarrow> u32 list" where
  "init_w32_native_byte_order block =
     fold w32_step [16..<80] (map (\<lambda>t. native_word32 (drop (4 * t) block)) [0..<16] @ replicate 64 0)"

definition init_w32 :: "u8 list \<Rightarrow> u32 list" where
  "init_w32 block =
     fold w32_step [16..<80] (map (\<lambda>t. read_int32 (drop (4 * t) block)) [0..<16] @ replicate 64 0)"

type_synonym regs1 = "u32 \<times> u32 \<times> u32 \<times> u32 \<times> u32"

fun round1 :: "u32 list \<Rightarrow> nat \<Rightarrow> regs1 \<Rightarrow> regs1" where
  "round1 W t (a, b, c, d, e) =
     (let (f, k) =
        (if t < 20 then ((b AND c) OR (NOT b AND d), 0x5a827999)
         else if t < 40 then (b XOR c XOR d, 0x6ed9eba1)
         else if t < 60 then ((b AND c) OR (b AND d) OR (c AND d), 0x8f1bbcdc)
         else (b XOR c XOR d, 0xca62c1d6));
          T = rotl32 5 a + f + e + k + W ! t
      in (T, a, rotl32 30 b, c, d))"

definition compute_sha1 :: "u8 list \<Rightarrow> u32 list \<Rightarrow> bool \<Rightarrow> u32 list" where
  "compute_sha1 block hash native_in =
     (let W = (if native_in then init_w32_native_byte_order block else init_w32 block)
      in case fold (round1 W) [0..<80] (hash ! 0, hash ! 1, hash ! 2, hash ! 3, hash ! 4) of
         (a, b, c, d, e) \<Rightarrow>
           [hash ! 0 + a, hash ! 1 + b, hash ! 2 + c, hash ! 3 + d, hash ! 4 + e])"

definition sha1 :: "u8 list \<Rightarrow> int \<Rightarrow> u8 list option" where
  "sha1 data dsize =
     (if dsize < 0 then None
      else
        let n = nat dsize;
            bits = (of_int (dsize * 8) :: u32);
            input_blocks = n div 64;
            last1 = replicate 64 (0 :: u8);
            last2 = replicate 64 (0 :: u8);
            last_bytes = n mod 64;
            padding = 64 - last_bytes;
            full_blocks_bytes = input_blocks * 64;
            last1 = (if n > full_blocks_bytes
                     then memcpy last1 0 (take (n - full_blocks_bytes) (drop full_blocks_bytes data))
                     else last1);
            last1 = last1[last_bytes := 0x80];
            (last1, last2) =
              (if padding < 9 then (last1, write_int last2 (64 - 8) (ucast bits))
               else (write_int last1 (64 - 8) (ucast bits), last2));
            hash = fold (\<lambda>i hash. compute_sha1 (take 64 (drop (64 * i) data)) hash False)
                     [0..<input_blocks] init_H1;
            hash = compute_sha1 last1 hash False;
            hash = (if padding < 9 then compute_sha1 last2 hash False else hash);
            result = fold (\<lambda>i result. write_int32 result (4 * i) (hash ! i)) [0..<5] (replicate 20 0)
        in Some result)"

text \<open>
  \<open>sha1_bytes\<close> hands its 20-byte array to \<open>sha512\<close>, which writes 64 bytes: the write past the
  end of the array is undefined, \<open>None\<close> here.
\<close>

definition sha1_bytes :: "u8 list \<Rightarrow> int \<Rightarrow> nat \<Rightarrow> u8 list option" where
  "sha1_bytes data dsize rsize = do {
     h \<leftarrow> sha512 data dsize;
     sha \<leftarrow> (if length h \<le> 20 then Some h else None);
     Some (if rsize \<le> 20 then take rsize sha else take 20 sha @ replicate (rsize - 20) 0)
   }"

section \<open>HMAC\<close>

text \<open>\<open>malloc_ok\<close> says whether \<open>malloc\<close> finds the memory when the stack buffer is too small.\<close>

definition malloc_concat :: "bool \<Rightarrow> u8 list \<Rightarrow> u8 list \<Rightarrow> nat \<Rightarrow> (u8 list \<times> bool) option" where
  "malloc_concat malloc_ok s1 s2 bsize =
     (let sz = length s1 + length s2;
          allocate = sz > bsize
      in if allocate \<and> \<not> malloc_ok then None else Some (s1 @ s2, allocate))"

definition sha512hmac :: "bool \<Rightarrow> u8 list \<Rightarrow> u8 list \<Rightarrow> u8 list option" where
  "sha512hmac malloc_ok data key = do {
     let key_copy = replicate 128 (0 :: u8);
     key_copy \<leftarrow> (if length key \<le> 128 then Some (memcpy key_copy 0 key)
                  else do { h \<leftarrow> sha512 key (int (length key)); Some (memcpy key_copy 0 h) });
     let ipad = map (\<lambda>b. 0x36 XOR b) key_copy;
     let opad = map (\<lambda>b. 0x5c XOR b) key_copy;
     (data1, allocated) \<leftarrow> malloc_concat malloc_ok ipad data 20000;
     hash1 \<leftarrow> sha512 data1 (128 + int (length data));
     sha512 (opad @ hash1) (128 + 64)
   }"

section \<open>The reference: pad, cut into blocks, fold\<close>

definition bytes_of64 :: "u64 \<Rightarrow> u8 list" where
  "bytes_of64 v = [ucast (drop_bit 56 v), ucast (drop_bit 48 v), ucast (drop_bit 40 v),
     ucast (drop_bit 32 v), ucast (drop_bit 24 v), ucast (drop_bit 16 v),
     ucast (drop_bit 8 v), ucast v]"

definition bytes_of32 :: "u32 \<Rightarrow> u8 list" where
  "bytes_of32 v = [ucast (drop_bit 24 v), ucast (drop_bit 16 v), ucast (drop_bit 8 v), ucast v]"

definition chunks :: "nat \<Rightarrow> 'a list \<Rightarrow> 'a list list" where
  "chunks B xs = map (\<lambda>i. take B (drop (B * i) xs)) [0..<length xs div B]"

text \<open>
  The padded message: a one bit, zeros up to a whole number of blocks, and the length in bits
  as a number of \<open>L\<close> bytes.
\<close>

definition md_pad :: "nat \<Rightarrow> nat \<Rightarrow> u8 list \<Rightarrow> u8 list" where
  "md_pad B L m = m @ 0x80 # replicate ((B - (length m + 1 + L) mod B) mod B) 0 @
     replicate (L - 8) 0 @ bytes_of64 (of_nat (8 * length m))"

definition md_hash :: "nat \<Rightarrow> nat \<Rightarrow> (u8 list \<Rightarrow> 's \<Rightarrow> 's) \<Rightarrow> 's \<Rightarrow> u8 list \<Rightarrow> 's" where
  "md_hash B L compress start m = fold compress (chunks B (md_pad B L m)) start"

text \<open>What the code does: the full blocks in place, then one or two blocks it builds.\<close>

definition md_code ::
  "nat \<Rightarrow> nat \<Rightarrow> (u8 list \<Rightarrow> 's \<Rightarrow> 's) \<Rightarrow> 's \<Rightarrow> u8 list \<Rightarrow> u64 \<Rightarrow> 's" where
  "md_code B L compress start m bits =
     (let r = length m mod B;
          q = length m div B;
          hash = fold (\<lambda>i. compress (take B (drop (B * i) m))) [0..<q] start;
          rest = drop (B * q) m @ [0x80]
      in if B - r < L + 1
         then compress (replicate (B - 8) 0 @ bytes_of64 bits)
                (compress (rest @ replicate (B - 1 - r) 0) hash)
         else compress (rest @ replicate (B - 9 - r) 0 @ bytes_of64 bits) hash)"

lemma length_bytes_of64 [simp]: "length (bytes_of64 v) = 8"
  by (simp add: bytes_of64_def)

lemma length_bytes_of32 [simp]: "length (bytes_of32 v) = 4"
  by (simp add: bytes_of32_def)

lemma chunks_Nil [simp]: "chunks B [] = []"
  by (simp add: chunks_def)

lemma chunks_append:
  assumes "0 < B" and "length a = B * q"
  shows "chunks B (a @ b) = map (\<lambda>i. take B (drop (B * i) a)) [0..<q] @ chunks B b"
proof -
  let ?k = "length b div B"
  have n: "length (a @ b) div B = q + ?k" using assms by simp
  have split: "[0..<q + k] = [0..<q] @ map (\<lambda>i. q + i) [0..<k]" for k
    by (induction k) simp_all
  have low: "take B (drop (B * i) (a @ b)) = take B (drop (B * i) a)" if "i < q" for i
  proof -
    have "B * (i + 1) \<le> B * q" using that by (intro mult_le_mono2) simp
    then show ?thesis using assms by simp
  qed
  have high: "take B (drop (B * (q + i)) (a @ b)) = take B (drop (B * i) b)" for i
    using assms by (simp add: distrib_left)
  have "map (\<lambda>i. take B (drop (B * i) (a @ b))) [0..<q] = map (\<lambda>i. take B (drop (B * i) a)) [0..<q]"
    by (intro map_cong refl low) simp
  then show ?thesis by (simp only: chunks_def n split map_append map_map comp_def high)
qed

lemma chunks_one: "0 < B \<Longrightarrow> length x = B \<Longrightarrow> chunks B (x @ b) = x # chunks B b"
  using chunks_append [of B x 1 b] by simp

lemma chunks_last:
  "0 < B \<Longrightarrow> length a = B * q \<Longrightarrow> length x = B \<Longrightarrow>
    chunks B (a @ x) = map (\<lambda>i. take B (drop (B * i) a)) [0..<q] @ [x]"
  using chunks_append [of B a q x] chunks_one [of B x "[]"] by simp

lemma chunks_last_two:
  "0 < B \<Longrightarrow> length a = B * q \<Longrightarrow> length x = B \<Longrightarrow> length y = B \<Longrightarrow>
    chunks B (a @ x @ y) = map (\<lambda>i. take B (drop (B * i) a)) [0..<q] @ [x, y]"
  using chunks_append [of B a q "x @ y"] chunks_one [of B x y] chunks_one [of B y "[]"] by simp

locale padded_hash =
  fixes B L :: nat
    and compress :: "u8 list \<Rightarrow> 's \<Rightarrow> 's"
  assumes length_field: "8 \<le> L" and block_room: "L < B"
begin

lemma zeros:
  assumes "length m = B * q + r" "r < B"
  shows "(B - (length m + 1 + L) mod B) mod B = (if B - r < L + 1 then 2 * B - r - 1 - L else B - r - 1 - L)"
proof (cases "B - r < L + 1")
  case True
  define z where "z = r + 1 + L - B"
  have z: "length m + 1 + L = z + B * (q + 1)" "z < B" "0 < z" "B - z = 2 * B - r - 1 - L"
    using assms block_room True by (simp_all add: z_def)
  then have "(length m + 1 + L) mod B = z" by (simp only: mod_mult_self2 mod_less)
  with True z show ?thesis by simp
next
  case False
  define z where "z = r + 1 + L"
  have z: "length m + 1 + L = z + B * q" "z \<le> B" "0 < z" using assms False by (simp_all add: z_def)
  show ?thesis
  proof (cases "z = B")
    case True
    then have "(length m + 1 + L) mod B = 0" unfolding z(1) by simp
    with False True show ?thesis by (simp add: z_def)
  next
    case less: False
    then have "(length m + 1 + L) mod B = z" using z by simp
    with False less z show ?thesis by (simp add: z_def)
  qed
qed

lemma code_is_reference:
  "md_code B L compress start m (of_nat (8 * length m)) = md_hash B L compress start m"
proof -
  define q r where "q = length m div B" and "r = length m mod B"
  have B: "0 < B" using block_room by simp
  have n: "length m = B * q + r" and r: "r < B" using B by (simp_all add: q_def r_def)
  let ?a = "take (B * q) m" and ?rest = "drop (B * q) m"
  let ?len = "bytes_of64 (of_nat (8 * length m))"
  let ?z = "(B - (length m + 1 + L) mod B) mod B"
  have la: "length ?a = B * q" and lr: "length ?rest = r" using n by simp_all
  have body: "take B (drop (B * i) ?a) = take B (drop (B * i) m)" if "i < q" for i
  proof -
    have "B * (i + 1) \<le> B * q" using that by (intro mult_le_mono2) simp
    then show ?thesis by (simp add: drop_take min_def)
  qed
  define hash where "hash = fold (\<lambda>i. compress (take B (drop (B * i) m))) [0..<q] start"
  have head: "fold compress (map (\<lambda>i. take B (drop (B * i) ?a)) [0..<q]) start = hash"
    unfolding hash_def fold_map comp_def by (rule fold_cong) (simp_all add: body)
  have pad: "md_pad B L m = ?a @ (?rest @ 0x80 # replicate (?z + (L - 8)) 0 @ ?len)"
    by (simp add: md_pad_def replicate_add)
  show ?thesis
  proof (cases "B - r < L + 1")
    case True
    have "?z + (L - 8) = (B - 1 - r) + (B - 8)"
      using zeros [OF n r] True length_field block_room r by simp
    then have "md_pad B L m = ?a @ (?rest @ 0x80 # replicate (B - 1 - r) 0) @ (replicate (B - 8) 0 @ ?len)"
      unfolding pad by (simp add: replicate_add)
    moreover have "length (?rest @ 0x80 # replicate (B - 1 - r) 0) = B"
      "length (replicate (B - 8) 0 @ ?len) = B"
      using lr r length_field block_room by simp_all
    ultimately have "chunks B (md_pad B L m) = map (\<lambda>i. take B (drop (B * i) ?a)) [0..<q] @
        [?rest @ 0x80 # replicate (B - 1 - r) 0, replicate (B - 8) 0 @ ?len]"
      by (simp only: chunks_last_two [OF B la])
    then have "md_hash B L compress start m = compress (replicate (B - 8) 0 @ ?len)
        (compress (?rest @ 0x80 # replicate (B - 1 - r) 0) hash)"
      by (simp add: md_hash_def head)
    then show ?thesis using True by (simp add: md_code_def Let_def hash_def flip: q_def r_def)
  next
    case False
    have "?z + (L - 8) = B - 9 - r"
      using zeros [OF n r] False length_field block_room r by simp
    then have "md_pad B L m = ?a @ (?rest @ 0x80 # replicate (B - 9 - r) 0 @ ?len)"
      unfolding pad by simp
    moreover have "length (?rest @ 0x80 # replicate (B - 9 - r) 0 @ ?len) = B"
      using lr r length_field False by simp
    ultimately have "chunks B (md_pad B L m) = map (\<lambda>i. take B (drop (B * i) ?a)) [0..<q] @
        [?rest @ 0x80 # replicate (B - 9 - r) 0 @ ?len]"
      by (simp only: chunks_last [OF B la])
    then have "md_hash B L compress start m =
        compress (?rest @ 0x80 # replicate (B - 9 - r) 0 @ ?len) hash"
      by (simp add: md_hash_def head)
    then show ?thesis using False by (simp add: md_code_def Let_def hash_def flip: q_def r_def)
  qed
qed

end

interpretation sha512_padding: padded_hash 128 16 "\<lambda>block hash. compute_sha512 block hash False"
  by unfold_locales simp_all

interpretation sha1_padding: padded_hash 64 8 "\<lambda>block hash. compute_sha1 block hash False"
  by unfold_locales simp_all

lemma write_int_mid:
  assumes "length z = 8" and "n = length xs"
  shows "write_int (xs @ z @ ys) n v = xs @ bytes_of64 v @ ys"
proof -
  obtain a b c d e f g h where "z = [a, b, c, d, e, f, g, h]"
    using assms(1) by (auto simp: numeral_eq_Suc length_Suc_conv)
  then show ?thesis
    by (simp add: write_int_def bytes_of64_def assms(2) list_update_append)
qed

lemma write_int32_mid:
  assumes "length z = 4" and "n = length xs"
  shows "write_int32 (xs @ z @ ys) n v = xs @ bytes_of32 v @ ys"
proof -
  obtain a b c d where "z = [a, b, c, d]"
    using assms(1) by (auto simp: numeral_eq_Suc length_Suc_conv)
  then show ?thesis
    by (simp add: write_int32_def bytes_of32_def assms(2) list_update_append)
qed

lemma write_int_zeros:
  "8 + length xs \<le> n \<Longrightarrow> write_int (xs @ replicate (n - length xs) 0) (n - 8) v =
     xs @ replicate (n - 8 - length xs) 0 @ bytes_of64 v"
  using write_int_mid [of "replicate 8 0" "n - 8" "xs @ replicate (n - 8 - length xs) 0" "[]" v]
    replicate_add [of "n - 8 - length xs" 8 "0 :: u8"] by simp

lemma length_concat_bytes [simp]:
  "length (concat (map bytes_of64 ws)) = 8 * length ws"
  "length (concat (map bytes_of32 vs)) = 4 * length vs"
  by (induction ws, simp_all) (induction vs, simp_all)

lemma write_words:
  assumes "k \<le> n" and "n \<le> length hash"
  shows "fold (\<lambda>i res. write_int res (8 * i) (hash ! i)) [0..<k] (replicate (8 * n) 0) =
    concat (map bytes_of64 (take k hash)) @ replicate (8 * (n - k)) 0"
  using assms
proof (induction k)
  case 0
  then show ?case by simp
next
  case (Suc k)
  have "replicate (8 * (n - k)) (0 :: u8) = replicate 8 0 @ replicate (8 * (n - Suc k)) 0"
    using Suc.prems replicate_add [of 8 "8 * (n - Suc k)" "0 :: u8"]
    by (simp add: Suc_diff_Suc [symmetric])
  with Suc show ?case
    by (simp add: write_int_mid take_Suc_conv_app_nth)
qed

lemma write_words32:
  assumes "k \<le> n" and "n \<le> length hash"
  shows "fold (\<lambda>i res. write_int32 res (4 * i) (hash ! i)) [0..<k] (replicate (4 * n) 0) =
    concat (map bytes_of32 (take k hash)) @ replicate (4 * (n - k)) 0"
  using assms
proof (induction k)
  case 0
  then show ?case by simp
next
  case (Suc k)
  have "replicate (4 * (n - k)) (0 :: u8) = replicate 4 0 @ replicate (4 * (n - Suc k)) 0"
    using Suc.prems replicate_add [of 4 "4 * (n - Suc k)" "0 :: u8"]
    by (simp add: Suc_diff_Suc [symmetric])
  with Suc show ?case
    by (simp add: write_int32_mid take_Suc_conv_app_nth)
qed

lemma length_compute_sha512 [simp]: "length (compute_sha512 block hash b) = 8"
  by (simp add: compute_sha512_def Let_def split: prod.splits)

lemma length_compute_sha1 [simp]: "length (compute_sha1 block hash b) = 5"
  by (simp add: compute_sha1_def Let_def split: prod.splits)

lemma length_md_code:
  assumes "\<And>block h. length (compress block h) = n"
  shows "length (md_code B L compress start m bits) = n"
  by (simp add: md_code_def Let_def assms)

lemma length_memcpy [simp]: "off + length src \<le> length dst \<Longrightarrow> length (memcpy dst off src) = length dst"
  by (simp add: memcpy_def)

lemma memcpy_start: "length src \<le> n \<Longrightarrow> memcpy (replicate n z) 0 src = src @ replicate (n - length src) z"
  by (simp add: memcpy_def)

lemma bits_word:
  "8 * n < 2 ^ 31 \<Longrightarrow> (ucast (of_int (int n * 8) :: u32) :: u64) = of_nat (8 * n)"
proof -
  assume n: "8 * n < 2 ^ 31"
  have "unat (ucast (of_int (int n * 8) :: u32) :: u64) = 8 * n"
  proof -
    have "(of_int (int n * 8) :: u32) = of_nat (8 * n)" by (simp add: mult.commute)
    then have "unat (of_int (int n * 8) :: u32) = 8 * n" using n by (simp only: unat_of_nat) simp
    then show ?thesis using n by (simp only: unsigned_ucast_eq) (simp add: take_bit_nat_eq_self)
  qed
  moreover have "unat (of_nat (8 * n) :: u64) = 8 * n" using n by (simp only: unat_of_nat) simp
  ultimately show ?thesis by (metis word_unat_eq_iff)
qed

abbreviation sha512_spec :: "u8 list \<Rightarrow> u64 list" where
  "sha512_spec \<equiv> md_hash 128 16 (\<lambda>block hash. compute_sha512 block hash False) init_H512"

abbreviation sha1_spec :: "u8 list \<Rightarrow> u32 list" where
  "sha1_spec \<equiv> md_hash 64 8 (\<lambda>block hash. compute_sha1 block hash False) init_H1"

lemma pad_byte: "n = length xs \<Longrightarrow> 0 < k \<Longrightarrow>
    (xs @ replicate k z)[n := y] = (xs @ [y]) @ replicate (k - 1) z"
  by (cases k) (simp_all add: list_update_append)

lemma sha512_run:
  assumes "8 * length m < 2 ^ 31"
  shows "sha512 m (int (length m)) = Some (concat (map bytes_of64 (sha512_spec m)))"
    and "length (sha512_spec m) = 8"
proof -
  let ?c = "\<lambda>block hash. compute_sha512 block hash False"
  define n r q where "n = length m" and "r = n mod 128" and "q = n div 128"
  define rest where "rest = drop (128 * q) m"
  have n: "n = 128 * q + r" by (simp add: q_def r_def)
  have r: "r < 128" by (simp add: r_def)
  have lr: "length rest = r" using n by (simp add: rest_def flip: n_def)
  define bits where "bits = (ucast (of_int (int n * 8) :: u32) :: u64)"
  define hash where "hash = fold (\<lambda>i hash. ?c (take 128 (drop (128 * i) m)) hash) [0..<q] init_H512"
  have copy: "(if r > 0 then memcpy (replicate 128 0) 0 (take r (drop (n - r) m)) else replicate 128 0) =
      rest @ replicate (128 - r) 0"
  proof (cases "r = 0")
    case True
    with lr show ?thesis by simp
  next
    case False
    have "n - r = 128 * q" using n by simp
    then have "take r (drop (n - r) m) = rest" using lr by (simp add: rest_def)
    with False lr r show ?thesis by (simp add: memcpy_start)
  qed
  have pad: "(rest @ replicate (128 - r) 0)[r := 0x80] = (rest @ [0x80]) @ replicate (127 - r) 0"
    using pad_byte [of r rest "128 - r"] lr r by simp
  have long: "128 - r < 17 \<Longrightarrow> write_int (replicate 128 0) (128 - 8) bits = replicate 120 0 @ bytes_of64 bits"
    using write_int_zeros [of "[]" 128 bits] by simp
  have short: "\<not> 128 - r < 17 \<Longrightarrow> write_int ((rest @ [0x80]) @ replicate (127 - r) 0) (128 - 8) bits =
      (rest @ [0x80]) @ replicate (119 - r) 0 @ bytes_of64 bits"
    using write_int_zeros [of "rest @ [0x80]" 128 bits] lr by simp
  define h where "h = md_code 128 16 ?c init_H512 m bits"
  have h: "h = (if 128 - r < 17 then ?c (replicate 120 0 @ bytes_of64 bits)
        (?c ((rest @ [0x80]) @ replicate (127 - r) 0) hash)
      else ?c ((rest @ [0x80]) @ replicate (119 - r) 0 @ bytes_of64 bits) hash)"
    by (simp add: h_def md_code_def Let_def hash_def rest_def r_def q_def n_def)
  have lh: "length h = 8" unfolding h_def by (rule length_md_code) simp
  have words: "fold (\<lambda>i res. write_int res (8 * i) (h ! i)) [0..<8] (replicate 64 0) =
      concat (map bytes_of64 h)"
    using write_words [of 8 8 h] lh by simp
  have pos: "128 - r > 0" using r by simp
  have "sha512 m (int n) = Some (fold (\<lambda>i res. write_int res (8 * i) (h ! i)) [0..<8] (replicate 64 0))"
    unfolding sha512_def h by (cases "128 - r < 17")
      (simp_all only: Let_def nat_int copy pad long short hash_def pos prod.case
        if_True if_False not_False_eq_True of_nat_less_0_iff r_def [symmetric] q_def [symmetric] bits_def [symmetric])
  then have run: "sha512 m (int n) = Some (concat (map bytes_of64 h))" by (simp only: words)
  have "bits = of_nat (8 * length m)" using bits_word [of n] assms by (simp add: bits_def n_def)
  then have "h = sha512_spec m"
    unfolding h_def by (simp only: sha512_padding.code_is_reference)
  with run lh show "sha512 m (int (length m)) = Some (concat (map bytes_of64 (sha512_spec m)))"
    and "length (sha512_spec m) = 8" by (simp_all add: n_def)
qed

lemma sha1_run:
  assumes "8 * length m < 2 ^ 31"
  shows "sha1 m (int (length m)) = Some (concat (map bytes_of32 (sha1_spec m)))"
    and "length (sha1_spec m) = 5"
proof -
  let ?c = "\<lambda>block hash. compute_sha1 block hash False"
  define n r q where "n = length m" and "r = n mod 64" and "q = n div 64"
  define rest where "rest = drop (q * 64) m"
  have n: "n = q * 64 + r" by (simp add: q_def r_def)
  have r: "r < 64" by (simp add: r_def)
  have lr: "length rest = r" using n by (simp add: rest_def flip: n_def)
  define bits where "bits = (ucast (of_int (int n * 8) :: u32) :: u64)"
  define hash where "hash = fold (\<lambda>i hash. ?c (take 64 (drop (64 * i) m)) hash) [0..<q] init_H1"
  have copy: "(if n > q * 64 then memcpy (replicate 64 0) 0 (take (n - q * 64) (drop (q * 64) m))
      else replicate 64 0) = rest @ replicate (64 - r) 0"
  proof (cases "r = 0")
    case True
    with lr n show ?thesis by simp
  next
    case False
    have "take (n - q * 64) (drop (q * 64) m) = rest" using lr n by (simp add: rest_def)
    with False lr r n show ?thesis by (simp add: memcpy_start)
  qed
  have pad: "(rest @ replicate (64 - r) 0)[r := 0x80] = (rest @ [0x80]) @ replicate (63 - r) 0"
    using pad_byte [of r rest "64 - r"] lr r by simp
  have long: "64 - r < 9 \<Longrightarrow> write_int (replicate 64 0) (64 - 8) bits = replicate 56 0 @ bytes_of64 bits"
    using write_int_zeros [of "[]" 64 bits] by simp
  have short: "\<not> 64 - r < 9 \<Longrightarrow> write_int ((rest @ [0x80]) @ replicate (63 - r) 0) (64 - 8) bits =
      (rest @ [0x80]) @ replicate (55 - r) 0 @ bytes_of64 bits"
    using write_int_zeros [of "rest @ [0x80]" 64 bits] lr by simp
  define h where "h = md_code 64 8 ?c init_H1 m bits"
  have h: "h = (if 64 - r < 9 then ?c (replicate 56 0 @ bytes_of64 bits)
        (?c ((rest @ [0x80]) @ replicate (63 - r) 0) hash)
      else ?c ((rest @ [0x80]) @ replicate (55 - r) 0 @ bytes_of64 bits) hash)"
    by (simp add: h_def md_code_def Let_def hash_def rest_def r_def q_def n_def mult.commute)
  have lh: "length h = 5" unfolding h_def by (rule length_md_code) simp
  have words: "fold (\<lambda>i res. write_int32 res (4 * i) (h ! i)) [0..<5] (replicate 20 0) =
      concat (map bytes_of32 h)"
    using write_words32 [of 5 5 h] lh by simp
  have "sha1 m (int n) = Some (fold (\<lambda>i res. write_int32 res (4 * i) (h ! i)) [0..<5] (replicate 20 0))"
    unfolding sha1_def h by (cases "64 - r < 9")
      (simp_all only: Let_def nat_int copy pad long short hash_def prod.case
        if_True if_False not_False_eq_True of_nat_less_0_iff r_def [symmetric] q_def [symmetric]
        bits_def [symmetric])
  then have run: "sha1 m (int n) = Some (concat (map bytes_of32 h))" by (simp only: words)
  have "bits = of_nat (8 * length m)" using bits_word [of n] assms by (simp add: bits_def n_def)
  then have "h = sha1_spec m"
    unfolding h_def by (simp only: sha1_padding.code_is_reference)
  with run lh show "sha1 m (int (length m)) = Some (concat (map bytes_of32 (sha1_spec m)))"
    and "length (sha1_spec m) = 5" by (simp_all add: n_def)
qed

section \<open>The HMAC\<close>

text \<open>RFC 2104 over the reference hash: a long key is hashed, and a short one filled up.\<close>

definition sha512_digest :: "u8 list \<Rightarrow> u8 list" where
  "sha512_digest m = concat (map bytes_of64 (sha512_spec m))"

definition hmac_key :: "u8 list \<Rightarrow> u8 list" where
  "hmac_key key =
     (let k = (if length key \<le> 128 then key else sha512_digest key)
      in k @ replicate (128 - length k) 0)"

definition hmac_spec :: "u8 list \<Rightarrow> u8 list \<Rightarrow> u8 list" where
  "hmac_spec data key =
     sha512_digest (map ((XOR) 0x5c) (hmac_key key) @
       sha512_digest (map ((XOR) 0x36) (hmac_key key) @ data))"

lemma length_sha512_digest: "8 * length m < 2 ^ 31 \<Longrightarrow> length (sha512_digest m) = 64"
  using sha512_run(2) [of m] by (simp add: sha512_digest_def)

lemma sha512_digest_run: "8 * length m < 2 ^ 31 \<Longrightarrow> sha512 m (int (length m)) = Some (sha512_digest m)"
  by (simp add: sha512_digest_def sha512_run(1))

lemma length_hmac_key: "8 * length key < 2 ^ 31 \<Longrightarrow> length (hmac_key key) = 128"
  using length_sha512_digest [of key] by (simp add: hmac_key_def Let_def)

lemma sha512hmac_run:
  assumes "8 * (length data + 128) < 2 ^ 31" and "8 * length key < 2 ^ 31"
    and "malloc_ok \<or> length data + 128 \<le> 20000"
  shows "sha512hmac malloc_ok data key = Some (hmac_spec data key)"
proof -
  let ?ipad = "map ((XOR) 0x36) (hmac_key key)" and ?opad = "map ((XOR) 0x5c) (hmac_key key)"
  have lk: "length (hmac_key key) = 128" by (rule length_hmac_key [OF assms(2)])
  have copy: "(if length key \<le> 128 then Some (memcpy (replicate 128 0) 0 key)
      else sha512 key (int (length key)) \<bind> (\<lambda>h. Some (memcpy (replicate 128 0) 0 h))) =
      Some (hmac_key key)"
    using sha512_digest_run [OF assms(2)] length_sha512_digest [OF assms(2)]
    by (simp add: memcpy_start hmac_key_def)
  have inner: "sha512 (?ipad @ data) (128 + int (length data)) = Some (sha512_digest (?ipad @ data))"
    using sha512_digest_run [of "?ipad @ data"] assms(1) lk by simp
  have "length (sha512_digest (?ipad @ data)) = 64"
    using length_sha512_digest [of "?ipad @ data"] assms(1) lk by simp
  then have outer: "sha512 (?opad @ sha512_digest (?ipad @ data)) (128 + 64) = Some (hmac_spec data key)"
    using sha512_digest_run [of "?opad @ sha512_digest (?ipad @ data)"] lk by (simp add: hmac_spec_def)
  have alloc: "malloc_concat malloc_ok ?ipad data 20000 = Some (?ipad @ data, 20000 < 128 + length data)"
    using assms(3) lk by (auto simp: malloc_concat_def)
  show ?thesis
    unfolding sha512hmac_def Let_def copy bind.simps alloc prod.case inner outer by (rule refl)
qed

lemma sha512hmac_value:
  assumes "length data + 128 < 2 ^ 28" and "length key < 2 ^ 28"
    and "malloc_ok \<or> length data + 128 \<le> 20000"
  shows "sha512hmac malloc_ok data key = Some (hmac_spec data key) \<and>
    length (hmac_spec data key) = 64"
proof -
  have data: "8 * (length data + 128) < 2 ^ 31" and key: "8 * length key < 2 ^ 31"
    using assms(1,2) by simp_all
  have lk: "length (hmac_key key) = 128" by (rule length_hmac_key [OF key])
  have "length (sha512_digest (map ((XOR) 0x36) (hmac_key key) @ data)) = 64"
    using length_sha512_digest data lk by simp
  then have "length (hmac_spec data key) = 64"
    unfolding hmac_spec_def using lk by (intro length_sha512_digest) simp
  with sha512hmac_run [OF data key assms(3)] show ?thesis by simp
qed

section \<open>Properties\<close>

text \<open>
  C16: \<open>sha512\<close> is SHA-512: for every message below \<open>2 ^ 28\<close> bytes, the blocks it processes
  in place and the one or two blocks it builds are the blocks of the padded message of
  FIPS 180-4, so the result is the fold of the compression function over them, 64 bytes, and
  \<open>sha512_bytes\<close> is that result cut, or filled up with zeros, to the size asked for.
\<close>

theorem sha512_correct:
  assumes "length m < 2 ^ 28"
  shows "\<exists>digest. sha512 m (int (length m)) = Some digest \<and> length digest = 64 \<and>
    digest = concat (map bytes_of64
      (fold (\<lambda>block hash. compute_sha512 block hash False) (chunks 128 (md_pad 128 16 m)) init_H512)) \<and>
    sha512_bytes m (int (length m)) n = Some (take n (digest @ replicate (n - 64) 0))"
proof -
  have "8 * length m < 2 ^ 31" using assms by simp
  note run = sha512_run [OF this]
  show ?thesis
    unfolding sha512_bytes_def run(1) by (auto simp: md_hash_def run(2) [unfolded md_hash_def])
qed

theorem sha512_correct_witness:
  "\<exists>digest. sha512 [0x61, 0x62, 0x63] 3 = Some digest \<and> length digest = 64 \<and>
    sha512_bytes [0x61, 0x62, 0x63] 3 16 = Some (take 16 digest)"
  using sha512_correct [of "[0x61, 0x62, 0x63]" 16] by auto

text \<open>
  \<open>sha1\<close> is SHA-1 in the same sense: the fold of its compression function over the blocks
  of 64 bytes of the padded message, written as 20 bytes.
\<close>

theorem sha1_correct:
  assumes "length m < 2 ^ 28"
  shows "\<exists>digest. sha1 m (int (length m)) = Some digest \<and> length digest = 20 \<and>
    digest = concat (map bytes_of32
      (fold (\<lambda>block hash. compute_sha1 block hash False) (chunks 64 (md_pad 64 8 m)) init_H1))"
proof -
  have "8 * length m < 2 ^ 31" using assms by simp
  note run = sha1_run [OF this]
  show ?thesis unfolding run(1) by (auto simp: md_hash_def run(2) [unfolded md_hash_def])
qed

theorem sha1_correct_witness:
  "\<exists>digest. sha1 [0x61, 0x62, 0x63] 3 = Some digest \<and> length digest = 20"
  using sha1_correct [of "[0x61, 0x62, 0x63]"] by auto

text \<open>
  C40: \<open>sha512hmac\<close> is HMAC-SHA-512 of RFC 2104, for keys shorter and longer than a block,
  whether the padded data fits the stack buffer or is put in allocated memory.
\<close>

theorem sha512hmac_correct:
  assumes "length data + 128 < 2 ^ 28" and "length key < 2 ^ 28"
    and "malloc_ok \<or> length data + 128 \<le> 20000"
  shows "sha512hmac malloc_ok data key = Some (hmac_spec data key) \<and>
    length (hmac_spec data key) = 64"
  by (rule sha512hmac_value [OF assms])

theorem sha512hmac_correct_witness:
  "sha512hmac False [1, 2, 3] [4, 5] = Some (hmac_spec [1, 2, 3] [4, 5]) \<and>
    length (hmac_spec [1, 2, 3] [4, 5]) = 64"
  using sha512hmac_correct [of "[1, 2, 3]" "[4, 5]" False] by simp

text \<open>
  \<open>sha1_bytes\<close> calls \<open>sha512\<close>, not \<open>sha1\<close>: the 64 bytes it writes never fit the array of 20.
\<close>

theorem sha1_bytes_overflows:
  assumes "length m < 2 ^ 28"
  shows "sha1_bytes m (int (length m)) n = None"
proof -
  have "8 * length m < 2 ^ 31" using assms by simp
  note run = sha512_run [OF this]
  show ?thesis unfolding sha1_bytes_def run(1) by (simp add: run(2))
qed

end
