(* ===== verification/AesCipher.thy ===== *)
theory AesCipher
  imports AllnetPrelude "HOL-Library.Monad_Syntax"
begin

text \<open>
  \<open>lib/wp_aes.c\<close>: AES with 256-bit keys. The \<open>int\<close> variables of the code that hold bytes are
  bytes here, a state is the list of its four columns, and a column is a 32-bit word with its
  first byte in the high position, as in the code.
\<close>

section \<open>Tables\<close>

definition L :: "int list" where
  "L =
    [-1, 0xff, 0x19, 0x01, 0x32, 0x02, 0x1a, 0xc6,
     0x4b, 0xc7, 0x1b, 0x68, 0x33, 0xee, 0xdf, 0x03,
     0x64, 0x04, 0xe0, 0x0e, 0x34, 0x8d, 0x81, 0xef,
     0x4c, 0x71, 0x08, 0xc8, 0xf8, 0x69, 0x1c, 0xc1,
     0x7d, 0xc2, 0x1d, 0xb5, 0xf9, 0xb9, 0x27, 0x6a,
     0x4d, 0xe4, 0xa6, 0x72, 0x9a, 0xc9, 0x09, 0x78,
     0x65, 0x2f, 0x8a, 0x05, 0x21, 0x0f, 0xe1, 0x24,
     0x12, 0xf0, 0x82, 0x45, 0x35, 0x93, 0xda, 0x8e,
     0x96, 0x8f, 0xdb, 0xbd, 0x36, 0xd0, 0xce, 0x94,
     0x13, 0x5c, 0xd2, 0xf1, 0x40, 0x46, 0x83, 0x38,
     0x66, 0xdd, 0xfd, 0x30, 0xbf, 0x06, 0x8b, 0x62,
     0xb3, 0x25, 0xe2, 0x98, 0x22, 0x88, 0x91, 0x10,
     0x7e, 0x6e, 0x48, 0xc3, 0xa3, 0xb6, 0x1e, 0x42,
     0x3a, 0x6b, 0x28, 0x54, 0xfa, 0x85, 0x3d, 0xba,
     0x2b, 0x79, 0x0a, 0x15, 0x9b, 0x9f, 0x5e, 0xca,
     0x4e, 0xd4, 0xac, 0xe5, 0xf3, 0x73, 0xa7, 0x57,
     0xaf, 0x58, 0xa8, 0x50, 0xf4, 0xea, 0xd6, 0x74,
     0x4f, 0xae, 0xe9, 0xd5, 0xe7, 0xe6, 0xad, 0xe8,
     0x2c, 0xd7, 0x75, 0x7a, 0xeb, 0x16, 0x0b, 0xf5,
     0x59, 0xcb, 0x5f, 0xb0, 0x9c, 0xa9, 0x51, 0xa0,
     0x7f, 0x0c, 0xf6, 0x6f, 0x17, 0xc4, 0x49, 0xec,
     0xd8, 0x43, 0x1f, 0x2d, 0xa4, 0x76, 0x7b, 0xb7,
     0xcc, 0xbb, 0x3e, 0x5a, 0xfb, 0x60, 0xb1, 0x86,
     0x3b, 0x52, 0xa1, 0x6c, 0xaa, 0x55, 0x29, 0x9d,
     0x97, 0xb2, 0x87, 0x90, 0x61, 0xbe, 0xdc, 0xfc,
     0xbc, 0x95, 0xcf, 0xcd, 0x37, 0x3f, 0x5b, 0xd1,
     0x53, 0x39, 0x84, 0x3c, 0x41, 0xa2, 0x6d, 0x47,
     0x14, 0x2a, 0x9e, 0x5d, 0x56, 0xf2, 0xd3, 0xab,
     0x44, 0x11, 0x92, 0xd9, 0x23, 0x20, 0x2e, 0x89,
     0xb4, 0x7c, 0xb8, 0x26, 0x77, 0x99, 0xe3, 0xa5,
     0x67, 0x4a, 0xed, 0xde, 0xc5, 0x31, 0xfe, 0x18,
     0x0d, 0x63, 0x8c, 0x80, 0xc0, 0xf7, 0x70, 0x07]"

definition F :: "u8 list" where
  "F =
    [0x01, 0x03, 0x05, 0x0f, 0x11, 0x33, 0x55, 0xff,
     0x1a, 0x2e, 0x72, 0x96, 0xa1, 0xf8, 0x13, 0x35,
     0x5f, 0xe1, 0x38, 0x48, 0xd8, 0x73, 0x95, 0xa4,
     0xf7, 0x02, 0x06, 0x0a, 0x1e, 0x22, 0x66, 0xaa,
     0xe5, 0x34, 0x5c, 0xe4, 0x37, 0x59, 0xeb, 0x26,
     0x6a, 0xbe, 0xd9, 0x70, 0x90, 0xab, 0xe6, 0x31,
     0x53, 0xf5, 0x04, 0x0c, 0x14, 0x3c, 0x44, 0xcc,
     0x4f, 0xd1, 0x68, 0xb8, 0xd3, 0x6e, 0xb2, 0xcd,
     0x4c, 0xd4, 0x67, 0xa9, 0xe0, 0x3b, 0x4d, 0xd7,
     0x62, 0xa6, 0xf1, 0x08, 0x18, 0x28, 0x78, 0x88,
     0x83, 0x9e, 0xb9, 0xd0, 0x6b, 0xbd, 0xdc, 0x7f,
     0x81, 0x98, 0xb3, 0xce, 0x49, 0xdb, 0x76, 0x9a,
     0xb5, 0xc4, 0x57, 0xf9, 0x10, 0x30, 0x50, 0xf0,
     0x0b, 0x1d, 0x27, 0x69, 0xbb, 0xd6, 0x61, 0xa3,
     0xfe, 0x19, 0x2b, 0x7d, 0x87, 0x92, 0xad, 0xec,
     0x2f, 0x71, 0x93, 0xae, 0xe9, 0x20, 0x60, 0xa0,
     0xfb, 0x16, 0x3a, 0x4e, 0xd2, 0x6d, 0xb7, 0xc2,
     0x5d, 0xe7, 0x32, 0x56, 0xfa, 0x15, 0x3f, 0x41,
     0xc3, 0x5e, 0xe2, 0x3d, 0x47, 0xc9, 0x40, 0xc0,
     0x5b, 0xed, 0x2c, 0x74, 0x9c, 0xbf, 0xda, 0x75,
     0x9f, 0xba, 0xd5, 0x64, 0xac, 0xef, 0x2a, 0x7e,
     0x82, 0x9d, 0xbc, 0xdf, 0x7a, 0x8e, 0x89, 0x80,
     0x9b, 0xb6, 0xc1, 0x58, 0xe8, 0x23, 0x65, 0xaf,
     0xea, 0x25, 0x6f, 0xb1, 0xc8, 0x43, 0xc5, 0x54,
     0xfc, 0x1f, 0x21, 0x63, 0xa5, 0xf4, 0x07, 0x09,
     0x1b, 0x2d, 0x77, 0x99, 0xb0, 0xcb, 0x46, 0xca,
     0x45, 0xcf, 0x4a, 0xde, 0x79, 0x8b, 0x86, 0x91,
     0xa8, 0xe3, 0x3e, 0x42, 0xc6, 0x51, 0xf3, 0x0e,
     0x12, 0x36, 0x5a, 0xee, 0x29, 0x7b, 0x8d, 0x8c,
     0x8f, 0x8a, 0x85, 0x94, 0xa7, 0xf2, 0x0d, 0x17,
     0x39, 0x4b, 0xdd, 0x7c, 0x84, 0x97, 0xa2, 0xfd,
     0x1c, 0x24, 0x6c, 0xb4, 0xc7, 0x52, 0xf6, 0x01]"

definition SB :: "u8 list" where
  "SB =
    [0x63, 0x7c, 0x77, 0x7b, 0xf2, 0x6b, 0x6f, 0xc5,
     0x30, 0x01, 0x67, 0x2b, 0xfe, 0xd7, 0xab, 0x76,
     0xca, 0x82, 0xc9, 0x7d, 0xfa, 0x59, 0x47, 0xf0,
     0xad, 0xd4, 0xa2, 0xaf, 0x9c, 0xa4, 0x72, 0xc0,
     0xb7, 0xfd, 0x93, 0x26, 0x36, 0x3f, 0xf7, 0xcc,
     0x34, 0xa5, 0xe5, 0xf1, 0x71, 0xd8, 0x31, 0x15,
     0x04, 0xc7, 0x23, 0xc3, 0x18, 0x96, 0x05, 0x9a,
     0x07, 0x12, 0x80, 0xe2, 0xeb, 0x27, 0xb2, 0x75,
     0x09, 0x83, 0x2c, 0x1a, 0x1b, 0x6e, 0x5a, 0xa0,
     0x52, 0x3b, 0xd6, 0xb3, 0x29, 0xe3, 0x2f, 0x84,
     0x53, 0xd1, 0x00, 0xed, 0x20, 0xfc, 0xb1, 0x5b,
     0x6a, 0xcb, 0xbe, 0x39, 0x4a, 0x4c, 0x58, 0xcf,
     0xd0, 0xef, 0xaa, 0xfb, 0x43, 0x4d, 0x33, 0x85,
     0x45, 0xf9, 0x02, 0x7f, 0x50, 0x3c, 0x9f, 0xa8,
     0x51, 0xa3, 0x40, 0x8f, 0x92, 0x9d, 0x38, 0xf5,
     0xbc, 0xb6, 0xda, 0x21, 0x10, 0xff, 0xf3, 0xd2,
     0xcd, 0x0c, 0x13, 0xec, 0x5f, 0x97, 0x44, 0x17,
     0xc4, 0xa7, 0x7e, 0x3d, 0x64, 0x5d, 0x19, 0x73,
     0x60, 0x81, 0x4f, 0xdc, 0x22, 0x2a, 0x90, 0x88,
     0x46, 0xee, 0xb8, 0x14, 0xde, 0x5e, 0x0b, 0xdb,
     0xe0, 0x32, 0x3a, 0x0a, 0x49, 0x06, 0x24, 0x5c,
     0xc2, 0xd3, 0xac, 0x62, 0x91, 0x95, 0xe4, 0x79,
     0xe7, 0xc8, 0x37, 0x6d, 0x8d, 0xd5, 0x4e, 0xa9,
     0x6c, 0x56, 0xf4, 0xea, 0x65, 0x7a, 0xae, 0x08,
     0xba, 0x78, 0x25, 0x2e, 0x1c, 0xa6, 0xb4, 0xc6,
     0xe8, 0xdd, 0x74, 0x1f, 0x4b, 0xbd, 0x8b, 0x8a,
     0x70, 0x3e, 0xb5, 0x66, 0x48, 0x03, 0xf6, 0x0e,
     0x61, 0x35, 0x57, 0xb9, 0x86, 0xc1, 0x1d, 0x9e,
     0xe1, 0xf8, 0x98, 0x11, 0x69, 0xd9, 0x8e, 0x94,
     0x9b, 0x1e, 0x87, 0xe9, 0xce, 0x55, 0x28, 0xdf,
     0x8c, 0xa1, 0x89, 0x0d, 0xbf, 0xe6, 0x42, 0x68,
     0x41, 0x99, 0x2d, 0x0f, 0xb0, 0x54, 0xbb, 0x16]"

definition SBI :: "u8 list" where
  "SBI =
    [0x52, 0x09, 0x6a, 0xd5, 0x30, 0x36, 0xa5, 0x38,
     0xbf, 0x40, 0xa3, 0x9e, 0x81, 0xf3, 0xd7, 0xfb,
     0x7c, 0xe3, 0x39, 0x82, 0x9b, 0x2f, 0xff, 0x87,
     0x34, 0x8e, 0x43, 0x44, 0xc4, 0xde, 0xe9, 0xcb,
     0x54, 0x7b, 0x94, 0x32, 0xa6, 0xc2, 0x23, 0x3d,
     0xee, 0x4c, 0x95, 0x0b, 0x42, 0xfa, 0xc3, 0x4e,
     0x08, 0x2e, 0xa1, 0x66, 0x28, 0xd9, 0x24, 0xb2,
     0x76, 0x5b, 0xa2, 0x49, 0x6d, 0x8b, 0xd1, 0x25,
     0x72, 0xf8, 0xf6, 0x64, 0x86, 0x68, 0x98, 0x16,
     0xd4, 0xa4, 0x5c, 0xcc, 0x5d, 0x65, 0xb6, 0x92,
     0x6c, 0x70, 0x48, 0x50, 0xfd, 0xed, 0xb9, 0xda,
     0x5e, 0x15, 0x46, 0x57, 0xa7, 0x8d, 0x9d, 0x84,
     0x90, 0xd8, 0xab, 0x00, 0x8c, 0xbc, 0xd3, 0x0a,
     0xf7, 0xe4, 0x58, 0x05, 0xb8, 0xb3, 0x45, 0x06,
     0xd0, 0x2c, 0x1e, 0x8f, 0xca, 0x3f, 0x0f, 0x02,
     0xc1, 0xaf, 0xbd, 0x03, 0x01, 0x13, 0x8a, 0x6b,
     0x3a, 0x91, 0x11, 0x41, 0x4f, 0x67, 0xdc, 0xea,
     0x97, 0xf2, 0xcf, 0xce, 0xf0, 0xb4, 0xe6, 0x73,
     0x96, 0xac, 0x74, 0x22, 0xe7, 0xad, 0x35, 0x85,
     0xe2, 0xf9, 0x37, 0xe8, 0x1c, 0x75, 0xdf, 0x6e,
     0x47, 0xf1, 0x1a, 0x71, 0x1d, 0x29, 0xc5, 0x89,
     0x6f, 0xb7, 0x62, 0x0e, 0xaa, 0x18, 0xbe, 0x1b,
     0xfc, 0x56, 0x3e, 0x4b, 0xc6, 0xd2, 0x79, 0x20,
     0x9a, 0xdb, 0xc0, 0xfe, 0x78, 0xcd, 0x5a, 0xf4,
     0x1f, 0xdd, 0xa8, 0x33, 0x88, 0x07, 0xc7, 0x31,
     0xb1, 0x12, 0x10, 0x59, 0x27, 0x80, 0xec, 0x5f,
     0x60, 0x51, 0x7f, 0xa9, 0x19, 0xb5, 0x4a, 0x0d,
     0x2d, 0xe5, 0x7a, 0x9f, 0x93, 0xc9, 0x9c, 0xef,
     0xa0, 0xe0, 0x3b, 0x4d, 0xae, 0x2a, 0xf5, 0xb0,
     0xc8, 0xeb, 0xbb, 0x3c, 0x83, 0x53, 0x99, 0x61,
     0x17, 0x2b, 0x04, 0x7e, 0xba, 0x77, 0xd6, 0x26,
     0xe1, 0x69, 0x14, 0x63, 0x55, 0x21, 0x0c, 0x7d]"

section \<open>The cipher\<close>

definition AddRoundKey :: "u32 list \<Rightarrow> nat \<Rightarrow> u32 list \<Rightarrow> u32 list" where
  "AddRoundKey state round w =
     [state ! 0 XOR w ! (4 * round), state ! 1 XOR w ! (4 * round + 1),
      state ! 2 XOR w ! (4 * round + 2), state ! 3 XOR w ! (4 * round + 3)]"

definition times :: "u8 \<Rightarrow> u8 \<Rightarrow> u8" where
  "times x y =
     (if x = 0 \<or> y = 0 then 0 else F ! nat ((L ! unat x + L ! unat y) mod 255))"

definition makeword :: "u8 list \<Rightarrow> u32" where
  "makeword p =
     (let t = push_bit 24 (ucast (p ! 0));
          t = t OR push_bit 16 (0xff AND ucast (p ! 1));
          t = t OR push_bit 8 (0xff AND ucast (p ! 2));
          t = t OR (0xff AND ucast (p ! 3))
      in t)"

text \<open>The four bytes of a word in memory, each replaced by its entry in a table.\<close>

definition sub_bytes_of :: "u8 list \<Rightarrow> u32 \<Rightarrow> u32" where
  "sub_bytes_of table x =
     push_bit 24 (ucast (table ! unat (ucast (drop_bit 24 x) :: u8))) OR
     push_bit 16 (ucast (table ! unat (ucast (drop_bit 16 x) :: u8))) OR
     push_bit 8 (ucast (table ! unat (ucast (drop_bit 8 x) :: u8))) OR
     ucast (table ! unat (ucast x :: u8))"

definition SubWord :: "u32 \<Rightarrow> u32" where
  "SubWord x = sub_bytes_of SB x"

definition RotWord :: "u32 \<Rightarrow> u32" where
  "RotWord x = push_bit 8 x OR drop_bit 24 x"

definition key_step :: "nat \<Rightarrow> u32 list \<Rightarrow> u32 list" where
  "key_step i w =
     (let temp = w ! (i - 1);
          temp = (if i mod 8 = 0
                  then SubWord (RotWord temp) XOR
                    push_bit 24 (ucast (F ! nat ((L ! 2 * (int i div 8 - 1)) mod 255)))
                  else if i mod 4 = 0 then SubWord temp
                  else temp)
      in w[i := w ! (i - 8) XOR temp])"

definition KeyExpansion :: "u8 list \<Rightarrow> u32 list" where
  "KeyExpansion key =
     fold key_step [8..<60]
       (map (\<lambda>i. makeword (drop (4 * i) key)) [0..<8] @ replicate 52 0)"

definition InvSubBytes :: "u32 list \<Rightarrow> u32 list" where
  "InvSubBytes p = map (sub_bytes_of SBI) p"

definition InvShiftRows :: "u32 list \<Rightarrow> u32 list" where
  "InvShiftRows s =
     (let a = s ! 0; b = s ! 1; c = s ! 2; d = s ! 3
      in [(a AND 0xff000000) OR (d AND 0xff0000) OR (c AND 0xff00) OR (b AND 0xff),
          (b AND 0xff000000) OR (a AND 0xff0000) OR (d AND 0xff00) OR (c AND 0xff),
          (c AND 0xff000000) OR (b AND 0xff0000) OR (a AND 0xff00) OR (d AND 0xff),
          (d AND 0xff000000) OR (c AND 0xff0000) OR (b AND 0xff00) OR (a AND 0xff)])"

definition mcci :: "u32 \<Rightarrow> u32" where
  "mcci x =
     (let a = ucast (drop_bit 24 x);
          b = ucast (drop_bit 16 x AND 0xff);
          c = ucast (drop_bit 8 x AND 0xff);
          d = ucast (x AND 0xff);
          e = times 0x0e a XOR times 0x0b b XOR times 0x0d c XOR times 0x09 d;
          f = times 0x09 a XOR times 0x0e b XOR times 0x0b c XOR times 0x0d d;
          g = times 0x0d a XOR times 0x09 b XOR times 0x0e c XOR times 0x0b d;
          h = times 0x0b a XOR times 0x0d b XOR times 0x09 c XOR times 0x0e d
      in push_bit 24 (ucast e) OR push_bit 16 (ucast f) OR push_bit 8 (ucast g) OR ucast h)"

definition InvMixColumns :: "u32 list \<Rightarrow> u32 list" where
  "InvMixColumns s = [mcci (s ! 0), mcci (s ! 1), mcci (s ! 2), mcci (s ! 3)]"

definition word_out :: "u32 \<Rightarrow> u8 list" where
  "word_out x =
     [ucast (drop_bit 24 x), ucast (drop_bit 16 x AND 0xff), ucast (drop_bit 8 x AND 0xff),
      ucast (x AND 0xff)]"

definition AESD :: "u8 list \<Rightarrow> u32 list \<Rightarrow> u8 list" where
  "AESD C w =
     (let state = [makeword C, makeword (drop 4 C), makeword (drop 8 C), makeword (drop 12 C)];
          state = AddRoundKey state 14 w;
          state = InvSubBytes (InvShiftRows state);
          state = fold (\<lambda>round state.
              InvSubBytes (InvShiftRows (InvMixColumns (AddRoundKey state round w))))
            (rev [1..<14]) state;
          state = AddRoundKey state 0 w
      in concat (map (\<lambda>i. word_out (state ! i)) [0..<4]))"

definition SubBytes :: "u32 list \<Rightarrow> u32 list" where
  "SubBytes p = map (sub_bytes_of SB) p"

definition ShiftRows :: "u32 list \<Rightarrow> u32 list" where
  "ShiftRows s =
     (let a = s ! 0; b = s ! 1; c = s ! 2; d = s ! 3
      in [(a AND 0xff000000) OR (b AND 0xff0000) OR (c AND 0xff00) OR (d AND 0xff),
          (b AND 0xff000000) OR (c AND 0xff0000) OR (d AND 0xff00) OR (a AND 0xff),
          (c AND 0xff000000) OR (d AND 0xff0000) OR (a AND 0xff00) OR (b AND 0xff),
          (d AND 0xff000000) OR (a AND 0xff0000) OR (b AND 0xff00) OR (c AND 0xff)])"

definition mcc :: "u32 \<Rightarrow> u32" where
  "mcc x =
     (let a = ucast (drop_bit 24 x);
          b = ucast (drop_bit 16 x AND 0xff);
          c = ucast (drop_bit 8 x AND 0xff);
          d = ucast (x AND 0xff);
          e = times 0x02 a XOR times 0x03 b XOR c XOR d;
          f = a XOR times 0x02 b XOR times 0x03 c XOR d;
          g = a XOR b XOR times 0x02 c XOR times 0x03 d;
          h = times 0x03 a XOR b XOR c XOR times 0x02 d
      in push_bit 24 (ucast e) OR push_bit 16 (ucast f) OR push_bit 8 (ucast g) OR ucast h)"

definition MixColumns :: "u32 list \<Rightarrow> u32 list" where
  "MixColumns s = [mcc (s ! 0), mcc (s ! 1), mcc (s ! 2), mcc (s ! 3)]"

definition AES :: "u8 list \<Rightarrow> u32 list \<Rightarrow> u8 list" where
  "AES M w =
     (let state = [makeword M, makeword (drop 4 M), makeword (drop 8 M), makeword (drop 12 M)];
          state = AddRoundKey state 0 w;
          state = fold (\<lambda>round state.
              AddRoundKey (MixColumns (ShiftRows (SubBytes state))) round w)
            [1..<14] state;
          state = AddRoundKey (ShiftRows (SubBytes state)) 14 w
      in concat (map (\<lambda>i. word_out (state ! i)) [0..<4]))"

definition wp_aes_encrypt_block :: "int \<Rightarrow> u8 list \<Rightarrow> u8 list \<Rightarrow> u8 list option" where
  "wp_aes_encrypt_block ksize key data =
     (if ksize \<noteq> 32 then None else Some (AES data (KeyExpansion key)))"

section \<open>The tables are a field and a permutation\<close>

text \<open>Multiplication by \<open>x\<close> in the field of AES.\<close>

definition xt :: "u8 \<Rightarrow> u8" where
  "xt a = push_bit 1 a XOR (if bit a 7 then 0x1b else 0)"

text \<open>The powers of the generator, started at the \<open>k\<close>th, and the power of any exponent.\<close>

definition powers :: "nat \<Rightarrow> u8 list" where
  "powers k = drop k (take 255 F) @ take k (take 255 F)"

definition pw :: "nat \<Rightarrow> u8" where
  "pw j = F ! (j mod 255)"

lemma length_tables: "length L = 256" "length F = 256" "length SB = 256" "length SBI = 256"
  by (simp_all add: L_def F_def SB_def SBI_def)

lemma SBI_table: "map (\<lambda>x. SBI ! unat x) SB = map of_nat [0..<256]"
  by code_simp

lemma log_table: "map (\<lambda>l. F ! nat l) (drop 1 L) = map of_nat [1..<256]"
  by code_simp

lemma log_range: "list_all (\<lambda>l. 0 \<le> l \<and> l \<le> 255) (drop 1 L)"
  by code_simp

lemma F_cycle: "F ! 255 = F ! 0"
  by (simp add: F_def)

lemma xt_powers: "map xt (powers 0) = powers 25"
  by code_simp

lemma sum_powers:
  "map2 (XOR) (powers 25) (powers 0) = powers 1"
  "map2 (XOR) (powers 75) (powers 0) = powers 199"
  "map2 (XOR) (powers 25) (powers 199) = powers 104"
  "map2 (XOR) (powers 50) (powers 199) = powers 238"
  "map2 (XOR) (powers 50) (map2 (XOR) (powers 75) (powers 25)) = powers 223"
  by code_simp+

lemma logs: "L ! 2 = 25" "L ! 3 = 1" "L ! 9 = 199" "L ! 11 = 104" "L ! 13 = 238" "L ! 14 = 223"
  by (simp_all add: L_def)

lemma unat_byte: "unat (x :: u8) < 256"
  by (rule unat_lt_256)

lemma SBI_SB: "SBI ! unat (SB ! unat x) = x"
proof -
  have "map (\<lambda>x. SBI ! unat x) SB ! unat x = map of_nat [0..<256] ! unat x"
    by (simp only: SBI_table)
  then show ?thesis using unat_byte [of x] by (simp add: length_tables)
qed

lemma F_log:
  assumes "x \<noteq> 0"
  shows "F ! nat (L ! unat x) = x" and "0 \<le> L ! unat x" and "L ! unat x \<le> 255"
proof -
  obtain i where i: "unat x = Suc i" "i < 255"
    using assms unat_byte [of x] by (cases "unat x") (auto simp: unat_eq_0)
  have "map (\<lambda>l. F ! nat l) (drop 1 L) ! i = map of_nat [1..<256] ! i"
    by (simp only: log_table)
  then have "F ! nat (L ! unat x) = of_nat (unat x)" using i by (simp add: length_tables)
  then show "F ! nat (L ! unat x) = x" by simp
  have "drop 1 L ! i \<in> set (drop 1 L)" using i by (intro nth_mem) (simp add: length_tables)
  then have "0 \<le> drop 1 L ! i \<and> drop 1 L ! i \<le> 255" using log_range by (simp only: list_all_iff)
  then show "0 \<le> L ! unat x" and "L ! unat x \<le> 255" using i by (simp_all add: length_tables)
qed

lemma nth_powers: "j < 255 \<Longrightarrow> k < 255 \<Longrightarrow> powers k ! j = pw (k + j)"
proof (cases "k + j < 255")
  case True
  then have "j < 255 - k" by simp
  then show ?thesis using True by (simp add: powers_def pw_def nth_append length_tables)
next
  case False
  assume "j < 255" "k < 255"
  moreover from this have "(k + j) mod 255 = k + j - 255" using False by (simp add: mod_if)
  moreover have "\<not> j < 255 - k" using False by simp
  ultimately show ?thesis
    using False by (simp add: powers_def pw_def nth_append length_tables add.commute)
qed

lemma length_powers [simp]: "length (powers k) = 255"
  by (simp add: powers_def length_tables)

lemma pw_mod: "pw (k + j mod 255) = pw (k + j)"
  by (simp add: pw_def mod_add_right_eq)

lemma xt_pw: "xt (pw j) = pw (25 + j)"
proof -
  have "map xt (powers 0) ! (j mod 255) = powers 25 ! (j mod 255)" by (simp only: xt_powers)
  then show ?thesis using pw_mod [of 0 j] by (simp add: nth_powers pw_mod)
qed

lemma pw_sums:
  "pw (1 + j) = pw (25 + j) XOR pw j" "pw (199 + j) = pw (75 + j) XOR pw j"
  "pw (104 + j) = pw (25 + j) XOR pw (199 + j)" "pw (238 + j) = pw (50 + j) XOR pw (199 + j)"
  "pw (223 + j) = pw (50 + j) XOR (pw (75 + j) XOR pw (25 + j))"
proof -
  have nth: "xs ! (j mod 255) = ys ! (j mod 255)" if "xs = ys" for xs ys :: "u8 list" using that by simp
  from sum_powers [THEN nth]
  show "pw (1 + j) = pw (25 + j) XOR pw j" "pw (199 + j) = pw (75 + j) XOR pw j"
    "pw (104 + j) = pw (25 + j) XOR pw (199 + j)" "pw (238 + j) = pw (50 + j) XOR pw (199 + j)"
    "pw (223 + j) = pw (50 + j) XOR (pw (75 + j) XOR pw (25 + j))"
    using pw_mod [of 0 j] pw_mod [of 1 j] by (simp_all add: nth_powers pw_mod)
qed

lemma pw_log:
  assumes "x \<noteq> 0"
  shows "x = pw (nat (L ! unat x))" and "times c x = (if c = 0 then 0 else pw (nat (L ! unat c) + nat (L ! unat x)))"
proof -
  note l = F_log [OF assms]
  show x: "x = pw (nat (L ! unat x))"
  proof (cases "L ! unat x = 255")
    case True
    then show ?thesis using l(1) F_cycle by (simp add: pw_def)
  next
    case False
    then have "nat (L ! unat x) < 255" using l by simp
    then show ?thesis using l(1) by (simp add: pw_def)
  qed
  have "nat ((L ! unat c + L ! unat x) mod 255) = (nat (L ! unat c) + nat (L ! unat x)) mod 255"
    if "c \<noteq> 0"
    using l(2) F_log(2) [OF that] by (simp add: nat_mod_distrib nat_add_distrib)
  then show "times c x = (if c = 0 then 0 else pw (nat (L ! unat c) + nat (L ! unat x)))"
    using assms by (simp add: times_def pw_def)
qed

lemma xt_0 [simp]: "xt 0 = 0"
  by (simp add: xt_def)

lemma times_xt:
  "times 2 x = xt x" "times 3 x = xt x XOR x" "times 9 x = xt (xt (xt x)) XOR x"
  "times 11 x = xt x XOR (xt (xt (xt x)) XOR x)"
  "times 13 x = xt (xt x) XOR (xt (xt (xt x)) XOR x)"
  "times 14 x = xt (xt x) XOR (xt (xt (xt x)) XOR xt x)"
proof -
  have "times 2 x = xt x \<and> times 3 x = xt x XOR x \<and> times 9 x = xt (xt (xt x)) XOR x \<and>
    times 11 x = xt x XOR (xt (xt (xt x)) XOR x) \<and>
    times 13 x = xt (xt x) XOR (xt (xt (xt x)) XOR x) \<and>
    times 14 x = xt (xt x) XOR (xt (xt (xt x)) XOR xt x)"
  proof (cases "x = 0")
    case True
    then show ?thesis by (simp add: times_def)
  next
    case False
    define j where "j = nat (L ! unat x)"
    have x: "x = pw j" and t: "times c x = (if c = 0 then 0 else pw (nat (L ! unat c) + j))" for c
      using pw_log [OF False] by (simp_all add: j_def)
    have "xt x = pw (25 + j)" "xt (xt x) = pw (50 + j)" "xt (xt (xt x)) = pw (75 + j)"
      by (simp_all add: x xt_pw)
    moreover have "times 2 x = pw (25 + j)" "times 3 x = pw (1 + j)" "times 9 x = pw (199 + j)"
      "times 11 x = pw (104 + j)" "times 13 x = pw (238 + j)" "times 14 x = pw (223 + j)"
      by (simp_all add: t logs)
    ultimately show ?thesis using x by (simp only: pw_sums)
  qed
  then show "times 2 x = xt x" "times 3 x = xt x XOR x" "times 9 x = xt (xt (xt x)) XOR x"
    "times 11 x = xt x XOR (xt (xt (xt x)) XOR x)"
    "times 13 x = xt (xt x) XOR (xt (xt (xt x)) XOR x)"
    "times 14 x = xt (xt x) XOR (xt (xt (xt x)) XOR xt x)" by simp_all
qed

lemma xt_xor: "xt (a XOR b) = xt a XOR xt b"
  by (auto simp: xt_def bit_xor_iff push_bit_xor xor.assoc xor.commute xor.left_commute)

section \<open>Bytes of a word\<close>

definition w4 :: "u8 \<Rightarrow> u8 \<Rightarrow> u8 \<Rightarrow> u8 \<Rightarrow> u32" where
  "w4 a b c d = push_bit 24 (ucast a) OR push_bit 16 (ucast b) OR push_bit 8 (ucast c) OR ucast d"

definition byte_of :: "nat \<Rightarrow> u32 \<Rightarrow> u8" where
  "byte_of k x = ucast (drop_bit k x)"

lemma and_ff_32: "ucast (x AND 0xff :: u32) = (ucast x :: u8)" "0xff AND (ucast b :: u32) = ucast (b :: u8)"
proof -
  have ff: "(0xff :: u32) = mask 8" by (simp add: mask_eq_exp_minus_1)
  have "x AND 0xff = take_bit 8 x" by (simp only: ff take_bit_eq_mask)
  then show "ucast (x AND 0xff) = (ucast x :: u8)" by (intro bit_eqI) (auto simp: bit_simps)
  show "0xff AND (ucast b :: u32) = ucast b"
    unfolding ff by (rule bit_eqI) (auto simp: bit_simps dest: bit_imp_le_length)
qed

lemma byte_of_w4 [simp]:
  "byte_of 24 (w4 a b c d) = a" "byte_of 16 (w4 a b c d) = b" "byte_of 8 (w4 a b c d) = c"
  "byte_of 0 (w4 a b c d) = d"
  by (rule bit_eqI, auto simp: w4_def byte_of_def bit_simps dest: bit_imp_le_length)+

lemma w4_byte_of: "w4 (byte_of 24 x) (byte_of 16 x) (byte_of 8 x) (byte_of 0 x) = x"
proof (rule bit_eqI)
  fix n assume "possible_bit TYPE(32 word) n"
  then have "n < 32" by simp
  then consider "n < 8" | "8 \<le> n" "n < 16" | "16 \<le> n" "n < 24" | "24 \<le> n" "n < 32" by linarith
  then show "bit (w4 (byte_of 24 x) (byte_of 16 x) (byte_of 8 x) (byte_of 0 x)) n = bit x n"
    by cases (auto simp: w4_def byte_of_def bit_simps)
qed

lemma makeword_w4: "makeword p = w4 (p ! 0) (p ! 1) (p ! 2) (p ! 3)"
  by (simp add: makeword_def w4_def and_ff_32 or.assoc)

lemma word_out_w4 [simp]: "word_out (w4 a b c d) = [a, b, c, d]"
proof -
  have "word_out x = [byte_of 24 x, byte_of 16 x, byte_of 8 x, byte_of 0 x]" for x
    by (simp add: word_out_def byte_of_def and_ff_32)
  then show ?thesis by simp
qed

lemma sub_bytes_w4: "sub_bytes_of t (w4 a b c d) = w4 (t ! unat a) (t ! unat b) (t ! unat c) (t ! unat d)"
proof -
  have "sub_bytes_of t x = w4 (t ! unat (byte_of 24 x)) (t ! unat (byte_of 16 x))
      (t ! unat (byte_of 8 x)) (t ! unat (byte_of 0 x))" for x
    by (simp add: sub_bytes_of_def w4_def byte_of_def)
  then show ?thesis by simp
qed

lemma masks: "(0xff :: u32) = mask 8" "(0xff00 :: u32) = push_bit 8 (mask 8)"
  "(0xff0000 :: u32) = push_bit 16 (mask 8)" "(0xff000000 :: u32) = push_bit 24 (mask 8)"
  by (simp_all add: mask_eq_exp_minus_1)

lemma row_of_bytes:
  "(p AND 0xff000000) OR (q AND 0xff0000) OR (r AND 0xff00) OR (s AND 0xff) =
     w4 (byte_of 24 p) (byte_of 16 q) (byte_of 8 r) (byte_of 0 s)"
proof (rule bit_eqI)
  fix n assume "possible_bit TYPE(32 word) n"
  then have "n < 32" by simp
  then consider "n < 8" | "8 \<le> n" "n < 16" | "16 \<le> n" "n < 24" | "24 \<le> n" "n < 32" by linarith
  then show "bit ((p AND 0xff000000) OR (q AND 0xff0000) OR (r AND 0xff00) OR (s AND 0xff)) n =
      bit (w4 (byte_of 24 p) (byte_of 16 q) (byte_of 8 r) (byte_of 0 s)) n"
    unfolding masks by cases (auto simp: w4_def byte_of_def bit_simps)
qed

lemma mcc_w4:
  "mcc (w4 a b c d) =
     w4 (times 2 a XOR times 3 b XOR c XOR d) (a XOR times 2 b XOR times 3 c XOR d)
        (a XOR b XOR times 2 c XOR times 3 d) (times 3 a XOR b XOR c XOR times 2 d)"
proof -
  have "mcc x = (let a = byte_of 24 x; b = byte_of 16 x; c = byte_of 8 x; d = byte_of 0 x in
     w4 (times 2 a XOR times 3 b XOR c XOR d) (a XOR times 2 b XOR times 3 c XOR d)
        (a XOR b XOR times 2 c XOR times 3 d) (times 3 a XOR b XOR c XOR times 2 d))" for x
    by (simp add: mcc_def w4_def byte_of_def and_ff_32 Let_def)
  then show ?thesis by (simp add: Let_def)
qed

lemma mcci_w4:
  "mcci (w4 a b c d) =
     w4 (times 14 a XOR times 11 b XOR times 13 c XOR times 9 d)
        (times 9 a XOR times 14 b XOR times 11 c XOR times 13 d)
        (times 13 a XOR times 9 b XOR times 14 c XOR times 11 d)
        (times 11 a XOR times 13 b XOR times 9 c XOR times 14 d)"
proof -
  have "mcci x = (let a = byte_of 24 x; b = byte_of 16 x; c = byte_of 8 x; d = byte_of 0 x in
     w4 (times 14 a XOR times 11 b XOR times 13 c XOR times 9 d)
        (times 9 a XOR times 14 b XOR times 11 c XOR times 13 d)
        (times 13 a XOR times 9 b XOR times 14 c XOR times 11 d)
        (times 11 a XOR times 13 b XOR times 9 c XOR times 14 d))" for x
    by (simp add: mcci_def w4_def byte_of_def and_ff_32 Let_def)
  then show ?thesis by (simp add: Let_def)
qed

section \<open>Every step has its inverse\<close>

lemma xor_pairs: "a XOR (a XOR b) = (b :: u8)"
  by (simp flip: xor.assoc)

text \<open>
  The matrices of \<open>mcc\<close> and \<open>mcci\<close> are inverse to each other: with every product written with
  \<open>xt\<close>, which is linear, all terms but one cancel.
\<close>

lemma mcci_mcc: "mcci (mcc x) = x"
proof -
  obtain a b c d where x: "x = w4 a b c d" using w4_byte_of [of x] by metis
  show ?thesis
    unfolding x mcc_w4 mcci_w4 times_xt xt_xor
    by (simp add: xor.assoc xor.commute xor.left_commute xor_pairs)
qed

lemma list4: "length s = 4 \<Longrightarrow> \<exists>a b c d. s = [a, b, c, d]"
  by (auto simp: numeral_eq_Suc length_Suc_conv)

lemma word_bytes_ex: "\<exists>a b c d. x = w4 a b c d"
  using w4_byte_of [of x] by metis

lemma InvShiftRows_ShiftRows: "length s = 4 \<Longrightarrow> InvShiftRows (ShiftRows s) = s"
  using list4 [of s] by (auto simp: ShiftRows_def InvShiftRows_def row_of_bytes w4_byte_of)

lemma InvSubBytes_SubBytes: "InvSubBytes (SubBytes s) = s"
proof -
  have "sub_bytes_of SBI (sub_bytes_of SB x) = x" for x
    using word_bytes_ex [of x] by (auto simp: sub_bytes_w4 SBI_SB)
  then show ?thesis by (simp add: InvSubBytes_def SubBytes_def comp_def)
qed

lemma InvMixColumns_MixColumns: "length s = 4 \<Longrightarrow> InvMixColumns (MixColumns s) = s"
  using list4 [of s] by (auto simp: MixColumns_def InvMixColumns_def mcci_mcc)

lemma AddRoundKey_twice: "length s = 4 \<Longrightarrow> AddRoundKey (AddRoundKey s r w) r w = s"
  using list4 [of s] by (auto simp: AddRoundKey_def xor.assoc)

lemma step_lengths [simp]:
  "length (AddRoundKey s r w) = 4" "length (ShiftRows s) = 4" "length (MixColumns s) = 4"
  "length (SubBytes s) = length s" "length (InvShiftRows s) = 4" "length (InvMixColumns s) = 4"
  "length (InvSubBytes s) = length s"
  by (simp_all add: AddRoundKey_def ShiftRows_def MixColumns_def SubBytes_def InvShiftRows_def
      InvMixColumns_def InvSubBytes_def Let_def)

lemma InvSubBytes_InvShiftRows: "length s = 4 \<Longrightarrow> InvSubBytes (InvShiftRows (ShiftRows (SubBytes s))) = s"
  by (simp add: InvShiftRows_ShiftRows InvSubBytes_SubBytes)

section \<open>Decryption\<close>

text \<open>
  The state after the first \<open>k\<close> rounds; decryption goes back through the same states, each of
  its rounds undoing the key of one round and the substitution of the next.
\<close>

definition rounds :: "u32 list \<Rightarrow> u32 list \<Rightarrow> nat \<Rightarrow> u32 list" where
  "rounds w s k = fold (\<lambda>round state. AddRoundKey (MixColumns (ShiftRows (SubBytes state))) round w)
     [1..<Suc k] s"

lemma rounds_Suc: "rounds w s (Suc k) =
    AddRoundKey (MixColumns (ShiftRows (SubBytes (rounds w s k)))) (Suc k) w"
  by (simp add: rounds_def)

lemma rounds_0 [simp]: "rounds w s 0 = s"
  by (simp add: rounds_def)

lemma length_rounds: "length s = 4 \<Longrightarrow> length (rounds w s k) = 4"
  by (cases k) (simp_all add: rounds_Suc)

lemma undo_round:
  "length s = 4 \<Longrightarrow> InvSubBytes (InvShiftRows (InvMixColumns
     (AddRoundKey (rounds w s (Suc k)) (Suc k) w))) = rounds w s k"
  by (simp add: rounds_Suc AddRoundKey_twice InvMixColumns_MixColumns InvSubBytes_InvShiftRows
      length_rounds)

lemma undo_rounds:
  "length s = 4 \<Longrightarrow> fold (\<lambda>round state.
      InvSubBytes (InvShiftRows (InvMixColumns (AddRoundKey state round w))))
    (rev [1..<Suc k]) (rounds w s k) = s"
proof (induction k)
  case 0
  then show ?case by simp
next
  case (Suc k)
  have "rev [1..<Suc (Suc k)] = Suc k # rev [1..<Suc k]" by simp
  then show ?case using Suc undo_round [OF Suc.prems, of w k] by (simp del: upt_Suc)
qed

lemma words_of_bytes:
  assumes "length p = 16"
  shows "concat (map word_out [makeword p, makeword (drop 4 p), makeword (drop 8 p), makeword (drop 12 p)]) = p"
proof -
  have "p = map ((!) p) [0..<16]" using assms by (simp add: map_nth flip: assms)
  also have "\<dots> = concat (map word_out [makeword p, makeword (drop 4 p), makeword (drop 8 p), makeword (drop 12 p)])"
    using assms by (simp add: makeword_w4 upt_rec numeral_eq_Suc)
  finally show ?thesis by simp
qed

lemma makeword_word_out: "makeword (word_out x @ r) = x"
  using word_bytes_ex [of x] by (auto simp: makeword_w4)

lemma concat_word_out: "length s = 4 \<Longrightarrow> concat (map (\<lambda>i. word_out (s ! i)) [0..<4]) =
    word_out (s ! 0) @ word_out (s ! 1) @ word_out (s ! 2) @ word_out (s ! 3)"
  by (simp add: upt_rec numeral_eq_Suc)

lemma length_word_out [simp]: "length (word_out x) = 4"
  by (simp add: word_out_def)

lemma load_state:
  assumes "length s = 4"
  defines "C \<equiv> concat (map (\<lambda>i. word_out (s ! i)) [0..<4])"
  shows "[makeword C, makeword (drop 4 C), makeword (drop 8 C), makeword (drop 12 C)] = s"
proof -
  obtain a b c d where s: "s = [a, b, c, d]" using list4 [OF assms(1)] by blast
  have C: "C = word_out a @ word_out b @ word_out c @ word_out d"
    unfolding C_def concat_word_out [OF assms(1)] by (simp add: s)
  show ?thesis unfolding C by (simp add: makeword_word_out s) (metis makeword_word_out append_Nil2)
qed

lemma AESD_AES_value:
  assumes "length M = 16"
  shows "AESD (AES M w) w = M"
proof -
  let ?s = "[makeword M, makeword (drop 4 M), makeword (drop 8 M), makeword (drop 12 M)]"
  define s0 where "s0 = AddRoundKey ?s 0 w"
  define s1 where "s1 = AddRoundKey (ShiftRows (SubBytes (rounds w s0 13))) 14 w"
  have l0: "length s0 = 4" and l1: "length s1 = 4" by (simp_all add: s0_def s1_def)
  have AES: "AES M w = concat (map (\<lambda>i. word_out (s1 ! i)) [0..<4])"
    by (simp add: AES_def Let_def s1_def rounds_def s0_def del: upt_Suc)
  have "AddRoundKey s1 14 w = ShiftRows (SubBytes (rounds w s0 13))"
    unfolding s1_def by (rule AddRoundKey_twice) simp
  then have undone: "InvSubBytes (InvShiftRows (AddRoundKey s1 14 w)) = rounds w s0 13"
    by (simp add: InvSubBytes_InvShiftRows length_rounds l0)
  have "fold (\<lambda>round state. InvSubBytes (InvShiftRows (InvMixColumns (AddRoundKey state round w))))
      (rev [1..<14]) (rounds w s0 13) = s0"
    using undo_rounds [OF l0, of w 13] by (simp del: upt_Suc)
  moreover have "AddRoundKey s0 0 w = ?s" unfolding s0_def by (rule AddRoundKey_twice) simp
  ultimately have "AESD (AES M w) w = concat (map (\<lambda>i. word_out (?s ! i)) [0..<4])"
    unfolding AES AESD_def Let_def load_state [OF l1] undone by (simp only:)
  also have "\<dots> = M" using words_of_bytes [OF assms] by (simp add: upt_rec numeral_eq_Suc)
  finally show ?thesis .
qed

section \<open>The logarithm tables multiply in the field\<close>

text \<open>Multiplication by the generator \<open>3\<close>, and shift-and-add multiplication modulo
  \<open>x^8 + x^4 + x^3 + x + 1\<close>.\<close>

definition mul3 :: "u8 \<Rightarrow> u8" where
  "mul3 a = xt a XOR a"

primrec shift_and_add :: "nat \<Rightarrow> u8 \<Rightarrow> u8 \<Rightarrow> u8" where
  "shift_and_add 0 a b = 0"
| "shift_and_add (Suc n) a b =
     (if bit b 0 then a else 0) XOR shift_and_add n (xt a) (drop_bit 1 b)"

lemma mul3_xor: "mul3 (a XOR b) = mul3 a XOR mul3 b"
  by (simp add: mul3_def xt_xor xor.assoc xor.commute xor.left_commute)

lemma mul3_powers_xor: "(mul3 ^^ j) (a XOR b) = (mul3 ^^ j) a XOR (mul3 ^^ j) b"
  by (induction j) (simp_all add: mul3_xor)

lemma mul3_powers_0: "(mul3 ^^ j) 0 = 0"
  by (induction j) (simp_all add: mul3_def)

lemma mul3_powers_xt: "(mul3 ^^ j) (xt a) = xt ((mul3 ^^ j) a)"
  by (induction j) (simp_all add: mul3_def xt_xor)

lemma mul3_powers_pw: "(mul3 ^^ j) (pw k) = pw (k + j)"
proof (induction j)
  case (Suc j)
  then show ?case using pw_sums(1) [of "k + j"] by (simp add: mul3_def xt_pw)
qed simp

lemma times_mul3:
  assumes "x \<noteq> 0"
  shows "times c x = (mul3 ^^ nat (L ! unat x)) c"
  using pw_log(2) [OF assms, of c] pw_log(1) [of c] mul3_powers_pw [of _ "nat (L ! unat c)"]
  by (cases "c = 0") (simp_all add: mul3_powers_0)

lemma times_commute: "times a b = times b a"
  by (simp add: times_def add.commute)

lemma times_xor: "times (a XOR b) x = times a x XOR times b x"
  by (cases "x = 0") (simp_all add: times_mul3 mul3_powers_xor, simp add: times_def)

lemma times_xt_left: "times (xt a) x = xt (times a x)"
  by (cases "x = 0") (simp_all add: times_mul3 mul3_powers_xt, simp add: times_def)

lemma log_1: "L ! unat (1 :: u8) = 255"
  by (simp add: L_def)

lemma times_1: "times 1 x = x"
proof (cases "x = 0")
  case True
  then show ?thesis by (simp add: times_def)
next
  case False
  note log = pw_log [OF False]
  have "times 1 x = pw (255 + nat (L ! unat x))" using log(2) [of 1] log_1 by simp
  then show ?thesis using log(1) pw_mod [of 0 "255 + nat (L ! unat x)"] pw_mod [of 0 "nat (L ! unat x)"]
    by simp
qed

lemma xt_low: "\<not> bit a 7 \<Longrightarrow> xt a = push_bit 1 a"
  by (simp add: xt_def)

lemma split_low_bit: "b = (if bit b 0 then 1 else 0) XOR xt (drop_bit 1 b)" for b :: u8
proof -
  have "\<not> bit b 8" using bit_imp_le_length [of b 8] by auto
  then have xt: "xt (drop_bit 1 b) = push_bit 1 (drop_bit 1 b)"
    by (intro xt_low) (simp add: bit_drop_bit_eq)
  have "bit ((if bit b 0 then 1 else 0) XOR push_bit 1 (drop_bit 1 b)) n = bit b n"
    if "n < 8" for n
    using that by (cases n) (simp_all add: bit_xor_iff bit_push_bit_iff bit_drop_bit_eq bit_1_iff
        del: push_bit_of_Suc_0 push_bit_Suc)
  then show ?thesis unfolding xt by (intro bit_word_eqI) simp
qed

lemma times_shift_and_add: "drop_bit n b = 0 \<Longrightarrow> times b a = shift_and_add n a b"
proof (induction n arbitrary: a b)
  case 0
  then show ?case by (simp add: times_def)
next
  case (Suc n)
  have "drop_bit n (drop_bit 1 b) = 0" using Suc.prems by simp
  note IH = Suc.IH [OF this, of "xt a"]
  have "times b a = times ((if bit b 0 then 1 else 0) XOR xt (drop_bit 1 b)) a"
    by (simp only: split_low_bit [symmetric])
  also have "\<dots> = (if bit b 0 then a else 0) XOR times (drop_bit 1 b) (xt a)"
    using times_xt_left [of "drop_bit 1 b" a] times_xt_left [of a "drop_bit 1 b"]
      times_commute [of a] times_commute [of "xt a"]
    by (simp add: times_xor times_1) (simp add: times_def)
  finally show ?case by (simp add: IH [unfolded One_nat_def])
qed

lemma length_AES: "length (AES M w) = 16"
  by (simp add: AES_def Let_def upt_rec numeral_eq_Suc)

section \<open>Properties\<close>

text \<open>C28: encryption of a block with a 32-byte key succeeds, yields 16 bytes, and \<open>AESD\<close> under the
  same key schedule recovers the block; any other key size is refused (the code exits).\<close>

theorem aes_block_roundtrip:
  assumes "length data = 16"
  shows "wp_aes_encrypt_block ksize key data =
      (if ksize = 32 then Some (AES data (KeyExpansion key)) else None) \<and>
    length (AES data (KeyExpansion key)) = 16 \<and>
    AESD (AES data (KeyExpansion key)) (KeyExpansion key) = data"
  by (simp add: wp_aes_encrypt_block_def length_AES AESD_AES_value assms)

theorem aes_block_roundtrip_witness:
  "\<exists>c. wp_aes_encrypt_block 32 (replicate 32 0) (replicate 16 7) = Some c \<and> length c = 16 \<and>
     AESD c (KeyExpansion (replicate 32 0)) = replicate 16 7"
  using aes_block_roundtrip [of "replicate 16 7" 32 "replicate 32 0"]
  by (metis length_replicate)

text \<open>the multiplication through the logarithm tables is the multiplication of the field
  \<open>GF(2^8)\<close> of AES, computed by shift and add modulo \<open>x^8 + x^4 + x^3 + x + 1\<close>, and the two
  substitution tables are inverse to one another.\<close>

theorem aes_tables_correct:
  "times a b = shift_and_add 8 b a \<and> SBI ! unat (SB ! unat a) = a"
proof -
  have "drop_bit 8 a = 0"
    by (rule bit_word_eqI) (simp add: bit_drop_bit_eq)
  then show ?thesis using times_shift_and_add [of 8 a b] SBI_SB [of a] by simp
qed

end
