(* ===== verification/UtilBytes.thy ===== *)
theory UtilBytes
  imports AllnetPrelude "HOL-Library.Signed_Division" "HOL-Library.Multiset"
    "HOL-Library.Monad_Syntax"
begin

text \<open>
  Byte, bit, time and random-number functions of \<open>lib/util.c\<close>. A pointer that may be
  \<open>NULL\<close> is an option; bit counts are natural numbers, as every caller passes them. The
  system's source of random bytes is the list of bytes it will deliver, from which each call
  takes what it asks for; \<open>None\<close> is a supply that has run out.
\<close>

section \<open>Big-endian numbers\<close>

definition readb16 :: "u8 list option \<Rightarrow> u32" where
  "readb16 p = (case p of None \<Rightarrow> 0 | Some p \<Rightarrow>
     push_bit 8 (ucast (p ! 0)) OR ucast (p ! 1))"

definition readb32 :: "u8 list option \<Rightarrow> u64" where
  "readb32 p = (case p of None \<Rightarrow> 0 | Some p \<Rightarrow>
     push_bit 24 (ucast (p ! 0)) OR push_bit 16 (ucast (p ! 1)) OR
     push_bit 8 (ucast (p ! 2)) OR ucast (p ! 3))"

definition readb48 :: "u8 list option \<Rightarrow> u64" where
  "readb48 p = (case p of None \<Rightarrow> 0 | Some p \<Rightarrow>
     push_bit 40 (ucast (p ! 0)) OR push_bit 32 (ucast (p ! 1)) OR
     push_bit 24 (ucast (p ! 2)) OR push_bit 16 (ucast (p ! 3)) OR
     push_bit 8 (ucast (p ! 4)) OR ucast (p ! 5))"

definition readb64 :: "u8 list option \<Rightarrow> u64" where
  "readb64 p = (case p of None \<Rightarrow> 0 | Some p \<Rightarrow>
     push_bit 56 (ucast (p ! 0)) OR push_bit 48 (ucast (p ! 1)) OR
     push_bit 40 (ucast (p ! 2)) OR push_bit 32 (ucast (p ! 3)) OR
     push_bit 24 (ucast (p ! 4)) OR push_bit 16 (ucast (p ! 5)) OR
     push_bit 8 (ucast (p ! 6)) OR ucast (p ! 7))"

definition writeb16 :: "u8 list option \<Rightarrow> u32 \<Rightarrow> u8 list option" where
  "writeb16 p v = (case p of None \<Rightarrow> None | Some p \<Rightarrow>
     Some (p[0 := ucast (drop_bit 8 v AND 0xff), 1 := ucast (v AND 0xff)]))"

definition writeb32 :: "u8 list option \<Rightarrow> u64 \<Rightarrow> u8 list option" where
  "writeb32 p v = (case p of None \<Rightarrow> None | Some p \<Rightarrow>
     Some (p[0 := ucast (drop_bit 24 v AND 0xff), 1 := ucast (drop_bit 16 v AND 0xff),
             2 := ucast (drop_bit 8 v AND 0xff), 3 := ucast (v AND 0xff)]))"

definition writeb48 :: "u8 list option \<Rightarrow> u64 \<Rightarrow> u8 list option" where
  "writeb48 p v = (case p of None \<Rightarrow> None | Some p \<Rightarrow>
     Some (p[0 := ucast (drop_bit 40 v AND 0xff), 1 := ucast (drop_bit 32 v AND 0xff),
             2 := ucast (drop_bit 24 v AND 0xff), 3 := ucast (drop_bit 16 v AND 0xff),
             4 := ucast (drop_bit 8 v AND 0xff), 5 := ucast (v AND 0xff)]))"

definition writeb64 :: "u8 list option \<Rightarrow> u64 \<Rightarrow> u8 list option" where
  "writeb64 p v = (case p of None \<Rightarrow> None | Some p \<Rightarrow>
     Some (p[0 := ucast (drop_bit 56 v AND 0xff), 1 := ucast (drop_bit 48 v AND 0xff),
             2 := ucast (drop_bit 40 v AND 0xff), 3 := ucast (drop_bit 32 v AND 0xff),
             4 := ucast (drop_bit 24 v AND 0xff), 5 := ucast (drop_bit 16 v AND 0xff),
             6 := ucast (drop_bit 8 v AND 0xff), 7 := ucast (v AND 0xff)]))"

definition allnet_htons :: "(u16 \<Rightarrow> u8 list) \<Rightarrow> u32 \<Rightarrow> u32" where
  "allnet_htons store hostshort = readb16 (Some (store (ucast (hostshort AND 0xffff))))"

definition allnet_htonl :: "(u32 \<Rightarrow> u8 list) \<Rightarrow> u32 \<Rightarrow> u32" where
  "allnet_htonl store hostlong = ucast (readb32 (Some (store hostlong)))"

text \<open>Each read is a fold of its bytes, each write the bytes of its number.\<close>

lemma ucast_and_byte: "ucast (w AND 0xff :: u64) = (ucast w :: u8)"
proof -
  have "(0xff :: u64) = mask 8" by (simp add: mask_eq_exp_minus_1)
  then have "w AND 0xff = take_bit 8 w" by (simp only: take_bit_eq_mask)
  then show ?thesis by (intro bit_eqI) (auto simp: bit_simps)
qed

lemma ucast_and_byte32: "ucast (w AND 0xff :: u32) = (ucast w :: u8)"
proof -
  have "(0xff :: u32) = mask 8" by (simp add: mask_eq_exp_minus_1)
  then have "w AND 0xff = take_bit 8 w" by (simp only: take_bit_eq_mask)
  then show ?thesis by (intro bit_eqI) (auto simp: bit_simps)
qed

lemma list_prefix_nth:
  "2 \<le> length p \<Longrightarrow> \<exists>a b r. p = a # b # r"
  "4 \<le> length p \<Longrightarrow> \<exists>a b c d r. p = a # b # c # d # r"
  "6 \<le> length p \<Longrightarrow> \<exists>a b c d e f r. p = a # b # c # d # e # f # r"
  "8 \<le> length p \<Longrightarrow> \<exists>a b c d e f g h r. p = a # b # c # d # e # f # g # h # r"
  by (auto simp: numeral_eq_Suc Suc_le_length_iff)

lemma byte_of_word: "ucast (ucast w :: u8) = (take_bit 8 w :: u64)"
  by (rule bit_eqI) (auto simp: bit_simps)

lemma glue_bytes:
  "m = k + 8 \<Longrightarrow> push_bit k (take_bit 8 (drop_bit k w)) OR take_bit k w = take_bit m (w :: u64)"
  by (rule bit_eqI) (auto simp: bit_simps not_less)

lemma glue_word:
  "push_bit 8 (take_bit 8 (drop_bit 8 w)) OR take_bit 8 w = take_bit 16 (w :: u64)"
  "push_bit 16 (take_bit 8 (drop_bit 16 w)) OR take_bit 16 w = take_bit 24 w"
  "push_bit 24 (take_bit 8 (drop_bit 24 w)) OR take_bit 24 w = take_bit 32 w"
  "push_bit 32 (take_bit 8 (drop_bit 32 w)) OR take_bit 32 w = take_bit 40 w"
  "push_bit 40 (take_bit 8 (drop_bit 40 w)) OR take_bit 40 w = take_bit 48 w"
  "push_bit 48 (take_bit 8 (drop_bit 48 w)) OR take_bit 48 w = take_bit 56 w"
  "push_bit 56 (take_bit 8 (drop_bit 56 w)) OR take_bit 56 w = take_bit 64 w"
  by (rule glue_bytes, simp)+

lemma readb16_writeb16:
  assumes "2 \<le> length p"
  shows "readb16 (writeb16 (Some p) v) = take_bit 16 v"
proof -
  obtain a b r where "p = a # b # r" using list_prefix_nth(1) [OF assms] by blast
  then have "readb16 (writeb16 (Some p) v) = push_bit 8 (ucast (ucast (drop_bit 8 v) :: u8)) OR ucast (ucast v :: u8)"
    by (simp only: readb16_def writeb16_def ucast_and_byte32 option.case) simp
  also have "\<dots> = take_bit 16 v"
    by (rule bit_eqI) (auto simp: bit_simps not_le)
  finally show ?thesis .
qed

lemma readb32_writeb32:
  assumes "4 \<le> length p"
  shows "readb32 (writeb32 (Some p) v) = take_bit 32 v"
proof -
  obtain a b c d r where "p = a # b # c # d # r" using list_prefix_nth(2) [OF assms] by blast
  then have "readb32 (writeb32 (Some p) v) =
      push_bit 24 (ucast (ucast (drop_bit 24 v) :: u8)) OR
      push_bit 16 (ucast (ucast (drop_bit 16 v) :: u8)) OR
      push_bit 8 (ucast (ucast (drop_bit 8 v) :: u8)) OR ucast (ucast v :: u8)"
    by (simp only: readb32_def writeb32_def ucast_and_byte option.case) simp
  also have "\<dots> = take_bit 32 v" by (simp only: byte_of_word glue_word)
  finally show ?thesis .
qed

lemma readb48_writeb48:
  assumes "6 \<le> length p"
  shows "readb48 (writeb48 (Some p) v) = take_bit 48 v"
proof -
  obtain a b c d e f r where "p = a # b # c # d # e # f # r"
    using list_prefix_nth(3) [OF assms] by blast
  then have "readb48 (writeb48 (Some p) v) =
      push_bit 40 (ucast (ucast (drop_bit 40 v) :: u8)) OR
      push_bit 32 (ucast (ucast (drop_bit 32 v) :: u8)) OR
      push_bit 24 (ucast (ucast (drop_bit 24 v) :: u8)) OR
      push_bit 16 (ucast (ucast (drop_bit 16 v) :: u8)) OR
      push_bit 8 (ucast (ucast (drop_bit 8 v) :: u8)) OR ucast (ucast v :: u8)"
    by (simp only: readb48_def writeb48_def ucast_and_byte option.case) simp
  also have "\<dots> = take_bit 48 v" by (simp only: byte_of_word glue_word)
  finally show ?thesis .
qed

lemma readb64_writeb64:
  assumes "8 \<le> length p"
  shows "readb64 (writeb64 (Some p) v) = v"
proof -
  obtain a b c d e f g h r where "p = a # b # c # d # e # f # g # h # r"
    using list_prefix_nth(4) [OF assms] by blast
  then have "readb64 (writeb64 (Some p) v) =
      push_bit 56 (ucast (ucast (drop_bit 56 v) :: u8)) OR
      push_bit 48 (ucast (ucast (drop_bit 48 v) :: u8)) OR
      push_bit 40 (ucast (ucast (drop_bit 40 v) :: u8)) OR
      push_bit 32 (ucast (ucast (drop_bit 32 v) :: u8)) OR
      push_bit 24 (ucast (ucast (drop_bit 24 v) :: u8)) OR
      push_bit 16 (ucast (ucast (drop_bit 16 v) :: u8)) OR
      push_bit 8 (ucast (ucast (drop_bit 8 v) :: u8)) OR ucast (ucast v :: u8)"
    by (simp only: readb64_def writeb64_def ucast_and_byte option.case) simp
  also have "\<dots> = take_bit 64 v" by (simp only: byte_of_word glue_word)
  also have "\<dots> = v" by (simp add: take_bit_word_eq_self)
  finally show ?thesis .
qed

section \<open>Comparing bit strings\<close>

definition get_bit :: "u8 list \<Rightarrow> nat \<Rightarrow> u8" where
  "get_bit data pos =
     (let byte = data ! (pos div 8);
          shift = 7 - pos mod 8;
          bit = (if shift > 0 then drop_bit shift byte else byte)
      in bit AND 1)"

function matching_loop :: "u8 list \<Rightarrow> u8 list \<Rightarrow> nat \<Rightarrow> nat \<Rightarrow> nat" where
  "matching_loop x y i nbits =
     (if i < nbits then (if get_bit x i \<noteq> get_bit y i then i else matching_loop x y (i + 1) nbits)
      else nbits)"
  by pat_completeness auto
termination
  by (relation "measure (\<lambda>(x, y, i, nbits). nbits - i)") auto

declare matching_loop.simps [simp del]

definition matching_bits :: "u8 list \<Rightarrow> nat \<Rightarrow> u8 list \<Rightarrow> nat \<Rightarrow> nat" where
  "matching_bits x xbits y ybits =
     (let nbits = (if xbits > ybits then ybits else xbits) in matching_loop x y 0 nbits)"

definition matches :: "u8 list \<Rightarrow> nat \<Rightarrow> u8 list \<Rightarrow> nat \<Rightarrow> nat" where
  "matches x xbits y ybits =
     (let nbits = (if xbits > ybits then ybits else xbits);
          bytes = nbits div 8
      in if list_ex (\<lambda>i. x ! i \<noteq> y ! i) [0..<bytes] then 0
         else if nbits mod 8 = 0 then nbits + 1
         else let shift = 8 - nbits mod 8
              in if drop_bit shift (x ! bytes AND 0xff) = drop_bit shift (y ! bytes AND 0xff)
                 then nbits + 1 else 0)"

definition bitstring_matches :: "u8 list \<Rightarrow> nat \<Rightarrow> u8 list \<Rightarrow> nat \<Rightarrow> nat \<Rightarrow> bool" where
  "bitstring_matches x xoff y yoff nbits =
     (\<not> list_ex (\<lambda>i. get_bit x (xoff + i) \<noteq> get_bit y (yoff + i)) [0..<nbits])"

lemma get_bit_eq: "get_bit data pos = of_bool (bit (data ! (pos div 8)) (7 - pos mod 8))"
  by (auto simp: get_bit_def Let_def and_one_eq bit_iff_odd_drop_bit mod2_eq_if)

lemma get_bit_eq_iff:
  "get_bit x i = get_bit y j \<longleftrightarrow>
     bit (x ! (i div 8)) (7 - i mod 8) = bit (y ! (j div 8)) (7 - j mod 8)"
  by (simp add: get_bit_eq)

lemma matching_loop_value:
  "i \<le> nbits \<Longrightarrow> i \<le> matching_loop x y i nbits \<and> matching_loop x y i nbits \<le> nbits \<and>
     (\<forall>j. i \<le> j \<longrightarrow> j < matching_loop x y i nbits \<longrightarrow> get_bit x j = get_bit y j) \<and>
     (matching_loop x y i nbits < nbits \<longrightarrow>
       get_bit x (matching_loop x y i nbits) \<noteq> get_bit y (matching_loop x y i nbits))"
proof (induction x y i nbits rule: matching_loop.induct)
  case (1 x y i nbits)
  consider "i = nbits" | "i < nbits" "get_bit x i \<noteq> get_bit y i"
    | "i < nbits" "get_bit x i = get_bit y i" using "1.prems" by linarith
  then show ?case
  proof cases
    case 3
    then have IH: "i + 1 \<le> matching_loop x y (i + 1) nbits" "matching_loop x y (i + 1) nbits \<le> nbits"
      "\<And>j. i + 1 \<le> j \<Longrightarrow> j < matching_loop x y (i + 1) nbits \<Longrightarrow> get_bit x j = get_bit y j"
      "matching_loop x y (i + 1) nbits < nbits \<Longrightarrow>
        get_bit x (matching_loop x y (i + 1) nbits) \<noteq> get_bit y (matching_loop x y (i + 1) nbits)"
      using "1.IH" by simp_all
    have "matching_loop x y i nbits = matching_loop x y (i + 1) nbits"
      using 3 by (subst matching_loop.simps) simp
    moreover have "get_bit x j = get_bit y j" if "i \<le> j" "j < matching_loop x y (i + 1) nbits" for j
      using 3 IH(3) [of j] that by (cases "j = i") simp_all
    ultimately show ?thesis using IH(1,2,4) by simp
  qed (simp_all add: matching_loop.simps)
qed

text \<open>\<open>matching_bits\<close> is the length of the longest common prefix of bits.\<close>

lemma matching_bits_full:
  "matching_bits x xbits y ybits = min xbits ybits \<longleftrightarrow>
     (\<forall>j < min xbits ybits. get_bit x j = get_bit y j)"
proof -
  define n where "n = min xbits ybits"
  have m: "matching_bits x xbits y ybits = matching_loop x y 0 n"
    by (simp add: matching_bits_def n_def min_def)
  show ?thesis
    using matching_loop_value [of 0 n x y] unfolding m n_def [symmetric]
    by (metis le_neq_implies_less le0)
qed

lemma byte_eq_bits: "(a :: u8) = b \<longleftrightarrow> (\<forall>k < 8. bit a (7 - k) = bit b (7 - k))"
proof
  assume bits: "\<forall>k < 8. bit a (7 - k) = bit b (7 - k)"
  show "a = b"
  proof (rule bit_eqI)
    fix n assume "possible_bit TYPE(8 word) n"
    then have "7 - n < 8" "7 - (7 - n) = n" by auto
    with bits show "bit a n = bit b n" by metis
  qed
qed simp

lemma high_bits_eq:
  assumes "r \<le> 8"
  shows "drop_bit (8 - r) (a :: u8) = drop_bit (8 - r) b \<longleftrightarrow> (\<forall>k < r. bit a (7 - k) = bit b (7 - k))"
proof
  assume eq: "drop_bit (8 - r) a = drop_bit (8 - r) b"
  show "\<forall>k < r. bit a (7 - k) = bit b (7 - k)"
  proof (intro allI impI)
    fix k assume "k < r"
    then have "8 - r + (r - 1 - k) = 7 - k" using assms by simp
    moreover have "bit (drop_bit (8 - r) a) (r - 1 - k) = bit (drop_bit (8 - r) b) (r - 1 - k)"
      by (simp only: eq)
    ultimately show "bit a (7 - k) = bit b (7 - k)" by (simp only: bit_drop_bit_eq comp_apply)
  qed
next
  assume bits: "\<forall>k < r. bit a (7 - k) = bit b (7 - k)"
  show "drop_bit (8 - r) a = drop_bit (8 - r) b"
  proof (rule bit_eqI)
    fix n assume "possible_bit TYPE(8 word) n"
    show "bit (drop_bit (8 - r) a) n = bit (drop_bit (8 - r) b) n"
    proof (cases "n < r")
      case True
      then have "7 - (r - 1 - n) = 8 - r + n" "r - 1 - n < r" using assms by simp_all
      with bits show ?thesis by (metis bit_drop_bit_eq comp_apply)
    next
      case False
      then have "\<not> bit a (8 - r + n)" "\<not> bit b (8 - r + n)"
        using assms bit_imp_le_length [of a "8 - r + n"] bit_imp_le_length [of b "8 - r + n"] by auto
      then show ?thesis by (simp add: bit_drop_bit_eq)
    qed
  qed
qed

lemma whole_bytes_eq:
  "\<not> list_ex (\<lambda>i. x ! i \<noteq> y ! i) [0..<q] \<longleftrightarrow> (\<forall>j < 8 * q. get_bit x j = get_bit y j)"
proof -
  have "\<not> list_ex (\<lambda>i. x ! i \<noteq> y ! i) [0..<q] \<longleftrightarrow>
      (\<forall>i < q. \<forall>k < 8. bit (x ! i) (7 - k) = bit (y ! i) (7 - k))"
    by (auto simp: list_ex_iff byte_eq_bits)
  also have "\<dots> \<longleftrightarrow> (\<forall>j < 8 * q. get_bit x j = get_bit y j)"
  proof
    assume *: "\<forall>j < 8 * q. get_bit x j = get_bit y j"
    have "bit (x ! i) (7 - k) = bit (y ! i) (7 - k)" if "i < q" "k < 8" for i k
    proof -
      have "8 * i + k < 8 * q" "(8 * i + k) div 8 = i" "(8 * i + k) mod 8 = k" using that by simp_all
      with * show ?thesis by (metis get_bit_eq_iff)
    qed
    then show "\<forall>i < q. \<forall>k < 8. bit (x ! i) (7 - k) = bit (y ! i) (7 - k)" by blast
  qed (simp add: get_bit_eq_iff)
  finally show ?thesis .
qed

lemma last_bits_eq:
  assumes n: "n = 8 * q + r" and r: "r < 8"
  shows "drop_bit (8 - r) (x ! q) = drop_bit (8 - r) (y ! q) \<longleftrightarrow>
    (\<forall>j. 8 * q \<le> j \<longrightarrow> j < n \<longrightarrow> get_bit x j = get_bit y j)"
proof -
  have "(\<forall>k < r. bit (x ! q) (7 - k) = bit (y ! q) (7 - k)) \<longleftrightarrow>
      (\<forall>j. 8 * q \<le> j \<longrightarrow> j < n \<longrightarrow> get_bit x j = get_bit y j)"
  proof
    assume *: "\<forall>k < r. bit (x ! q) (7 - k) = bit (y ! q) (7 - k)"
    have "get_bit x j = get_bit y j" if "8 * q \<le> j" "j < n" for j
    proof -
      define k where "k = j - 8 * q"
      have "j = 8 * q + k" "k < r" using that n by (simp_all add: k_def)
      with * r show ?thesis by (simp add: get_bit_eq_iff)
    qed
    then show "\<forall>j. 8 * q \<le> j \<longrightarrow> j < n \<longrightarrow> get_bit x j = get_bit y j" by blast
  next
    assume *: "\<forall>j. 8 * q \<le> j \<longrightarrow> j < n \<longrightarrow> get_bit x j = get_bit y j"
    have "bit (x ! q) (7 - k) = bit (y ! q) (7 - k)" if "k < r" for k
    proof -
      have "get_bit x (8 * q + k) = get_bit y (8 * q + k)" using * n that by simp
      then show ?thesis using that r by (simp add: get_bit_eq_iff)
    qed
    then show "\<forall>k < r. bit (x ! q) (7 - k) = bit (y ! q) (7 - k)" by blast
  qed
  then show ?thesis using r by (simp add: high_bits_eq)
qed

text \<open>\<open>matches\<close> compares whole bytes and then the high bits of the last one: it is the bitwise comparison.\<close>

lemma matches_iff:
  "matches x xbits y ybits = (if \<forall>j < min xbits ybits. get_bit x j = get_bit y j
     then min xbits ybits + 1 else 0)"
proof -
  define n where "n = min xbits ybits"
  define q r where "q = n div 8" and "r = n mod 8"
  have n: "n = 8 * q + r" and r: "r < 8" by (simp_all add: q_def r_def)
  have and_ff: "b AND 0xff = (b :: u8)" for b
  proof -
    have "(0xff :: u8) = -1" by simp
    then show ?thesis by (simp only: and.right_neutral)
  qed
  have "(\<forall>j < n. get_bit x j = get_bit y j) \<longleftrightarrow>
      (\<forall>j < 8 * q. get_bit x j = get_bit y j) \<and>
      (\<forall>j. 8 * q \<le> j \<longrightarrow> j < n \<longrightarrow> get_bit x j = get_bit y j)"
    using n by (metis le_add1 less_le_trans not_le)
  moreover have "matches x xbits y ybits =
      (if list_ex (\<lambda>i. x ! i \<noteq> y ! i) [0..<q] then 0
       else if r = 0 \<or> drop_bit (8 - r) (x ! q) = drop_bit (8 - r) (y ! q) then n + 1 else 0)"
    by (simp add: matches_def Let_def n_def q_def r_def min_def and_ff)
  moreover have "r = 0 \<Longrightarrow> \<forall>j. 8 * q \<le> j \<longrightarrow> j < n \<longrightarrow> get_bit x j = get_bit y j" using n by simp
  ultimately show ?thesis
    using whole_bytes_eq [of x y q] last_bits_eq [OF n r, of x y] unfolding n_def [symmetric] by auto
qed

section \<open>Request bitmaps\<close>

definition compute_index_mask :: "int \<Rightarrow> int \<Rightarrow> int \<times> int" where
  "compute_index_mask power_two first_sixteen =
     (if power_two \<le> 0 \<or> power_two > 16 then (-1, -1)
      else if first_sixteen < 0 \<or> first_sixteen > 0xffff then (-1, -1)
      else
        let significant_bits = drop_bit (nat (16 - power_two)) (first_sixteen AND 0xffff);
            index = significant_bits div 8;
            offset = significant_bits mod 8;
            mask = push_bit (nat (7 - offset)) 1 AND 0xff
        in (index, mask))"

definition allnet_bitmap_byte_index :: "int \<Rightarrow> int \<Rightarrow> int" where
  "allnet_bitmap_byte_index power_two first_sixteen = fst (compute_index_mask power_two first_sixteen)"

definition allnet_bitmap_byte_mask :: "int \<Rightarrow> int \<Rightarrow> int" where
  "allnet_bitmap_byte_mask power_two first_sixteen = snd (compute_index_mask power_two first_sixteen)"

lemma mask_range: "0 \<le> k \<Longrightarrow> k < 8 \<Longrightarrow> push_bit (nat k) 1 AND 0xff = (2 ^ nat k :: int)"
proof -
  assume k: "0 \<le> k" "k < 8"
  have "(0xff :: int) = mask 8" by (simp add: mask_eq_exp_minus_1)
  then have "push_bit (nat k) 1 AND 0xff = take_bit 8 (push_bit (nat k) 1 :: int)"
    by (simp only: take_bit_eq_mask)
  also have "\<dots> = 2 ^ nat k mod 2 ^ 8" by (simp add: take_bit_eq_mod push_bit_eq_mult)
  also have "\<dots> = 2 ^ nat k"
  proof -
    have "(2 :: int) ^ nat k < 2 ^ 8" using k by (intro power_strict_increasing) auto
    then show ?thesis by simp
  qed
  finally show ?thesis .
qed

lemma compute_index_mask_value:
  assumes "0 < p" "p \<le> 16" "0 \<le> f" "f < 65536"
  shows "compute_index_mask p f =
    (f div 2 ^ nat (16 - p) div 8, 2 ^ nat (7 - f div 2 ^ nat (16 - p) mod 8))"
proof -
  have "(0xffff :: int) = mask 16" by (simp add: mask_eq_exp_minus_1)
  then have "f AND 0xffff = take_bit 16 f" by (simp only: take_bit_eq_mask)
  then have "f AND 0xffff = f" using assms by (simp add: take_bit_int_eq_self)
  then have d: "drop_bit (nat (16 - p)) (f AND 0xffff) = f div 2 ^ nat (16 - p)"
    by (simp add: drop_bit_eq_div)
  have "0 \<le> 7 - f div 2 ^ nat (16 - p) mod 8" "7 - f div 2 ^ nat (16 - p) mod 8 < 8" by simp_all
  from mask_range [OF this] show ?thesis using assms unfolding compute_index_mask_def d Let_def by simp
qed

section \<open>Times\<close>

text \<open>
  \<open>time_t\<close> and \<open>suseconds_t\<close> are \<open>long\<close>: signed words of 32 or 64 bits, depending on the machine. Sums with
  a \<open>long long\<close> are computed in 64 bits and cut off.
\<close>

record 'time timeval =
  tv_sec :: 'time
  tv_usec :: 'time

definition allnet_us_per_s :: int where
  "allnet_us_per_s = 1000000"

definition delta_us :: "('l :: len) word timeval \<Rightarrow> 'l word timeval \<Rightarrow> u64" where
  "delta_us t1 t2 =
     (if sint (tv_sec t1) < sint (tv_sec t2) \<or> (tv_sec t1 = tv_sec t2 \<and> sint (tv_usec t1) < sint (tv_usec t2)) then 0
      else scast (tv_usec t1 - tv_usec t2) + scast ((tv_sec t1 - tv_sec t2) * of_int allnet_us_per_s))"

definition is_before :: "('l :: len) word timeval \<Rightarrow> 'l word timeval \<Rightarrow> bool" where
  "is_before now t =
     (if sint (tv_sec now) < sint (tv_sec t) then True
      else if sint (tv_sec now) > sint (tv_sec t) then False
      else sint (tv_usec now) < sint (tv_usec t))"

definition add_us :: "('l :: len) word timeval \<Rightarrow> u64 \<Rightarrow> 'l word timeval" where
  "add_us t us =
     (let usec = (ucast (scast (tv_usec t) + us mod of_int allnet_us_per_s :: u64) :: 'l word);
          sec = tv_sec t + of_int (sint usec sdiv allnet_us_per_s);
          usec = of_int (sint usec smod allnet_us_per_s);
          sec = ucast (scast sec + us div of_int allnet_us_per_s :: u64)
      in t\<lparr>tv_sec := sec, tv_usec := usec\<rparr>)"

definition compute_next :: "('l :: len) word \<Rightarrow> 'l word \<Rightarrow> bool \<Rightarrow> 'l word" where
  "compute_next from granularity immediate_ok =
     (let delta = of_int (sint from smod sint granularity)
      in if immediate_ok \<and> delta = 0 then from else from + (granularity - delta))"

fun power_loop :: "u64 \<Rightarrow> u64 \<Rightarrow> nat \<Rightarrow> u64 \<Rightarrow> bool" where
  "power_loop comparison multiplier 0 pow = True"
| "power_loop comparison multiplier (Suc e) pow =
     (let pow = pow * 2
      in if comparison \<le> multiplier * pow then False
         else power_loop comparison multiplier e pow)"

definition is_greater_than_power_two :: "u64 \<Rightarrow> u64 \<Rightarrow> u64 \<Rightarrow> bool" where
  "is_greater_than_power_two comparison multiplier exp =
     (if exp \<le> 0 then comparison > multiplier
      else power_loop comparison multiplier (unat exp) 1)"

definition time_exp_interval :: "u64 \<Rightarrow> u64 \<Rightarrow> u64 \<Rightarrow> u64 \<Rightarrow> u64 \<Rightarrow> bool \<times> u64 \<times> u64" where
  "time_exp_interval now last_true_time num_true_calls mn mx =
     (let delta = (if now > last_true_time then now - last_true_time else 0)
      in if last_true_time = 0 \<or> delta > mx \<or> is_greater_than_power_two delta mn num_true_calls
         then (True, now, num_true_calls + 1)
         else (False, last_true_time, num_true_calls))"

text \<open>
  The doubling loop stops at the first power that reaches the comparison, which is before the
  product can wrap when the comparison is at most half of the range.
\<close>

lemma power_loop_value:
  assumes c: "unat c \<le> 2 ^ 63" and m: "unat m * p < 2 ^ 63" and p: "unat pow = p" "0 < p"
    and lt: "unat m * p < unat c" and e: "unat m \<noteq> 0"
  shows "power_loop c m e pow \<longleftrightarrow> unat m * p * 2 ^ e < unat c"
  using m p lt
proof (induction e arbitrary: pow p)
  case 0
  then show ?case by simp
next
  case (Suc e)
  have "p \<le> unat m * p" using e by simp
  then have "p < 2 ^ 63" using Suc.prems(1) by (rule le_less_trans)
  then have dbl: "unat (pow * 2) = p * 2"
    using Suc.prems(2) by (simp add: unat_64_times wbase_def)
  have prod: "unat (m * (pow * 2)) = unat m * (p * 2)"
  proof -
    have "unat m * (p * 2) = 2 * (unat m * p)" by simp
    also have "\<dots> < 2 * 2 ^ 63" using Suc.prems(1) by linarith
    finally have "unat m * (p * 2) < wbase" by (simp add: wbase_def)
    then show ?thesis by (simp only: unat_64_times [of m] dbl mod_less)
  qed
  show ?case
  proof (cases "unat c \<le> unat m * (p * 2)")
    case True
    then have "\<not> power_loop c m (Suc e) pow" by (simp add: word_le_nat_alt prod)
    moreover have "unat m * (p * 2) \<le> unat m * (p * 2) * 2 ^ e" by simp
    moreover have "unat m * p * 2 ^ Suc e = unat m * (p * 2) * 2 ^ e" by simp
    ultimately show ?thesis using True by (metis le_trans not_le)
  next
    case False
    then have "power_loop c m (Suc e) pow = power_loop c m e (pow * 2)"
      by (simp add: word_le_nat_alt prod)
    also have "\<dots> \<longleftrightarrow> unat m * (p * 2) * 2 ^ e < unat c"
    proof (rule Suc.IH)
      show "unat m * (p * 2) < 2 ^ 63" using False c by linarith
    qed (use False dbl Suc.prems in simp_all)
    finally show ?thesis by (simp add: mult.assoc)
  qed
qed

lemma power_loop_zero: "0 < c \<Longrightarrow> power_loop c 0 e pow"
  by (induction e arbitrary: pow) auto

lemma power_loop_small:
  assumes "unat c \<le> unat m" and "unat m < 2 ^ 63" and "0 < e"
  shows "\<not> power_loop c m e 1"
proof -
  obtain k where "e = Suc k" using assms(3) by (cases e) auto
  moreover have "unat (m * 2) = unat m * 2" using assms(2) by (simp add: unat_64_times wbase_def)
  ultimately show ?thesis using assms(1) by (simp add: word_le_nat_alt)
qed

lemma is_greater_iff:
  assumes c: "unat c \<le> 2 ^ 63" and m: "unat m < 2 ^ 63"
  shows "is_greater_than_power_two c m e \<longleftrightarrow> unat m * 2 ^ unat e < unat c"
proof (cases "e = 0 \<or> m = 0 \<or> unat c \<le> unat m")
  case True
  then consider "e = 0" | "e \<noteq> 0" "m = 0" | "e \<noteq> 0" "m \<noteq> 0" "unat c \<le> unat m" by blast
  then show ?thesis
  proof cases
    case 1
    then show ?thesis by (simp add: is_greater_than_power_two_def word_less_nat_alt)
  next
    case 2
    then show ?thesis
      using power_loop_zero [of c "unat e" 1] power_loop_small [of c m "unat e"]
      by (cases "c = 0") (auto simp: is_greater_than_power_two_def word_greater_zero_iff unat_gt_0)
  next
    case 3
    have "unat m \<le> unat m * 2 ^ unat e" by simp
    with 3(3) have "\<not> unat m * 2 ^ unat e < unat c" by linarith
    with 3 power_loop_small [OF 3(3) m, of "unat e"] show ?thesis
      by (simp add: is_greater_than_power_two_def unat_gt_0)
  qed
next
  case False
  then have "unat m \<noteq> 0" "unat m * 1 < unat c" by (simp_all add: unat_eq_0)
  from power_loop_value [OF c _ _ _ this(2,1), of 1 "unat e"] m False show ?thesis
    by (simp add: is_greater_than_power_two_def)
qed

section \<open>Random numbers\<close>

definition draw :: "nat \<Rightarrow> u8 list \<Rightarrow> (u8 list \<times> u8 list) option" where
  "draw n supply = (if length supply < n then None else Some (take n supply, drop n supply))"

partial_function (option) size_loop :: "nat \<Rightarrow> u64 \<Rightarrow> u64 \<Rightarrow> (nat \<times> u64) option" where
  "size_loop nbytes rand_max m =
     (if rand_max < m then size_loop (nbytes + 1) (rand_max * 256 + 255) m
      else Some (nbytes, rand_max))"

declare size_loop.simps [code]

definition random_range :: "u64 \<Rightarrow> (nat \<times> u64) option" where
  "random_range m = do {
     (nbytes, rand_max) \<leftarrow> size_loop 1 255 m;
     if m = 0 then None
     else (let rand_excess = rand_max mod m + 1;
               rand_excess = (if rand_excess = m then 0 else rand_excess)
           in if nbytes > 8 then None else Some (nbytes, rand_max - rand_excess))
   }"

partial_function (option) reject_loop :: "nat \<Rightarrow> u64 \<Rightarrow> u64 \<Rightarrow> u8 list \<Rightarrow> (u64 \<times> u8 list) option" where
  "reject_loop nbytes limit m supply = do {
     (bytes, rest) \<leftarrow> draw nbytes supply;
     let result = readb64 (Some (replicate (8 - nbytes) 0 @ bytes));
     if result \<le> limit then Some (result mod m, rest) else reject_loop nbytes limit m rest
   }"

declare reject_loop.simps [code]

definition random_mod :: "u64 \<Rightarrow> u8 list \<Rightarrow> (u64 \<times> u8 list) option" where
  "random_mod m supply = do {
     (nbytes, limit) \<leftarrow> random_range m;
     reject_loop nbytes limit m supply
   }"

definition random_int :: "u64 \<Rightarrow> u64 \<Rightarrow> u8 list \<Rightarrow> (u64 \<times> u8 list) option" where
  "random_int mn mx supply =
     (if mn \<ge> mx then Some (mn, supply)
      else
        let delta = mx - mn + 1;
            size = (if delta > 0 \<and> delta \<le> 0xff then 1
                    else if delta > 0 \<and> delta \<le> 0xffff then 2
                    else if delta > 0 \<and> delta \<le> 0xffffffff then 4 else 8)
        in do {
          (buffer, rest) \<leftarrow> draw size supply;
          let result = (if size = 1 then ucast (buffer ! 0)
                        else if size = 2 then ucast (readb16 (Some buffer))
                        else if size = 4 then readb32 (Some buffer)
                        else readb64 (Some buffer));
          Some (if delta = 0 then result else result mod delta + mn, rest)
        })"

definition swap_random :: "nat \<Rightarrow> nat \<Rightarrow> (nat list \<times> u8 list) option \<Rightarrow> (nat list \<times> u8 list) option" where
  "swap_random n i st = do {
     (arr, supply) \<leftarrow> st;
     (r, rest) \<leftarrow> random_mod (of_nat n) supply;
     Some (arr[i := arr ! unat r, unat r := arr ! i], rest)
   }"

definition random_permute :: "nat \<Rightarrow> u8 list \<Rightarrow> (nat list \<times> u8 list) option" where
  "random_permute n supply =
     (if n \<le> 1 then Some ([0..<n], supply)
      else for_up (swap_random n) n (Some ([0..<n], supply)))"

definition set_time_random :: "('l :: len) word timeval \<Rightarrow> u64 \<Rightarrow> u64 \<Rightarrow> u8 list \<Rightarrow> ('l word timeval \<times> u8 list) option" where
  "set_time_random start mn mx supply =
     (if mn \<ge> mx then Some (start, supply)
      else do {
        (r, rest) \<leftarrow> random_mod (mx - mn) supply;
        Some (add_us start (mn + r), rest)
      })"

text \<open>
  The loop that sizes the draw ends after at most seven rounds: the largest number of eight
  bytes is not below any modulus.
\<close>

lemma size_loop_value:
  assumes "1 \<le> n" "n \<le> 8"
  shows "\<exists>k. n \<le> k \<and> k \<le> 8 \<and> size_loop n (of_nat (256 ^ n - 1)) m = Some (k, of_nat (256 ^ k - 1)) \<and>
    unat m \<le> 256 ^ k - 1"
  using assms
proof (induction "8 - n" arbitrary: n)
  case 0
  then have n: "n = 8" by simp
  have "unat m \<le> 256 ^ 8 - 1" using unat_lt_wbase [of m] by (simp add: wbase_def)
  moreover have "\<not> (of_nat (256 ^ 8 - 1) :: u64) < m"
    using unat_lt_wbase [of m] by (simp add: word_less_nat_alt unat_of_nat wbase_def)
  ultimately show ?case using n by (intro exI [of _ 8]) (simp add: size_loop.simps)
next
  case (Suc j)
  then have n: "n < 8" by simp
  have pow: "(256 :: nat) ^ n < 2 ^ 64"
  proof -
    have "(256 :: nat) ^ n \<le> 256 ^ 7" using n by (intro power_increasing) simp_all
    then show ?thesis by simp
  qed
  have u: "unat (of_nat (256 ^ n - 1) :: u64) = 256 ^ n - 1"
  proof -
    have "unat (of_nat k :: u64) = k" if "k < 2 ^ 64" for k using that by (simp add: unat_of_nat)
    then show ?thesis using pow by (meson diff_le_self le_less_trans)
  qed
  have next_n: "(of_nat (256 ^ n - 1) * 256 + 255 :: u64) = of_nat (256 ^ (n + 1) - 1)"
  proof -
    have "1 \<le> (256 :: nat) ^ n" by simp
    then have "(256 ^ n - 1) * 256 + 255 = (256 ^ (n + 1) - 1 :: nat)"
      by (simp add: diff_mult_distrib)
    then show ?thesis by (metis of_nat_add of_nat_mult of_nat_numeral)
  qed
  show ?case
  proof (cases "256 ^ n - 1 < unat m")
    case True
    then have lt: "(of_nat (256 ^ n - 1) :: u64) < m" using u by (simp only: word_less_nat_alt)
    have "size_loop n (of_nat (256 ^ n - 1)) m = size_loop (n + 1) (of_nat (256 ^ (n + 1) - 1)) m"
      by (subst size_loop.simps) (simp only: lt next_n if_True)
    moreover have "j = 8 - (n + 1)" "n + 1 \<le> 8" using Suc n by simp_all
    ultimately show ?thesis using Suc.hyps(1) [of "n + 1"] by auto
  next
    case False
    then show ?thesis
      using u n by (intro exI [of _ n]) (subst size_loop.simps, simp add: word_less_nat_alt)
  qed
qed

lemma random_limit_arith:
  fixes R m :: nat
  assumes "0 < m" and "m \<le> R"
  defines "e \<equiv> (if R mod m + 1 = m then 0 else R mod m + 1)"
  shows "e \<le> R" and "m dvd (R - e + 1)" and "R + 1 < 2 * (R - e + 1)"
proof -
  have lt: "R mod m < m" using assms(1) by simp
  have div: "R = R div m * m + R mod m" by simp
  have q: "m \<le> R div m * m"
  proof -
    have "1 \<le> R div m" using assms(1,2) by (simp add: Suc_leI div_greater_zero_iff)
    then have "1 * m \<le> R div m * m" by (rule mult_le_mono1)
    then show ?thesis by simp
  qed
  show "e \<le> R"
  proof (cases "R mod m + 1 = m")
    case False
    then have "R mod m + 1 < m" using lt by linarith
    moreover have "e = R mod m + 1" using False by (simp add: e_def)
    ultimately show ?thesis using q div by linarith
  qed (simp add: e_def)
  show "m dvd (R - e + 1)"
  proof (cases "R mod m + 1 = m")
    case True
    moreover from this have "e = 0" by (simp add: e_def)
    ultimately have "R - e + 1 = R div m * m + m" using div by linarith
    then show ?thesis by simp
  next
    case False
    then have "e = R mod m + 1" by (simp add: e_def)
    then have "R - e + 1 = R div m * m" using div q assms(1) by linarith
    then show ?thesis by simp
  qed
  show "R + 1 < 2 * (R - e + 1)"
  proof (cases "R mod m + 1 = m")
    case False
    define Q r where "Q = R div m * m" and "r = R mod m"
    have "e = r + 1" "r + 1 < m" "m \<le> Q" "R = Q + r"
      using False lt q by (simp_all add: e_def Q_def r_def)
    then show ?thesis by simp
  qed (simp add: e_def)
qed

text \<open>
  The accepted values are those up to \<open>limit\<close>: their number is a multiple of the modulus, so
  that every residue is as likely as the others, and more than half of the values are
  accepted.
\<close>

lemma random_range_value:
  assumes "m \<noteq> 0"
  shows "\<exists>n limit. random_range m = Some (n, limit) \<and> 1 \<le> n \<and> n \<le> 8 \<and>
    unat m dvd unat limit + 1 \<and> unat limit < 256 ^ n \<and> 256 ^ n < 2 * (unat limit + 1)"
proof -
  obtain n where n: "1 \<le> n" "n \<le> 8" and run: "size_loop 1 255 m = Some (n, of_nat (256 ^ n - 1))"
    and le: "unat m \<le> 256 ^ n - 1"
    using size_loop_value [of 1 m] by auto
  define R where "R = (256 :: nat) ^ n - 1"
  have pow: "1 \<le> (256 :: nat) ^ n" by simp
  have "(256 :: nat) ^ n \<le> 256 ^ 8" using n by (intro power_increasing) simp_all
  then have "R < 2 ^ 64" using pow unfolding R_def by simp
  then have uR: "unat (of_nat R :: u64) = R" by (simp add: unat_of_nat)
  define e where "e = (if of_nat R mod m + 1 = m then 0 else of_nat R mod m + 1)"
  have pos: "0 < unat m" using assms by (simp add: unat_gt_0)
  have md: "unat (of_nat R mod m) = R mod unat m" by (simp add: unat_mod_distrib uR)
  have "R mod unat m + 1 < wbase"
    using mod_less_divisor [OF pos, of R] unat_lt_wbase [of m] by linarith
  then have inc: "unat (of_nat R mod m + 1) = R mod unat m + 1" by (simp add: unat_64_plus md)
  then have "of_nat R mod m + 1 = m \<longleftrightarrow> R mod unat m + 1 = unat m" by (metis word_unat_eq_iff)
  then have ue: "unat e = (if R mod unat m + 1 = unat m then 0 else R mod unat m + 1)"
    using inc by (simp add: e_def)
  note arith = random_limit_arith [OF pos le [folded R_def], folded ue]
  have ul: "unat (of_nat R - e) = R - unat e" using arith(1) by (simp add: unat_64_minus uR)
  have "random_range m = Some (n, of_nat R - e)"
    using run n assms unfolding random_range_def R_def [symmetric] e_def by (simp add: Let_def)
  moreover have "R + 1 = 256 ^ n" using pow by (simp add: R_def)
  ultimately show ?thesis using arith n ul by (intro exI [of _ n] exI [of _ "of_nat R - e"]) simp
qed

lemma draw_length: "draw n supply = Some (bs, rest) \<Longrightarrow> length bs = n \<and> supply = bs @ rest"
  by (auto simp: draw_def split: if_splits)

lemma reject_loop_result:
  assumes "reject_loop n limit m supply = Some (r, rest)"
  shows "\<exists>v. v \<le> limit \<and> r = v mod m"
proof -
  have "\<exists>v. v \<le> limit \<and> fst p = v mod m" if "reject_loop n limit m supply = Some p" for p
    using that
  proof (rule reject_loop.raw_induct [rotated])
    fix reject n limit m src p
    assume IH: "\<And>n limit m src p. reject n limit m src = Some p \<Longrightarrow>
        \<exists>v. v \<le> limit \<and> fst p = v mod m"
      and body: "draw n src \<bind> (\<lambda>(bytes, rest).
        let result = readb64 (Some (replicate (8 - n) 0 @ bytes))
        in if result \<le> limit then Some (result mod m, rest) else reject n limit m rest) = Some p"
    then show "\<exists>v. v \<le> limit \<and> fst p = v mod m"
      by (cases p) (fastforce simp: bind_eq_Some_conv Let_def split: if_splits)
  qed
  from this [OF assms] show ?thesis by simp
qed

lemma random_mod_less:
  assumes "m \<noteq> 0" and "random_mod m src = Some (r, rest)"
  shows "unat r < unat m"
proof -
  from assms(2) obtain n limit where "reject_loop n limit m src = Some (r, rest)"
    by (auto simp: random_mod_def bind_eq_Some_conv)
  from reject_loop_result [OF this] obtain v where "r = v mod m" by blast
  then show ?thesis using assms(1) by (simp add: unat_mod_distrib unat_gt_0)
qed

lemma mset_swap: "i < length xs \<Longrightarrow> j < length xs \<Longrightarrow> mset (xs[i := xs ! j, j := xs ! i]) = mset xs"
  by (rule mset_swap)

lemma swap_random_inv:
  assumes "2 \<le> n" "n < 2 ^ 31" "i < n" and st: "swap_random n i st = Some (arr, rest)"
  obtains arr0 rest0 where "st = Some (arr0, rest0)"
    and "length arr0 = n \<Longrightarrow> length arr = n \<and> mset arr = mset arr0"
proof -
  from st obtain arr0 rest0 r where 1: "st = Some (arr0, rest0)"
    "random_mod (of_nat n) rest0 = Some (r, rest)" "arr = arr0[i := arr0 ! unat r, unat r := arr0 ! i]"
    by (auto simp: swap_random_def bind_eq_Some_conv)
  have un: "unat (of_nat n :: u64) = n" using assms(2) by (simp add: unat_of_nat)
  then have "(of_nat n :: u64) \<noteq> 0" using assms(1) by auto
  from random_mod_less [OF this 1(2)] un have "unat r < n" by simp
  with 1 assms(3) that show thesis by (simp add: mset_swap)
qed

lemma random_permute_mset:
  assumes "n < 2 ^ 31" and "random_permute n supply = Some (arr, rest)"
  shows "mset arr = mset [0..<n]"
proof (cases "n \<le> 1")
  case True
  then show ?thesis using assms(2) by (simp add: random_permute_def)
next
  case False
  then have n: "2 \<le> n" by simp
  have "for_up (swap_random n) k (Some ([0..<n], supply)) = Some (a, s) \<Longrightarrow> k \<le> n \<Longrightarrow>
      length a = n \<and> mset a = mset [0..<n]" for k a s
  proof (induction k arbitrary: a s)
    case (Suc k)
    then have "k < n" and step: "swap_random n k (for_up (swap_random n) k (Some ([0..<n], supply))) = Some (a, s)"
      by simp_all
    from swap_random_inv [OF n assms(1) this] obtain a0 s0 where
      "for_up (swap_random n) k (Some ([0..<n], supply)) = Some (a0, s0)"
      "length a0 = n \<Longrightarrow> length a = n \<and> mset a = mset a0" by metis
    with Suc.IH Suc.prems(2) show ?case by simp
  qed auto
  with assms(2) False show ?thesis by (auto simp: random_permute_def)
qed

section \<open>Properties\<close>

text \<open>
  what the \<open>writeb\<close> functions store, the \<open>readb\<close> functions of the same width read back:
  the number, cut to that width.
\<close>

theorem readb_writeb:
  assumes "8 \<le> length p"
  shows "readb16 (writeb16 (Some p) w) = take_bit 16 w \<and>
    readb32 (writeb32 (Some p) v) = take_bit 32 v \<and>
    readb48 (writeb48 (Some p) v) = take_bit 48 v \<and> readb64 (writeb64 (Some p) v) = v"
  using assms by (simp add: readb16_writeb16 readb32_writeb32 readb48_writeb48 readb64_writeb64)

theorem readb_writeb_witness:
  "readb16 (writeb16 (Some (replicate 8 7)) 0x12345) = 0x2345 \<and>
   readb32 (writeb32 (Some (replicate 8 7)) 0x123456789abcdef0) = 0x9abcdef0 \<and>
   readb48 (writeb48 (Some (replicate 8 7)) 0x123456789abcdef0) = 0x56789abcdef0 \<and>
   readb64 (writeb64 (Some (replicate 8 7)) 0x123456789abcdef0) = 0x123456789abcdef0"
  using readb_writeb [of "replicate 8 7" "0x12345" "0x123456789abcdef0"] by simp

text \<open>
  \<open>matches\<close>, which compares whole bytes and then the high bits of one more, is the
  comparison bit by bit: it returns the number of bits plus one when \<open>matching_bits\<close> finds
  that all of them agree, and 0 otherwise; \<open>matching_bits\<close> is that number exactly when every
  bit agrees.
\<close>

theorem matches_is_bitwise:
  "matches x xbits y ybits =
     (if matching_bits x xbits y ybits = min xbits ybits then min xbits ybits + 1 else 0) \<and>
   (matching_bits x xbits y ybits = min xbits ybits \<longleftrightarrow>
     bitstring_matches x 0 y 0 (min xbits ybits))"
  unfolding matches_iff matching_bits_full by (auto simp: bitstring_matches_def list_ex_iff)

text \<open>
  For admissible arguments the byte index and the mask of a request bitmap name one bit,
  the one whose number is the leading bits of the address, inside a bitmap of
  \<open>2 ^ power_two\<close> bits; for all others both are -1.
\<close>

theorem bitmap_position:
  "if 0 < p \<and> p \<le> 16 \<and> 0 \<le> f \<and> f < 65536
   then \<exists>k. 0 \<le> k \<and> k < 8 \<and> allnet_bitmap_byte_mask p f = 2 ^ nat (7 - k) \<and>
     allnet_bitmap_byte_index p f * 8 + k = f div 2 ^ nat (16 - p) \<and>
     0 \<le> allnet_bitmap_byte_index p f * 8 + k \<and>
     allnet_bitmap_byte_index p f * 8 + k < 2 ^ nat p
   else allnet_bitmap_byte_index p f = -1 \<and> allnet_bitmap_byte_mask p f = -1"
proof (cases "0 < p \<and> p \<le> 16 \<and> 0 \<le> f \<and> f < 65536")
  case True
  then have p: "0 < p" "p \<le> 16" and f: "0 \<le> f" "f < 65536" by simp_all
  define s where "s = f div 2 ^ nat (16 - p)"
  have "(2 :: int) ^ nat p * 2 ^ nat (16 - p) = 2 ^ (nat p + nat (16 - p))" by (simp add: power_add)
  also have "nat p + nat (16 - p) = 16" using p by simp
  finally have "f < 2 ^ nat p * 2 ^ nat (16 - p)" using f by simp
  moreover have "s * 2 ^ nat (16 - p) \<le> f" by (simp add: s_def flip: minus_mod_eq_div_mult)
  ultimately have "s * 2 ^ nat (16 - p) < 2 ^ nat p * 2 ^ nat (16 - p)" by linarith
  then have s: "0 \<le> s" "s < 2 ^ nat p"
    using f by (simp_all add: s_def pos_imp_zdiv_nonneg_iff)
  have "allnet_bitmap_byte_index p f = s div 8" "allnet_bitmap_byte_mask p f = 2 ^ nat (7 - s mod 8)"
    using compute_index_mask_value [OF p f]
    by (simp_all add: allnet_bitmap_byte_index_def allnet_bitmap_byte_mask_def s_def)
  moreover have "s div 8 * 8 + s mod 8 = s" by simp
  ultimately show ?thesis using True s by (auto intro!: exI [of _ "s mod 8"] simp flip: s_def)
next
  case False
  then have "compute_index_mask p f = (-1, -1)" by (auto simp: compute_index_mask_def)
  then show ?thesis
    unfolding if_not_P [OF False] by (simp add: allnet_bitmap_byte_index_def allnet_bitmap_byte_mask_def)
qed

text \<open>
  \<open>time_exp_interval\<close> answers yes exactly when it has not done so before, or the time
  since the last yes is more than \<open>max\<close>, or more than \<open>min\<close> doubled once for each yes so
  far; only then the state changes. The doubling never overflows into a wrong answer, for
  times below half of the range.
\<close>

theorem time_exp_interval_correct:
  assumes "unat now \<le> 2 ^ 63" and "unat mn < 2 ^ 63"
  shows "time_exp_interval now last_time calls mn mx =
    (if last_time = 0 \<or> unat mx < unat now - unat last_time \<or>
        unat mn * 2 ^ unat calls < unat now - unat last_time
     then (True, now, calls + 1) else (False, last_time, calls))"
proof -
  define delta where "delta = (if now > last_time then now - last_time else 0)"
  have d: "unat delta = unat now - unat last_time"
    by (auto simp: delta_def word_less_nat_alt unat_64_minus)
  then have "is_greater_than_power_two delta mn calls \<longleftrightarrow> unat mn * 2 ^ unat calls < unat delta"
    using assms by (intro is_greater_iff) simp_all
  moreover have "time_exp_interval now last_time calls mn mx =
      (if last_time = 0 \<or> delta > mx \<or> is_greater_than_power_two delta mn calls
       then (True, now, calls + 1) else (False, last_time, calls))"
    by (simp only: time_exp_interval_def Let_def delta_def)
  ultimately show ?thesis by (simp add: word_less_nat_alt d)
qed

theorem time_exp_interval_correct_witness:
  "time_exp_interval 1000 900 3 10 500 = (True, 1000, 4) \<and>
   time_exp_interval 1000 900 4 10 500 = (False, 900, 4)"
  using time_exp_interval_correct [of 1000 10 900 3 500]
    time_exp_interval_correct [of 1000 10 900 4 500] by simp

text \<open>
  \<open>random_permute\<close> returns a permutation of the numbers below \<open>n\<close>, whatever bytes the
  system delivers.
\<close>

theorem random_permute_is_permutation:
  assumes "n < 2 ^ 31" and "random_permute n src = Some (arr, rest)"
  shows "distinct arr \<and> set arr = {..<n}"
proof -
  note mset = random_permute_mset [OF assms]
  have "distinct arr \<longleftrightarrow> distinct [0..<n]" by (rule mset_eq_imp_distinct_iff [OF mset])
  moreover have "set arr = set [0..<n]" by (rule mset_eq_setD [OF mset])
  ultimately show ?thesis by (simp only: distinct_upt set_upt atLeast0LessThan simp_thms)
qed

theorem random_permute_is_permutation_witness:
  "random_permute 3 [7, 2, 1, 9] = Some ([1, 0, 2], [9]) \<and>
   distinct [1, 0, 2 :: nat] \<and> set [1, 0, 2 :: nat] = {..<3}"
proof -
  have "random_permute 3 [7, 2, 1, 9] = Some ([1, 0, 2], [9])" by code_simp
  then show ?thesis using random_permute_is_permutation [of 3 "[7, 2, 1, 9]"] by simp
qed

end
