(* ===== verification/Priority.thy ===== *)
theory Priority
  imports AllnetPrelude
begin

text \<open>
  Packet priorities, \<open>lib/priority.c\<close>: fractions of \<open>2 ^ 30\<close> and the priority of a received
  packet. C's \<open>int\<close> variables are integers, converted from and to \<open>unsigned int\<close> where the
  code does; the debugging output is left out.
\<close>

section \<open>Definitions\<close>

definition allnet_priority_max :: u32 where
  "allnet_priority_max = push_bit 30 1"

definition allnet_one_half :: u32 where
  "allnet_one_half = drop_bit 1 allnet_priority_max"

definition allnet_one_eight :: u32 where
  "allnet_one_eight = drop_bit 3 allnet_priority_max"

definition allnet_five_eighths :: u32 where
  "allnet_five_eighths = allnet_one_half + allnet_one_eight"

definition allnet_priority_epsilon :: u32 where
  "allnet_priority_epsilon = 1"

definition power_half_fraction :: "u32 \<Rightarrow> u32" where
  "power_half_fraction pw =
     (if pw \<le> 0 then allnet_priority_max
      else if pw \<ge> 30 then 0
      else drop_bit (unat pw) allnet_priority_max)"

definition allnet_multiply :: "u32 \<Rightarrow> u32 \<Rightarrow> u32" where
  "allnet_multiply p1 p2 = ucast (drop_bit 30 (ucast p1 * ucast p2 :: u64))"

definition divide_fraction :: "u32 \<Rightarrow> u32 \<Rightarrow> u32" where
  "divide_fraction dividend divisor =
     ucast (ucast allnet_priority_max * ucast dividend div ucast divisor :: u64)"

definition allnet_divide :: "u32 \<Rightarrow> u32 \<Rightarrow> u32" where
  "allnet_divide n1 n2 = (if n1 \<ge> n2 then allnet_priority_max else divide_fraction n1 n2)"

definition compute_priority ::
  "u32 \<Rightarrow> u32 \<Rightarrow> u32 \<Rightarrow> u32 \<Rightarrow> u32 \<Rightarrow> u32 \<Rightarrow> u32 \<Rightarrow> bool \<Rightarrow> u32" where
  "compute_priority packet_size sbits dbits hops_already hops_max social_distance rate_fraction cacheable =
     (if social_distance \<le> 1 then allnet_five_eighths
      else
        let social_priority = sint (power_half_fraction (social_distance - 1));
            hops_already = (if hops_already < 1 then 1 else hops_already);
            hops_carried_priority =
              (if hops_already \<le> 4
               then sint (allnet_priority_max - allnet_one_eight * (hops_already - 1))
               else sint allnet_one_half);
            hops_total_priority =
              sint (if hops_max > 0 then power_half_fraction (hops_max - 1)
                    else allnet_priority_epsilon);
            hops_total_priority =
              (if hops_total_priority \<le> 0 then sint allnet_priority_epsilon
               else hops_total_priority);
            bits_priority = sint (allnet_priority_max - power_half_fraction (dbits + 1));
            rate_priority = sint (allnet_priority_max - rate_fraction);
            rate_priority =
              (if rate_priority < sint allnet_one_half then sint allnet_one_half
               else rate_priority);
            result = sint
              (allnet_multiply (of_int social_priority)
                (allnet_multiply
                  (allnet_multiply (of_int bits_priority) (of_int rate_priority))
                  (allnet_multiply (of_int hops_carried_priority)
                    (of_int hops_total_priority))));
            result =
              (if \<not> cacheable then
                 (if result \<ge> sint allnet_priority_max - sint allnet_priority_max div 10
                  then sint allnet_priority_max
                  else result + result div 10)
               else result);
            result = (if result \<le> 0 then sint allnet_priority_epsilon else result)
        in of_int result)"

section \<open>Fractions as numbers\<close>

abbreviation prio_max :: nat where
  "prio_max \<equiv> 2 ^ 30"

lemma unat_prio_max [simp]: "unat allnet_priority_max = prio_max"
  by (simp add: allnet_priority_max_def push_bit_eq_mult)

lemma unat_lt_32: "unat (w :: u32) < 2 ^ 32"
proof -
  have "unat w < 2 ^ LENGTH(32)" by (rule unsigned_less)
  then show ?thesis by simp
qed

lemma sint_small: "unat (w :: u32) < 2 ^ 31 \<Longrightarrow> sint w = int (unat w)"
proof -
  assume w: "unat w < 2 ^ 31"
  have "uint w = int (unat w)" by simp
  moreover have "int (unat w) < 2 ^ 31" using w by (simp only: of_nat_less_numeral_power_cancel_iff)
  ultimately have "- (2 ^ 31) \<le> uint w" "uint w < 2 ^ 31" by linarith+
  then have "signed_take_bit 31 (uint w) = uint w" by (rule signed_take_bit_int_eq_self)
  moreover have "sint w = signed_take_bit (LENGTH(32) - Suc 0) (uint w)" by (rule sint_uint)
  ultimately show "sint w = int (unat w)" by simp
qed

definition phf :: "nat \<Rightarrow> nat" where
  "phf n = (if n < 30 then 2 ^ (30 - n) else 0)"

lemma phf_le: "phf n \<le> prio_max"
proof -
  have "(2 :: nat) ^ (30 - n) \<le> 2 ^ 30" by (intro power_increasing) simp_all
  then show ?thesis by (simp add: phf_def)
qed

lemma phf_antimono: "m \<le> n \<Longrightarrow> phf n \<le> phf m"
  by (auto simp: phf_def intro: power_increasing)

lemma unat_power_half_fraction: "unat (power_half_fraction pw) = phf (unat pw)"
proof -
  have "unat (drop_bit (unat pw) allnet_priority_max) = prio_max div 2 ^ unat pw"
    by (simp only: unat_drop_bit_eq unat_prio_max drop_bit_nat_def)
  moreover have "prio_max div 2 ^ n = 2 ^ (30 - n)" if "n < 30" for n :: nat
    using that power_diff [of "2 :: nat" n 30] by simp
  ultimately show ?thesis
    by (auto simp: power_half_fraction_def phf_def word_le_nat_alt unat_eq_0)
qed

lemma unat_allnet_multiply:
  assumes "unat p \<le> prio_max" "unat q \<le> prio_max"
  shows "unat (allnet_multiply p q) = unat p * unat q div prio_max"
proof -
  have "unat p * unat q \<le> prio_max * prio_max" using assms by (intro mult_le_mono)
  then have le: "unat p * unat q \<le> 2 ^ 60" by simp
  have "unat (ucast p * ucast q :: u64) = unat p * unat q"
    using le by (simp add: unat_64_times wbase_def unsigned_ucast_eq take_bit_nat_eq_self
        less_le_trans [OF unat_lt_32])
  then have "unat (drop_bit 30 (ucast p * ucast q :: u64)) = unat p * unat q div prio_max"
    by (simp only: unat_drop_bit_eq drop_bit_nat_def)
  moreover have "unat p * unat q div prio_max < 2 ^ 32" using le by (simp add: div_le_mono less_mult_imp_div_less)
  ultimately show ?thesis
    by (simp only: allnet_multiply_def unsigned_ucast_eq) (simp add: take_bit_nat_eq_self)
qed

lemma allnet_multiply_le:
  assumes "unat p \<le> prio_max" "unat q \<le> prio_max"
  shows "unat (allnet_multiply p q) \<le> prio_max"
proof -
  have "unat p * unat q \<le> prio_max * prio_max" using assms by (intro mult_le_mono)
  then have "unat p * unat q div prio_max \<le> prio_max * prio_max div prio_max" by (rule div_le_mono)
  then show ?thesis using unat_allnet_multiply [OF assms] by simp
qed

lemma unat_allnet_divide:
  "unat (allnet_divide n1 n2) =
     (if unat n2 \<le> unat n1 then prio_max else prio_max * unat n1 div unat n2)"
proof (cases "unat n2 \<le> unat n1")
  case True
  then show ?thesis by (simp add: allnet_divide_def word_le_nat_alt)
next
  case False
  have n1: "unat n1 < 2 ^ 32" by (rule unat_lt_32)
  have "prio_max * unat n1 \<le> prio_max * 2 ^ 32" using n1 by (intro mult_le_mono2) simp
  then have "prio_max * unat n1 < wbase" by (simp add: wbase_def)
  then have "unat (ucast allnet_priority_max * ucast n1 :: u64) = prio_max * unat n1"
    using n1 by (simp add: unat_64_times unsigned_ucast_eq take_bit_nat_eq_self)
  then have "unat (ucast allnet_priority_max * ucast n1 div ucast n2 :: u64) =
      prio_max * unat n1 div unat n2"
    using unat_lt_32 [of n2] by (simp add: unat_div_distrib unsigned_ucast_eq take_bit_nat_eq_self)
  moreover have "prio_max * unat n1 div unat n2 < 2 ^ 32"
  proof -
    have "prio_max * unat n1 div unat n2 \<le> prio_max * unat n2 div unat n2"
      using False by (intro div_le_mono mult_le_mono2) simp
    also have "\<dots> \<le> prio_max" by simp
    finally show ?thesis by simp
  qed
  ultimately have "unat (divide_fraction n1 n2) = prio_max * unat n1 div unat n2"
    by (simp only: divide_fraction_def unsigned_ucast_eq) (simp add: take_bit_nat_eq_self)
  with False show ?thesis by (simp add: allnet_divide_def word_le_nat_alt)
qed

section \<open>The priority as a number\<close>

text \<open>
  \<open>prio_spec\<close> is the formula on natural numbers: the product of the fractions, the boost of
  packets that are not cacheable, and at least 1.
\<close>

definition prio_mult :: "nat \<Rightarrow> nat \<Rightarrow> nat" where
  "prio_mult p q = p * q div prio_max"

definition prio_boost :: "nat \<Rightarrow> nat" where
  "prio_boost r = (if prio_max - prio_max div 10 \<le> r then prio_max else r + r div 10)"

definition hops_fraction :: "nat \<Rightarrow> nat" where
  "hops_fraction h = (if h \<le> 4 then prio_max - prio_max div 8 * (h - 1) else prio_max div 2)"

definition prio_spec :: "nat \<Rightarrow> nat \<Rightarrow> nat \<Rightarrow> nat \<Rightarrow> nat \<Rightarrow> bool \<Rightarrow> nat" where
  "prio_spec dbits hops hops_max sd rate cacheable =
     (let r = prio_mult (phf (sd - 1))
                (prio_mult
                  (prio_mult (prio_max - phf ((dbits + 1) mod 2 ^ 32))
                    (max (prio_max div 2) (prio_max - rate)))
                  (prio_mult (hops_fraction hops)
                    (max 1 (if hops_max = 0 then 1 else phf (hops_max - 1)))));
          r = (if cacheable then r else prio_boost r)
      in max 1 r)"

lemma prio_mult_le: "p \<le> prio_max \<Longrightarrow> q \<le> b \<Longrightarrow> prio_mult p q \<le> b"
proof -
  assume "p \<le> prio_max" "q \<le> b"
  then have "p * q div prio_max \<le> prio_max * b div prio_max" by (intro div_le_mono mult_le_mono)
  then show ?thesis by (simp add: prio_mult_def)
qed

lemma prio_mult_mono: "p \<le> p' \<Longrightarrow> q \<le> q' \<Longrightarrow> prio_mult p q \<le> prio_mult p' q'"
  by (simp add: prio_mult_def div_le_mono mult_le_mono)

lemma hops_fraction_le: "hops_fraction h \<le> prio_max"
  by (simp add: hops_fraction_def)

definition is_fraction :: "int \<Rightarrow> nat \<Rightarrow> bool" where
  "is_fraction i n \<longleftrightarrow> i = int n \<and> n \<le> prio_max"

lemma is_fraction_word: "unat w \<le> prio_max \<Longrightarrow> is_fraction (sint w) (unat (w :: u32))"
  using sint_small [of w] by (simp add: is_fraction_def)

lemma unat_of_int_fraction: "is_fraction i n \<Longrightarrow> unat (of_int i :: u32) = n"
  by (simp add: is_fraction_def unat_of_nat)

lemma unat_multiply_fractions:
  assumes "unat v = m" "m \<le> prio_max" "unat w = n" "n \<le> prio_max"
  shows "unat (allnet_multiply v w) = prio_mult m n" and "prio_mult m n \<le> prio_max"
  using assms unat_allnet_multiply [of v w] prio_mult_le [of m n prio_max]
  by (simp_all add: prio_mult_def)

lemma bits_fraction:
  "is_fraction (sint (allnet_priority_max - power_half_fraction (dbits + 1)))
     (prio_max - phf ((unat dbits + 1) mod 2 ^ 32))"
proof -
  have "unat (dbits + 1) = (unat dbits + 1) mod 2 ^ 32" by (simp add: unat_word_ariths)
  then have p: "unat (power_half_fraction (dbits + 1)) = phf ((unat dbits + 1) mod 2 ^ 32)"
    by (simp only: unat_power_half_fraction)
  with phf_le have "power_half_fraction (dbits + 1) \<le> allnet_priority_max"
    by (simp add: word_le_nat_alt)
  then have "unat (allnet_priority_max - power_half_fraction (dbits + 1)) =
      prio_max - phf ((unat dbits + 1) mod 2 ^ 32)"
    using p by (simp add: unat_sub)
  then show ?thesis using is_fraction_word by (metis diff_le_self)
qed

lemma rate_fraction_word:
  assumes "unat rate \<le> prio_max"
  shows "is_fraction (if sint (allnet_priority_max - rate) < sint allnet_one_half then sint allnet_one_half
      else sint (allnet_priority_max - rate)) (max (prio_max div 2) (prio_max - unat rate))"
proof -
  have "rate \<le> allnet_priority_max" using assms by (simp add: word_le_nat_alt)
  then have "unat (allnet_priority_max - rate) = prio_max - unat rate" by (simp add: unat_sub)
  then have f: "is_fraction (sint (allnet_priority_max - rate)) (prio_max - unat rate)"
    by (metis diff_le_self is_fraction_word)
  have "unat allnet_one_half = prio_max div 2"
    by (simp only: allnet_one_half_def unat_drop_bit_eq unat_prio_max drop_bit_nat_def) simp
  then have h: "is_fraction (sint allnet_one_half) (prio_max div 2)"
    by (metis div_le_dividend is_fraction_word)
  from f h show ?thesis by (auto simp: is_fraction_def)
qed

lemma hops_fraction_word:
  "is_fraction (if (if hops < 1 then 1 else hops) \<le> 4
      then sint (allnet_priority_max - allnet_one_eight * ((if hops < 1 then 1 else hops) - 1))
      else sint allnet_one_half) (hops_fraction (unat hops))"
proof -
  have half: "unat allnet_one_half = prio_max div 2"
    by (simp only: allnet_one_half_def unat_drop_bit_eq unat_prio_max drop_bit_nat_def) simp
  have eighth: "unat allnet_one_eight = prio_max div 8"
    by (simp only: allnet_one_eight_def unat_drop_bit_eq unat_prio_max drop_bit_nat_def) simp
  define h where "h = (if hops < 1 then 1 else hops)"
  have uh: "unat h = max 1 (unat hops)" by (auto simp: h_def word_less_nat_alt max_def)
  show ?thesis
  proof (cases "unat hops \<le> 4")
    case True
    have "unat (h - 1) = unat hops - 1" using uh by (subst unat_sub) (auto simp: word_le_nat_alt)
    moreover have "prio_max div 8 * (unat hops - 1) \<le> prio_max div 8 * 3"
      using True by (intro mult_le_mono2) simp
    ultimately have m: "unat (allnet_one_eight * (h - 1)) = prio_max div 8 * (unat hops - 1)"
      "prio_max div 8 * (unat hops - 1) \<le> prio_max"
      by (simp_all add: unat_word_ariths eighth)
    then have "unat (allnet_priority_max - allnet_one_eight * (h - 1)) = hops_fraction (unat hops)"
      using True by (subst unat_sub) (simp_all add: word_le_nat_alt hops_fraction_def)
    then have "is_fraction (sint (allnet_priority_max - allnet_one_eight * (h - 1))) (hops_fraction (unat hops))"
      using is_fraction_word hops_fraction_le by metis
    moreover have "h \<le> 4" using True uh by (simp add: word_le_nat_alt)
    ultimately show ?thesis unfolding h_def [symmetric] by (simp only: if_True)
  next
    case False
    then have "\<not> h \<le> 4" using uh by (simp add: word_le_nat_alt)
    moreover have "hops_fraction (unat hops) = prio_max div 2" using False by (simp add: hops_fraction_def)
    moreover have "is_fraction (sint allnet_one_half) (prio_max div 2)"
      using half is_fraction_word [of allnet_one_half] by simp
    ultimately show ?thesis unfolding h_def [symmetric] by (simp only: if_False)
  qed
qed

lemma total_fraction:
  "is_fraction
     (if sint (if hops_max > 0 then power_half_fraction (hops_max - 1) else allnet_priority_epsilon) \<le> 0
      then sint allnet_priority_epsilon
      else sint (if hops_max > 0 then power_half_fraction (hops_max - 1) else allnet_priority_epsilon))
     (max 1 (if unat hops_max = 0 then 1 else phf (unat hops_max - 1)))"
proof -
  define p where "p = (if hops_max > 0 then power_half_fraction (hops_max - 1) else allnet_priority_epsilon)"
  have "unat p = (if unat hops_max = 0 then 1 else phf (unat hops_max - 1))"
  proof (cases "hops_max = 0")
    case False
    then have "unat (hops_max - 1) = unat hops_max - 1" by (simp add: unat_minus_one)
    with False show ?thesis
      by (simp add: p_def unat_power_half_fraction word_greater_zero_iff unat_eq_0)
  qed (simp add: p_def allnet_priority_epsilon_def)
  moreover from this have "unat p \<le> prio_max" using phf_le by simp
  moreover from this have "is_fraction (sint p) (unat p)" by (rule is_fraction_word)
  ultimately show ?thesis
    by (auto simp: is_fraction_def allnet_priority_epsilon_def simp flip: p_def)
qed

lemma boost_fraction:
  assumes "is_fraction r n"
  shows "is_fraction (if r \<ge> sint allnet_priority_max - sint allnet_priority_max div 10
      then sint allnet_priority_max else r + r div 10) (prio_boost n)"
proof -
  have m: "sint allnet_priority_max = 1073741824" using sint_small [of allnet_priority_max] by simp
  have r: "r = int n" "n \<le> 1073741824" using assms by (simp_all add: is_fraction_def)
  show ?thesis
  proof (cases "prio_max - prio_max div 10 \<le> n")
    case True
    then have "966367642 \<le> r" using r by simp
    with True show ?thesis by (simp add: m is_fraction_def prio_boost_def)
  next
    case False
    then have "\<not> 966367642 \<le> r" using r by simp
    moreover have "int n + int n div 10 = int (n + n div 10)" by (simp add: zdiv_int)
    moreover have "n + n div 10 \<le> 1073741824" using False by simp
    ultimately show ?thesis using False r(1) by (simp add: m is_fraction_def prio_boost_def)
  qed
qed

lemma compute_priority_value:
  assumes sd: "1 < sd" and rate: "unat rate \<le> prio_max"
  shows "unat (compute_priority packet_size sbits dbits hops hops_max sd rate cacheable) =
    prio_spec (unat dbits) (unat hops) (unat hops_max) (unat sd) (unat rate) cacheable"
proof -
  let ?sp = "sint (power_half_fraction (sd - 1))"
  let ?hc = "if (if hops < 1 then 1 else hops) \<le> 4
      then sint (allnet_priority_max - allnet_one_eight * ((if hops < 1 then 1 else hops) - 1))
      else sint allnet_one_half"
  let ?p = "sint (if hops_max > 0 then power_half_fraction (hops_max - 1) else allnet_priority_epsilon)"
  let ?ht = "if ?p \<le> 0 then sint allnet_priority_epsilon else ?p"
  let ?bp = "sint (allnet_priority_max - power_half_fraction (dbits + 1))"
  let ?rp = "if sint (allnet_priority_max - rate) < sint allnet_one_half then sint allnet_one_half
      else sint (allnet_priority_max - rate)"
  let ?r = "allnet_multiply (of_int ?sp) (allnet_multiply (allnet_multiply (of_int ?bp) (of_int ?rp))
      (allnet_multiply (of_int ?hc) (of_int ?ht)))"
  define r where "r = ?r"
  have "unat (sd - 1) = unat sd - 1" using sd by (subst unat_sub) (auto simp: word_le_nat_alt word_less_nat_alt)
  then have sp: "is_fraction ?sp (phf (unat sd - 1))"
    by (metis is_fraction_word phf_le unat_power_half_fraction)
  note fr = unat_of_int_fraction [OF sp] unat_of_int_fraction [OF bits_fraction [of dbits]]
    unat_of_int_fraction [OF rate_fraction_word [OF rate]]
    unat_of_int_fraction [OF hops_fraction_word [of hops]]
    unat_of_int_fraction [OF total_fraction [of hops_max]]
  note le = sp [unfolded is_fraction_def, THEN conjunct2]
    bits_fraction [of dbits, unfolded is_fraction_def, THEN conjunct2]
    rate_fraction_word [OF rate, unfolded is_fraction_def, THEN conjunct2]
    hops_fraction_word [of hops, unfolded is_fraction_def, THEN conjunct2]
    total_fraction [of hops_max, unfolded is_fraction_def, THEN conjunct2]
  note m1 = unat_multiply_fractions [OF fr(2) le(2) fr(3) le(3)]
  note m2 = unat_multiply_fractions [OF fr(4) le(4) fr(5) le(5)]
  note m3 = unat_multiply_fractions [OF m1 m2]
  note m4 = unat_multiply_fractions [OF fr(1) le(1) m3, folded r_def]
  define n where "n = prio_mult (phf (unat sd - 1)) (prio_mult
      (prio_mult (prio_max - phf ((unat dbits + 1) mod 2 ^ 32)) (max (prio_max div 2) (prio_max - unat rate)))
      (prio_mult (hops_fraction (unat hops)) (max 1 (if unat hops_max = 0 then 1 else phf (unat hops_max - 1)))))"
  have r: "is_fraction (sint r) n" using m4 is_fraction_word [of r] by (simp add: n_def)
  define b where "b = (if \<not> cacheable then
      (if sint r \<ge> sint allnet_priority_max - sint allnet_priority_max div 10
       then sint allnet_priority_max else sint r + sint r div 10) else sint r)"
  have b: "is_fraction b (if cacheable then n else prio_boost n)"
    using r boost_fraction [OF r] by (simp add: b_def)
  have "\<not> sd \<le> 1" using sd by simp
  then have run: "compute_priority packet_size sbits dbits hops hops_max sd rate cacheable =
      of_int (if b \<le> 0 then sint allnet_priority_epsilon else b)"
    by (simp only: compute_priority_def Let_def if_False b_def r_def)
  have "is_fraction (if b \<le> 0 then sint allnet_priority_epsilon else b)
      (max 1 (if cacheable then n else prio_boost n))"
    using b by (auto simp: is_fraction_def allnet_priority_epsilon_def)
  from unat_of_int_fraction [OF this] show ?thesis
    unfolding run prio_spec_def Let_def n_def .
qed

section \<open>Bounds and order\<close>

lemma unat_five_eighths: "unat allnet_five_eighths = 671088640"
proof -
  have "unat allnet_one_half = prio_max div 2" "unat allnet_one_eight = prio_max div 8"
    by (simp_all only: allnet_one_half_def allnet_one_eight_def unat_drop_bit_eq unat_prio_max
        drop_bit_nat_def power_one_right) simp_all
  then show ?thesis by (simp add: allnet_five_eighths_def unat_word_ariths)
qed

lemma prio_mult_bits_rate:
  "prio_mult (prio_mult (prio_max - a) (max (prio_max div 2) (prio_max - b)))
     (prio_mult (hops_fraction h) t) \<le> t"
proof (rule prio_mult_le)
  show "prio_mult (prio_max - a) (max (prio_max div 2) (prio_max - b)) \<le> prio_max"
    by (rule prio_mult_le) simp_all
  show "prio_mult (hops_fraction h) t \<le> t" by (rule prio_mult_le [OF hops_fraction_le order_refl])
qed

lemma total_le: "max 1 (if hm = 0 then 1 else phf (hm - 1)) \<le> prio_max"
  using phf_le [of "hm - 1"] by simp

lemma prio_spec_bound:
  assumes "2 \<le> sd"
  shows "1 \<le> prio_spec d h hm sd r c \<and> prio_spec d h hm sd r c \<le> 590558003"
proof -
  define t where "t = max 1 (if hm = 0 then 1 else phf (hm - 1))"
  define x where "x = prio_mult (prio_mult (prio_max - phf ((d + 1) mod 2 ^ 32))
      (max (prio_max div 2) (prio_max - r))) (prio_mult (hops_fraction h) t)"
  define n where "n = prio_mult (phf (sd - 1)) x"
  have "x \<le> prio_max"
    using prio_mult_bits_rate total_le [of hm] unfolding x_def t_def by (rule le_trans)
  moreover have "phf (sd - 1) \<le> 536870912" using phf_antimono [of 1 "sd - 1"] assms by (simp add: phf_def)
  ultimately have "n \<le> prio_mult 536870912 prio_max" unfolding n_def by (intro prio_mult_mono)
  then have n: "n \<le> 536870912" by (simp add: prio_mult_def)
  then have "n div 10 \<le> 53687091" by simp
  then have "prio_boost n \<le> 590558003" using n by (simp add: prio_boost_def)
  moreover have "prio_spec d h hm sd r c = max 1 (if c then n else prio_boost n)"
    by (simp only: prio_spec_def Let_def n_def x_def t_def)
  ultimately show ?thesis using n by simp
qed

section \<open>Properties\<close>

text \<open>
  C22: whatever the header fields, a priority is at least \<open>ALLNET_PRIORITY_EPSILON\<close>, and for a
  rate that is a fraction it stays strictly below the priority of friends for everyone who
  is not one: the boost of packets that are not cacheable cannot lift a stranger over
  \<open>ALLNET_PRIORITY_FRIENDS_HIGH\<close>.
\<close>

theorem compute_priority_bounds:
  assumes "unat rate \<le> 2 ^ 30"
  shows "1 \<le> unat (compute_priority n sbits dbits hops hops_max sd rate c) \<and>
    (if sd \<le> 1 then compute_priority n sbits dbits hops hops_max sd rate c = allnet_five_eighths
     else compute_priority n sbits dbits hops hops_max sd rate c < allnet_five_eighths)"
proof -
  note five = unat_five_eighths
  show ?thesis
  proof (cases "sd \<le> 1")
    case True
    then show ?thesis using five by (simp add: compute_priority_def)
  next
    case False
    then have "1 < sd" "2 \<le> unat sd" by (simp_all add: not_le word_less_nat_alt Suc_le_eq numeral_2_eq_2)
    from prio_spec_bound [OF this(2), of "unat dbits" "unat hops" "unat hops_max" "unat rate" c]
      compute_priority_value [OF this(1) assms, of n sbits dbits hops hops_max c]
    have "1 \<le> unat (compute_priority n sbits dbits hops hops_max sd rate c)"
      "unat (compute_priority n sbits dbits hops hops_max sd rate c) < 671088640" by linarith+
    with False five show ?thesis by (simp add: word_less_nat_alt)
  qed
qed

theorem compute_priority_bounds_witness:
  "1 \<le> unat (compute_priority 100 16 16 1 10 2 0 False) \<and>
   compute_priority 100 16 16 1 10 2 0 False < allnet_five_eighths"
proof -
  have "\<not> (2 :: u32) \<le> 1" by (simp add: word_le_nat_alt)
  then show ?thesis using compute_priority_bounds [of 0 100 16 16 1 10 2 False] by simp
qed

end
