(* ===== verification/StreamCrypt.thy ===== *)
theory StreamCrypt
  imports AesCipher ShaHash UtilBytes
begin

text \<open>
  \<open>lib/stream.c\<close>: authenticated encryption of a data stream with AES in counter mode and
  HMAC-SHA-512. The block cipher of \<open>crypt_sel.c\<close> is a parameter: either the OpenSSL function,
  or \<open>wp_aes_encrypt_block\<close>. A buffer is the list of its bytes, so its size is its length.
\<close>

section \<open>The code\<close>

record stream_state =
  key :: "u8 list"
  secret :: "u8 list"
  counter_size :: int
  hash_size :: int
  counter :: u64
  block_offset :: int

text \<open>With \<open>None\<close> the cipher is the one of \<open>wp_aes.c\<close>.\<close>

definition allnet_aes_encrypt_block ::
  "(u8 list \<Rightarrow> u8 list \<Rightarrow> u8 list option) option \<Rightarrow> u8 list \<Rightarrow> u8 list \<Rightarrow> u8 list option" where
  "allnet_aes_encrypt_block openssl k block =
     (case openssl of Some encrypt \<Rightarrow> encrypt k block | None \<Rightarrow> wp_aes_encrypt_block 32 k block)"

text \<open>The random bytes are those the system delivers when they are asked for.\<close>

definition allnet_stream_init ::
  "u8 list \<Rightarrow> u8 list option \<Rightarrow> u8 list \<Rightarrow> u8 list option \<Rightarrow> int \<Rightarrow> int \<Rightarrow>
   stream_state \<Rightarrow> stream_state" where
  "allnet_stream_init k random_key sec random_secret csize hsize state =
     (if csize \<le> 0 \<or> csize > 8 \<or> hsize < 0 \<or> hsize > 64 then state
      else
        let k = (case random_key of Some r \<Rightarrow> r | None \<Rightarrow> k);
            sec = (case random_secret of Some r \<Rightarrow> r | None \<Rightarrow> sec)
        in state\<lparr>key := take 32 k, secret := take 64 sec, counter_size := csize,
                 hash_size := hsize, counter := 1, block_offset := 0\<rparr>)"

definition update_counter :: "u64 \<Rightarrow> u8 list" where
  "update_counter val =
     memcpy (replicate 16 0) (16 - 8) (the (writeb64 (Some (replicate 8 0)) val))"

type_synonym cipher = "u8 list \<Rightarrow> u8 list \<Rightarrow> u8 list option"

definition aes_next_byte ::
  "cipher \<Rightarrow> stream_state \<Rightarrow> u8 list \<Rightarrow> bool \<Rightarrow> u8 \<times> stream_state \<times> u8 list" where
  "aes_next_byte aes sp block init =
     (let next = (\<lambda>sp block.
            (block ! nat (block_offset sp), sp\<lparr>block_offset := block_offset sp + 1\<rparr>, block))
      in if init \<or> (block_offset sp + 1) mod 16 = 0 then
           (let sp = (if \<not> init then sp\<lparr>counter := counter sp + 1, block_offset := 0\<rparr> else sp)
            in case aes (key sp) (update_counter (counter sp)) of
                 None \<Rightarrow> (0xff, sp, block)
               | Some block \<Rightarrow> if init then (0, sp, block) else next sp block)
         else next sp block)"

fun crypt_loop :: "cipher \<Rightarrow> stream_state \<Rightarrow> u8 list \<Rightarrow> u8 list \<Rightarrow> u8 list \<times> stream_state" where
  "crypt_loop aes sp block [] = ([], sp)"
| "crypt_loop aes sp block (t # ts) =
     (case aes_next_byte aes sp block False of (k, sp, block) \<Rightarrow>
        (case crypt_loop aes sp block ts of (rs, sp) \<Rightarrow> ((t XOR k) # rs, sp)))"

text \<open>
  The three results are the value returned, the buffer and the state; \<open>None\<close> is a call of
  \<open>sha512hmac\<close> that exits. \<open>junk\<close> is what the uninitialised block holds.
\<close>

definition allnet_stream_encrypt_buffer ::
  "cipher \<Rightarrow> bool \<Rightarrow> u8 list \<Rightarrow> stream_state \<Rightarrow> u8 list \<Rightarrow> u8 list \<Rightarrow>
   (int \<times> u8 list \<times> stream_state) option" where
  "allnet_stream_encrypt_buffer aes malloc_ok junk sp text result =
     (let tsize = length text
      in if tsize = 0 then Some (0, result, sp)
         else if int tsize + counter_size sp + hash_size sp > int (length result)
         then Some (0, result, sp)
         else
           let send_counter = counter sp * 16 + of_int (block_offset sp);
               (_, sp, crypt_block) = aes_next_byte aes sp junk True;
               (encrypted, sp) = crypt_loop aes sp crypt_block text;
               result = memcpy result 0 encrypted;
               written = tsize;
               (result, written) =
                 (if counter_size sp > 0 then
                    let send_counter_bytes = the (writeb64 (Some (replicate 8 0)) send_counter);
                        size = nat (counter_size sp);
                        result = memcpy result tsize (replicate size 0);
                        num_bytes = min size 8
                    in (memcpy result (tsize + (size - num_bytes))
                          (drop (8 - num_bytes) send_counter_bytes), written + num_bytes)
                  else (result, written))
           in if hash_size sp > 0 then do {
                hmac \<leftarrow> sha512hmac malloc_ok (take written result) (secret sp);
                let size = nat (hash_size sp);
                let num_bytes = min size 64;
                let result = memcpy result written (replicate (size - num_bytes) 0);
                let written = written + (size - num_bytes);
                let result = memcpy result written (take num_bytes hmac);
                let written = written + num_bytes;
                Some (int written, result, sp)
              }
              else Some (int written, result, sp))"

definition allnet_stream_decrypt_buffer ::
  "cipher \<Rightarrow> bool \<Rightarrow> u8 list \<Rightarrow> stream_state \<Rightarrow> u8 list \<Rightarrow> u8 list \<Rightarrow>
   (int \<times> u8 list \<times> stream_state) option" where
  "allnet_stream_decrypt_buffer aes malloc_ok junk sp packet text =
     (let psize = length packet; csize = nat (counter_size sp); hsize = nat (hash_size sp)
      in if psize = 0 then Some (0, text, sp)
         else if counter_size sp + hash_size sp \<ge> int psize then Some (0, text, sp)
         else if int psize - (counter_size sp + hash_size sp) > int (length text)
         then Some (0, text, sp)
         else do {
           authentic \<leftarrow>
             (if hash_size sp > 0 then do {
                hmac \<leftarrow> sha512hmac malloc_ok (take (psize - hsize) packet) (secret sp);
                let num_bytes = min hsize 64;
                Some (drop (psize - num_bytes) packet = take num_bytes hmac)
              }
              else Some True);
           if \<not> authentic then Some (0, text, sp)
           else
             let position = counter sp * 16 + of_int (block_offset sp);
                 position =
                   (if counter_size sp > 0 then
                      let num_bytes = min csize 8;
                          counter_bytes = memcpy (replicate 8 0) (8 - num_bytes)
                            (take num_bytes (drop (psize - hsize - num_bytes) packet));
                          received_counter = readb64 (Some counter_bytes);
                          shift = 8 * num_bytes
                      in if shift \<ge> 64 then received_counter
                         else push_bit shift (drop_bit shift position) OR received_counter
                    else position);
                 sp = sp\<lparr>block_offset := uint (position mod 16), counter := position div 16\<rparr>;
                 rsize = psize - (csize + hsize);
                 (_, sp, crypt_block) = aes_next_byte aes sp junk True;
                 (decrypted, sp) = crypt_loop aes sp crypt_block (take rsize packet)
             in Some (1, memcpy text 0 decrypted, sp)
         })"

section \<open>The key stream\<close>

text \<open>
  The fifteen bytes used of each encrypted counter form one stream of key bytes; a state stands
  for a position in it.
\<close>

definition stream_byte :: "cipher \<Rightarrow> u8 list \<Rightarrow> nat \<Rightarrow> u8" where
  "stream_byte aes k p = the (aes k (update_counter (of_nat (p div 15)))) ! (p mod 15)"

definition stream_pos :: "stream_state \<Rightarrow> nat" where
  "stream_pos sp = 15 * unat (counter sp) + nat (block_offset sp)"

definition stream_ok :: "stream_state \<Rightarrow> bool" where
  "stream_ok sp \<longleftrightarrow> length (key sp) = 32 \<and> length (secret sp) = 64 \<and>
     0 < counter_size sp \<and> counter_size sp \<le> 8 \<and> 0 \<le> hash_size sp \<and> hash_size sp \<le> 64 \<and>
     0 \<le> block_offset sp \<and> block_offset sp \<le> 15"

definition current_block :: "cipher \<Rightarrow> stream_state \<Rightarrow> u8 list" where
  "current_block aes sp = the (aes (key sp) (update_counter (counter sp)))"

text \<open>What is relied on of a block cipher: it encrypts every block.\<close>

locale block_cipher =
  fixes aes :: "u8 list \<Rightarrow> u8 list \<Rightarrow> u8 list option"
  assumes total: "length k = 32 \<Longrightarrow> length b = 16 \<Longrightarrow> \<exists>c. aes k b = Some c \<and> length c = 16"
begin

lemma encrypts:
  assumes "length (key sp) = 32" and "length (update_counter (counter sp)) = 16"
  shows "aes (key sp) (update_counter (counter sp)) = Some (current_block aes sp)"
  using total [OF assms] by (auto simp: current_block_def)

lemma init_block:
  assumes "length (key sp) = 32" and "length (update_counter (counter sp)) = 16"
  shows "aes_next_byte aes sp junk True = (0, sp, current_block aes sp)"
  using encrypts [OF assms] by (simp add: aes_next_byte_def Let_def)

end

lemma length_writeb64 [simp]: "length (the (writeb64 (Some p) v)) = length p"
  by (simp add: writeb64_def)

lemma length_update_counter [simp]: "length (update_counter v) = 16"
  by (simp add: update_counter_def memcpy_def)

lemma unat_next: "unat (x :: u64) + 1 < 2 ^ 64 \<Longrightarrow> unat (x + 1) = unat x + 1"
  using unat_add_lem [of x 1] by simp

context block_cipher
begin

lemma next_byte_run:
  assumes k: "length (key sp) = 32" and o: "0 \<le> block_offset sp" "block_offset sp \<le> 15"
    and room: "unat (counter sp) + 1 < 2 ^ 64"
  shows "\<exists>c b. aes_next_byte aes sp (current_block aes sp) False =
      (stream_byte aes (key sp) (stream_pos sp), sp\<lparr>counter := c, block_offset := b\<rparr>,
       current_block aes (sp\<lparr>counter := c, block_offset := b\<rparr>)) \<and>
    1 \<le> b \<and> b \<le> 15 \<and> 15 * unat c + nat b = stream_pos sp + 1 \<and> unat c \<le> unat (counter sp) + 1"
proof (cases "block_offset sp = 15")
  case True
  let ?sp = "sp\<lparr>counter := counter sp + 1, block_offset := 0\<rparr>"
  have "aes (key sp) (update_counter (counter sp + 1)) = Some (current_block aes ?sp)"
    using encrypts [of ?sp] k by simp
  then have "aes_next_byte aes sp (current_block aes sp) False =
      (current_block aes ?sp ! 0, ?sp\<lparr>block_offset := 1\<rparr>, current_block aes ?sp)"
    using True by (simp add: aes_next_byte_def Let_def)
  moreover have pos: "stream_pos sp = 15 * unat (counter sp + 1)"
    using True unat_next [OF room] by (simp add: stream_pos_def)
  moreover have "stream_byte aes (key sp) (stream_pos sp) = current_block aes ?sp ! 0"
    unfolding stream_byte_def pos by (simp add: current_block_def)
  ultimately show ?thesis using unat_next [OF room]
    by (intro exI [of _ "counter sp + 1"] exI [of _ 1]) (simp add: current_block_def)
next
  case False
  with o have lt: "nat (block_offset sp) < 15" "(block_offset sp + 1) mod 16 \<noteq> 0" by auto
  then have "stream_byte aes (key sp) (stream_pos sp) = current_block aes sp ! nat (block_offset sp)"
    by (simp add: stream_byte_def stream_pos_def current_block_def)
  moreover have "nat (block_offset sp + 1) = nat (block_offset sp) + 1" using o by simp
  ultimately show ?thesis using lt o False
    by (intro exI [of _ "counter sp"] exI [of _ "block_offset sp + 1"])
      (simp add: aes_next_byte_def Let_def current_block_def stream_pos_def)
qed

lemma crypt_loop_run:
  assumes "length (key sp) = 32" and "0 \<le> block_offset sp" and "block_offset sp \<le> 15"
    and "unat (counter sp) + length ts < 2 ^ 64"
  shows "\<exists>c b. crypt_loop aes sp (current_block aes sp) ts =
      (map2 (XOR) ts (map (stream_byte aes (key sp)) [stream_pos sp..<stream_pos sp + length ts]),
       sp\<lparr>counter := c, block_offset := b\<rparr>) \<and> 0 \<le> b \<and> b \<le> 15 \<and>
    15 * unat c + nat b = stream_pos sp + length ts"
  using assms
proof (induction ts arbitrary: sp)
  case Nil
  then show ?case
    by (intro exI [of _ "counter sp"] exI [of _ "block_offset sp"]) (simp add: stream_pos_def)
next
  case (Cons t ts)
  from next_byte_run [of sp] Cons.prems obtain c b where
    nb: "aes_next_byte aes sp (current_block aes sp) False =
      (stream_byte aes (key sp) (stream_pos sp), sp\<lparr>counter := c, block_offset := b\<rparr>,
       current_block aes (sp\<lparr>counter := c, block_offset := b\<rparr>))"
    and b: "1 \<le> b" "b \<le> 15" "15 * unat c + nat b = stream_pos sp + 1" "unat c \<le> unat (counter sp) + 1"
    by auto
  let ?sp = "sp\<lparr>counter := c, block_offset := b\<rparr>"
  have pos: "stream_pos ?sp = stream_pos sp + 1" using b by (simp add: stream_pos_def)
  obtain c' b' where loop: "crypt_loop aes ?sp (current_block aes ?sp) ts =
      (map2 (XOR) ts (map (stream_byte aes (key sp)) [stream_pos ?sp..<stream_pos ?sp + length ts]),
       sp\<lparr>counter := c', block_offset := b'\<rparr>)" and b': "0 \<le> b'" "b' \<le> 15"
      "15 * unat c' + nat b' = stream_pos ?sp + length ts"
    using Cons.IH [of ?sp] Cons.prems b by auto
  have "[stream_pos sp..<stream_pos sp + length (t # ts)] =
      stream_pos sp # [stream_pos ?sp..<stream_pos ?sp + length ts]"
    by (subst upt_conv_Cons) (simp_all add: pos)
  then show ?case using loop b' pos
    by (intro exI [of _ c'] exI [of _ b']) (simp add: nb)
qed

end

interpretation wp_aes: block_cipher "allnet_aes_encrypt_block None"
  by unfold_locales (simp add: allnet_aes_encrypt_block_def wp_aes_encrypt_block_def length_AES)

lemma crypt_loop_twice:
  "crypt_loop aes sp block (fst (crypt_loop aes sp block ts)) = (ts, snd (crypt_loop aes sp block ts))"
proof (induction ts arbitrary: sp block)
  case (Cons t ts)
  obtain k sp' block' where nb: "aes_next_byte aes sp block False = (k, sp', block')"
    by (rule prod_cases3)
  obtain rs sp'' where loop: "crypt_loop aes sp' block' ts = (rs, sp'')" by fastforce
  then have "crypt_loop aes sp' block' rs = (ts, sp'')" using Cons.IH [of sp' block'] by simp
  with nb loop show ?case by (simp add: xor.assoc)
qed simp

lemma crypt_loop_same:
  "crypt_loop aes sp block ts = (rs, sp') \<Longrightarrow> key sp' = key sp \<and> secret sp' = secret sp \<and>
     counter_size sp' = counter_size sp \<and> hash_size sp' = hash_size sp"
proof (induction ts arbitrary: sp block rs sp')
  case (Cons t ts)
  obtain k sp1 block1 where nb: "aes_next_byte aes sp block False = (k, sp1, block1)"
    by (rule prod_cases3)
  then have "key sp1 = key sp \<and> secret sp1 = secret sp \<and>
      counter_size sp1 = counter_size sp \<and> hash_size sp1 = hash_size sp"
    by (auto simp: aes_next_byte_def Let_def split: if_splits option.splits)
  with Cons nb show ?case by (auto split: prod.splits)
qed simp

lemma length_crypt_loop [simp]: "length (fst (crypt_loop aes sp block ts)) = length ts"
  by (induction ts arbitrary: sp block) (simp_all add: case_prod_beta)

section \<open>Buffers and counters\<close>

lemma memcpy_adjacent:
  assumes "off + length a + length b \<le> length r"
  shows "memcpy (memcpy r off a) (off + length a) b = memcpy r off (a @ b)"
  using assms by (simp add: memcpy_def ac_simps)

lemma memcpy_over:
  assumes "length a = length b" and "off + length b \<le> length r"
  shows "memcpy (memcpy r off a) off b = memcpy r off b"
  using assms by (simp add: memcpy_def)

lemma memcpy_Nil [simp]: "memcpy r off [] = r"
  by (simp add: memcpy_def)

lemma take_memcpy_0 [simp]: "take (length a) (memcpy r 0 a) = a"
  by (simp add: memcpy_def)

definition counter_bytes :: "u64 \<Rightarrow> nat \<Rightarrow> u8 list" where
  "counter_bytes v n = drop (8 - n) (the (writeb64 (Some (replicate 8 0)) v))"

lemma length_counter_bytes [simp]: "n \<le> 8 \<Longrightarrow> length (counter_bytes v n) = n"
  by (simp add: counter_bytes_def)

lemma eight: "replicate 8 (0 :: u8) = [0, 0, 0, 0, 0, 0, 0, 0]"
  by (simp add: eval_nat_numeral)

lemma writeb64_list: "the (writeb64 (Some (replicate 8 0)) v) =
    [ucast (drop_bit 56 v), ucast (drop_bit 48 v), ucast (drop_bit 40 v), ucast (drop_bit 32 v),
     ucast (drop_bit 24 v), ucast (drop_bit 16 v), ucast (drop_bit 8 v), ucast v]"
  unfolding eight by (simp add: writeb64_def ucast_and_byte)

lemma readb64_list: "readb64 (Some [a, b, c, d, e, f, g, h]) =
    push_bit 56 (ucast a) OR push_bit 48 (ucast b) OR push_bit 40 (ucast c) OR push_bit 32 (ucast d) OR
    push_bit 24 (ucast e) OR push_bit 16 (ucast f) OR push_bit 8 (ucast g) OR ucast h"
  by (simp add: readb64_def)

lemma low_bytes:
  assumes "n \<in> {1, 2, 3, 4, 5, 6, 7, 8}"
  shows "replicate (8 - n) (0 :: u8) @ drop (8 - n) [a, b, c, d, e, f, g, h] =
    [if 8 \<le> n then a else 0, if 7 \<le> n then b else 0, if 6 \<le> n then c else 0, if 5 \<le> n then d else 0,
     if 4 \<le> n then e else 0, if 3 \<le> n then f else 0, if 2 \<le> n then g else 0, h]"
  using assms by (elim insertE emptyE) (simp_all add: eval_nat_numeral)

lemma zero_or: "push_bit k (ucast (0 :: u8)) OR x = (x :: u64)"
  by simp

lemma counter_bytes_read:
  assumes "0 < n" and "n \<le> 8"
  shows "readb64 (Some (memcpy (replicate 8 0) (8 - n) (counter_bytes v n))) = take_bit (8 * n) v"
proof -
  have n: "n \<in> {1, 2, 3, 4, 5, 6, 7, 8}" using assms by auto
  then have "memcpy (replicate 8 0) (8 - n) (counter_bytes v n) =
      replicate (8 - n) 0 @ drop (8 - n) (the (writeb64 (Some (replicate 8 0)) v))"
    by (auto simp: memcpy_def counter_bytes_def)
  moreover have "readb64 (Some (replicate (8 - n) 0 @ drop (8 - n) (the (writeb64 (Some (replicate 8 0)) v)))) =
      take_bit (8 * n) v"
    unfolding writeb64_list low_bytes [OF n] readb64_list
    using n by (elim insertE emptyE; hypsubst)
      (simp only: if_True if_False rel_simps order_refl zero_or byte_of_word glue_word arith_simps
        mult_1_right)+
  ultimately show ?thesis by simp
qed

section \<open>Encryption and decryption\<close>

text \<open>The packet made of a ciphertext sent at a position: counter and authentication follow it.\<close>

definition position :: "stream_state \<Rightarrow> u64" where
  "position sp = counter sp * 16 + of_int (block_offset sp)"

definition tag :: "stream_state \<Rightarrow> u8 list \<Rightarrow> u8 list" where
  "tag sp body = take (nat (hash_size sp)) (hmac_spec body (secret sp))"

definition seal :: "stream_state \<Rightarrow> u8 list \<Rightarrow> u8 list" where
  "seal sp encrypted =
     (let body = encrypted @ counter_bytes (position sp) (nat (counter_size sp))
      in body @ tag sp body)"

lemma hmac_for_stream:
  assumes "length body < 2 ^ 27" and "length sec = 64"
  shows "sha512hmac True body sec = Some (hmac_spec body sec)" and "length (hmac_spec body sec) = 64"
  using sha512hmac_value [of body sec True] assms by simp_all

lemma length_tag [simp]:
  "length body < 2 ^ 27 \<Longrightarrow> stream_ok sp \<Longrightarrow> length (tag sp body) = nat (hash_size sp)"
  using hmac_for_stream(2) [of body "secret sp"]
  by (simp add: tag_def stream_ok_def min_absorb2 nat_le_iff)

text \<open>The loops of both functions, from the current position.\<close>

definition stream_xor :: "cipher \<Rightarrow> stream_state \<Rightarrow> u8 list \<Rightarrow> u8 list \<times> stream_state" where
  "stream_xor aes sp data = crypt_loop aes sp (current_block aes sp) data"

lemma stream_xor_twice:
  "stream_xor aes sp data = (out, sp') \<Longrightarrow> stream_xor aes sp out = (data, sp')"
  using crypt_loop_twice [of aes sp "current_block aes sp" data] by (simp add: stream_xor_def)

lemma length_stream_xor: "stream_xor aes sp data = (out, sp') \<Longrightarrow> length out = length data"
  using length_crypt_loop [of aes sp "current_block aes sp" data] by (simp add: stream_xor_def)

context block_cipher
begin

lemma stream_xor_run:
  assumes "stream_ok sp" and "unat (counter sp) + length ts < 2 ^ 64"
  shows "\<exists>c b. stream_xor aes sp ts =
      (map2 (XOR) ts (map (stream_byte aes (key sp)) [stream_pos sp..<stream_pos sp + length ts]),
       sp\<lparr>counter := c, block_offset := b\<rparr>) \<and> stream_ok (sp\<lparr>counter := c, block_offset := b\<rparr>) \<and>
    15 * unat c + nat b = stream_pos sp + length ts"
  using crypt_loop_run [of sp ts] assms by (auto simp: stream_ok_def stream_xor_def)

lemma encrypt_run:
  assumes ok: "stream_ok sp" and small: "length text < 2 ^ 26" and ne: "text \<noteq> []"
    and fits: "int (length text) + counter_size sp + hash_size sp \<le> int (length result)"
    and loop: "stream_xor aes sp text = (encrypted, sp')" and same: "key sp' = key sp" "secret sp' = secret sp"
      "counter_size sp' = counter_size sp" "hash_size sp' = hash_size sp"
  shows "allnet_stream_encrypt_buffer aes True junk sp text result =
    Some (int (length (seal sp encrypted)), memcpy result 0 (seal sp encrypted), sp')"
proof -
  let ?n = "length text" and ?c = "nat (counter_size sp)" and ?h = "nat (hash_size sp)"
  let ?ctr = "counter_bytes (position sp) ?c"
  have len: "length encrypted = ?n" using length_stream_xor [OF loop] .
  have c: "0 < ?c" "?c \<le> 8" "min ?c 8 = ?c" "0 < counter_size sp" and h: "?h \<le> 64" "min ?h 64 = ?h"
    using ok by (auto simp: stream_ok_def)
  have init: "aes_next_byte aes sp junk True = (0, sp, current_block aes sp)"
    using init_block [of sp junk] ok by (simp add: stream_ok_def)
  have big: "?n + ?c + ?h \<le> length result" using fits ok by (auto simp: stream_ok_def)
  have with_counter: "memcpy (memcpy (memcpy result 0 encrypted) ?n (replicate ?c 0)) ?n ?ctr =
      memcpy result 0 (encrypted @ ?ctr)"
    using memcpy_over [of "replicate ?c 0" ?ctr ?n "memcpy result 0 encrypted"]
      memcpy_adjacent [of 0 encrypted ?ctr result] c big len by simp
  have body: "take (?n + ?c) (memcpy result 0 (encrypted @ ?ctr)) = encrypted @ ?ctr"
    using take_memcpy_0 [of "encrypted @ ?ctr" result] len c by simp
  have hmac: "sha512hmac True (encrypted @ ?ctr) (secret sp) =
      Some (hmac_spec (encrypted @ ?ctr) (secret sp))"
    using hmac_for_stream(1) ok small c len by (simp add: stream_ok_def)
  have sealed: "memcpy (memcpy result 0 (encrypted @ ?ctr)) (?n + ?c) (tag sp (encrypted @ ?ctr)) =
      memcpy result 0 (seal sp encrypted)"
    using memcpy_adjacent [of 0 "encrypted @ ?ctr" "tag sp (encrypted @ ?ctr)" result] big len c ok small
    by (simp add: seal_def Let_def)
  have size: "length (seal sp encrypted) = ?n + ?c + ?h"
    using ok small len c by (simp add: seal_def Let_def)
  have nofit: "\<not> int (length result) < int ?n + counter_size sp + hash_size sp" using fits by simp
  show ?thesis
  proof (cases "hash_size sp > 0")
    case True
    with size c h same nofit ne show ?thesis
      unfolding allnet_stream_encrypt_buffer_def Let_def init prod.case loop [unfolded stream_xor_def]
      by (simp add: with_counter [unfolded counter_bytes_def position_def]
          body [unfolded counter_bytes_def position_def] hmac [unfolded counter_bytes_def position_def]
          sealed [unfolded tag_def counter_bytes_def position_def])
  next
    case False
    then have "?h = 0" by simp
    then have "tag sp (encrypted @ ?ctr) = []" by (simp add: tag_def)
    then have "seal sp encrypted = encrypted @ ?ctr" by (simp add: seal_def Let_def)
    with size c h same False nofit ne show ?thesis
      unfolding allnet_stream_encrypt_buffer_def Let_def init prod.case loop [unfolded stream_xor_def]
      by (simp add: with_counter [unfolded counter_bytes_def position_def] counter_bytes_def position_def)
  qed
qed

end

text \<open>The sender's position, completed by the receiver from the bytes it was sent.\<close>

definition in_window :: "stream_state \<Rightarrow> stream_state \<Rightarrow> bool" where
  "in_window sp rp \<longleftrightarrow> (let shift = 8 * nat (counter_size sp)
     in shift = 64 \<or> drop_bit shift (position rp) = drop_bit shift (position sp))"

lemma drop_take_or: "push_bit n (drop_bit n w) OR take_bit n w = w" for w :: u64
  by (rule bit_word_eqI) (auto simp: bit_simps)

lemma in_window_position:
  assumes "in_window sp rp"
  shows "(if 8 * nat (counter_size sp) \<ge> 64 then take_bit (8 * nat (counter_size sp)) (position sp)
    else push_bit (8 * nat (counter_size sp)) (drop_bit (8 * nat (counter_size sp)) (position rp)) OR
      take_bit (8 * nat (counter_size sp)) (position sp)) = position sp"
proof (cases "8 * nat (counter_size sp) \<ge> 64")
  case True
  then have "take_bit (8 * nat (counter_size sp)) (position sp) = position sp"
    by (intro take_bit_word_eq_self) simp
  then show ?thesis using True by simp
next
  case False
  then have "drop_bit (8 * nat (counter_size sp)) (position rp) = drop_bit (8 * nat (counter_size sp)) (position sp)"
    using assms by (auto simp: in_window_def Let_def)
  with False show ?thesis by (simp add: drop_take_or)
qed

lemma position_split:
  assumes "stream_ok sp" and "unat (counter sp) < 2 ^ 60"
  shows "uint (position sp mod 16) = block_offset sp" and "position sp div 16 = counter sp"
proof -
  obtain b where b: "block_offset sp = int b" "b < 16"
    using assms(1) by (cases "block_offset sp") (auto simp: stream_ok_def)
  have small: "unat (counter sp) * 16 + b < 2 ^ 64" using assms(2) b by simp
  have "position sp = of_nat (unat (counter sp) * 16 + b)" by (simp add: position_def b)
  then have unat: "unat (position sp) = unat (counter sp) * 16 + b"
    using small by (simp only: unat_of_nat) (simp add: take_bit_nat_eq_self)
  have "unat (position sp mod 16) = b" using b by (simp add: unat_mod unat)
  then show "uint (position sp mod 16) = block_offset sp" by (simp add: b uint_nat del: unat_mod)
  show "position sp div 16 = counter sp"
    by (rule word_unat_eq_iff [THEN iffD2]) (simp add: unat_div unat b)
qed

definition same_stream :: "stream_state \<Rightarrow> stream_state \<Rightarrow> bool" where
  "same_stream sp rp \<longleftrightarrow> key rp = key sp \<and> secret rp = secret sp \<and>
     counter_size rp = counter_size sp \<and> hash_size rp = hash_size sp"

lemma same_stream_update:
  "same_stream sp rp \<Longrightarrow> rp\<lparr>block_offset := block_offset sp, counter := counter sp\<rparr> = sp"
  by (cases sp; cases rp) (simp add: same_stream_def)

text \<open>Whether the receiver accepts a packet: it is long enough, fits, and is authentic.\<close>

definition authentic :: "stream_state \<Rightarrow> u8 list \<Rightarrow> bool" where
  "authentic rp packet \<longleftrightarrow>
     (let n = length packet - nat (hash_size rp) in drop n packet = tag rp (take n packet))"

definition received_position :: "stream_state \<Rightarrow> u8 list \<Rightarrow> u64" where
  "received_position rp packet =
     (let c = nat (counter_size rp); h = nat (hash_size rp);
          received = readb64 (Some (memcpy (replicate 8 0) (8 - c)
            (take c (drop (length packet - h - c) packet))))
      in if 8 * c \<ge> 64 then received
         else push_bit (8 * c) (drop_bit (8 * c) (position rp)) OR received)"

context block_cipher
begin

lemma decrypt_run:
  assumes ok: "stream_ok rp" and small: "length packet < 2 ^ 27"
    and long: "counter_size rp + hash_size rp < int (length packet)"
    and fits: "int (length packet) - (counter_size rp + hash_size rp) \<le> int (length text)"
    and loop: "stream_xor aes (rp\<lparr>block_offset := uint (received_position rp packet mod 16),
        counter := received_position rp packet div 16\<rparr>)
        (take (length packet - (nat (counter_size rp) + nat (hash_size rp))) packet) = (plain, rp')"
  shows "allnet_stream_decrypt_buffer aes True junk rp packet text =
    (if authentic rp packet then Some (1, memcpy text 0 plain, rp') else Some (0, text, rp))"
proof -
  let ?c = "nat (counter_size rp)" and ?h = "nat (hash_size rp)"
  let ?rp = "rp\<lparr>block_offset := uint (received_position rp packet mod 16),
        counter := received_position rp packet div 16\<rparr>"
  have init: "aes_next_byte aes ?rp junk True = (0, ?rp, current_block aes ?rp)"
    using init_block [of ?rp junk] ok by (simp add: stream_ok_def)
  have c: "min ?c 8 = ?c" "0 < counter_size rp" and h: "min ?h 64 = ?h" "?h \<le> 64"
    using ok by (auto simp: stream_ok_def)
  have guards: "length packet \<noteq> 0" "\<not> int (length packet) \<le> counter_size rp + hash_size rp"
    "\<not> int (length text) < int (length packet) - (counter_size rp + hash_size rp)"
    using long fits ok by (auto simp: stream_ok_def)
  have hmac: "sha512hmac True (take (length packet - ?h) packet) (secret rp) =
      Some (hmac_spec (take (length packet - ?h) packet) (secret rp))"
    using hmac_for_stream(1) ok small by (simp add: stream_ok_def)
  have auth: "(if hash_size rp > 0 then do {
         hmac \<leftarrow> sha512hmac True (take (length packet - ?h) packet) (secret rp);
         let num_bytes = min ?h 64;
         Some (drop (length packet - num_bytes) packet = take num_bytes hmac)
       } else Some True) = Some (authentic rp packet)"
    using hmac h by (auto simp: authentic_def tag_def Let_def)
  let ?read = "readb64 (Some (memcpy (replicate 8 0) (8 - ?c)
      (take ?c (drop (length packet - ?h - ?c) packet))))"
  have recv: "(if counter_size rp > 0
       then if 64 \<le> 8 * ?c then ?read
         else push_bit (8 * ?c) (drop_bit (8 * ?c) (counter rp * 16 + of_int (block_offset rp))) OR ?read
       else counter rp * 16 + of_int (block_offset rp)) = received_position rp packet"
    using c by (simp add: received_position_def position_def Let_def)
  show ?thesis
    unfolding allnet_stream_decrypt_buffer_def Let_def
    unfolding auth [unfolded Let_def] c(1) recv init
    using guards loop by (simp add: stream_xor_def)
qed

end

lemma seal_opens:
  assumes ok: "stream_ok sp" and same: "same_stream sp rp" and win: "in_window sp rp"
    and count: "unat (counter sp) < 2 ^ 60" and small: "length encrypted < 2 ^ 26"
  shows "length (seal sp encrypted) = length encrypted + nat (counter_size sp) + nat (hash_size sp)"
    and "authentic rp (seal sp encrypted)"
    and "received_position rp (seal sp encrypted) = position sp"
    and "take (length encrypted) (seal sp encrypted) = encrypted"
proof -
  let ?n = "length encrypted" and ?c = "nat (counter_size sp)" and ?h = "nat (hash_size sp)"
  let ?ctr = "counter_bytes (position sp) ?c"
  have c: "0 < ?c" "?c \<le> 8" using ok by (auto simp: stream_ok_def)
  have seal: "seal sp encrypted = encrypted @ ?ctr @ tag sp (encrypted @ ?ctr)"
    by (simp add: seal_def Let_def)
  have tag: "length (tag sp (encrypted @ ?ctr)) = ?h" "tag rp = tag sp"
    using ok small c by simp (use same in \<open>simp add: tag_def fun_eq_iff same_stream_def\<close>)
  then show len: "length (seal sp encrypted) = ?n + ?c + ?h" using c by (simp add: seal)
  have same_sizes: "counter_size rp = counter_size sp" "hash_size rp = hash_size sp"
    using same by (simp_all add: same_stream_def)
  have "length (seal sp encrypted) - ?h = length (encrypted @ ?ctr)" using len c by simp
  then show "authentic rp (seal sp encrypted)"
    unfolding authentic_def same_sizes Let_def tag by (simp add: seal)
  have sent: "take ?c (drop (length (seal sp encrypted) - ?h - ?c) (seal sp encrypted)) = ?ctr"
    unfolding len using c by (simp add: seal)
  show "received_position rp (seal sp encrypted) = position sp"
    unfolding received_position_def same_sizes Let_def sent counter_bytes_read [OF c]
    by (rule in_window_position [OF win])
  show "take ?n (seal sp encrypted) = encrypted" by (simp add: seal)
qed

section \<open>Properties\<close>

text \<open>
  C26: what \<open>allnet_stream_encrypt_buffer\<close> writes, \<open>allnet_stream_decrypt_buffer\<close> turns back into the
  text, with the receiver ending at the position of the sender: for every position of the two
  sides, provided they agree on the part of the counter that is not sent.
\<close>

theorem stream_roundtrip:
  assumes "stream_ok sp" and "stream_ok rp" and "same_stream sp rp" and "in_window sp rp"
    and "unat (counter sp) < 2 ^ 60" and "text \<noteq> []" and "length text < 2 ^ 26"
    and "int (length text) + counter_size sp + hash_size sp \<le> int (length result)"
    and "length text \<le> length out"
  shows "\<exists>w result' sp'.
    allnet_stream_encrypt_buffer (allnet_aes_encrypt_block None) True junk sp text result =
      Some (int w, result', sp') \<and>
    w = length text + nat (counter_size sp) + nat (hash_size sp) \<and>
    allnet_stream_decrypt_buffer (allnet_aes_encrypt_block None) True junk' rp (take w result') out =
      Some (1, memcpy out 0 text, sp')"
proof -
  let ?aes = "allnet_aes_encrypt_block None"
  obtain encrypted sp' where loop: "stream_xor ?aes sp text = (encrypted, sp')" by fastforce
  from wp_aes.stream_xor_run [OF assms(1), of "text"] assms(5,7) loop have same: "same_stream sp sp'"
    by (auto simp: same_stream_def)
  have len: "length encrypted = length text" by (rule length_stream_xor [OF loop])
  note seal = seal_opens [OF assms(1,3,4,5), of encrypted, unfolded len, OF assms(7)]
  have enc: "allnet_stream_encrypt_buffer ?aes True junk sp text result =
      Some (int (length (seal sp encrypted)), memcpy result 0 (seal sp encrypted), sp')"
    using wp_aes.encrypt_run [OF assms(1,7,6,8) loop] same by (simp add: same_stream_def)
  have "rp\<lparr>block_offset := uint (position sp mod 16), counter := position sp div 16\<rparr> = sp"
    unfolding position_split [OF assms(1,5)] by (rule same_stream_update [OF assms(3)])
  moreover have sizes: "counter_size rp = counter_size sp" "hash_size rp = hash_size sp"
    using assms(3) by (simp_all add: same_stream_def)
  moreover have "0 < length text" "0 < counter_size sp" "counter_size sp \<le> 8" "0 \<le> hash_size sp"
    "hash_size sp \<le> 64" using assms(1,6) by (auto simp: stream_ok_def)
  ultimately have "allnet_stream_decrypt_buffer ?aes True junk' rp (seal sp encrypted) out =
      Some (1, memcpy out 0 text, sp')"
    using wp_aes.decrypt_run [OF assms(2), of "seal sp encrypted" out "text" sp' junk']
      stream_xor_twice [OF loop] seal assms(7,9) by simp
  moreover have "take (length (seal sp encrypted)) (memcpy result 0 (seal sp encrypted)) = seal sp encrypted"
    by (rule take_memcpy_0)
  ultimately show ?thesis unfolding seal(1) [symmetric] using enc by auto
qed

theorem stream_roundtrip_witness:
  "\<exists>sp sp' w result'. allnet_stream_encrypt_buffer (allnet_aes_encrypt_block None) True [] sp [104, 105]
      (replicate 8 0) = Some (int w, result', sp') \<and> w = 8 \<and>
    allnet_stream_decrypt_buffer (allnet_aes_encrypt_block None) True [] sp (take w result') [0, 0, 7] =
      Some (1, memcpy [0, 0, 7] 0 [104, 105], sp')"
proof -
  let ?sp = "\<lparr>key = replicate 32 1, secret = replicate 64 2, counter_size = 2, hash_size = 4,
    counter = 1, block_offset = 0\<rparr>"
  have "stream_ok ?sp" "same_stream ?sp ?sp" "in_window ?sp ?sp"
    by (simp_all add: stream_ok_def same_stream_def in_window_def)
  from stream_roundtrip [OF this(1,1,2,3), of "[104, 105]" "replicate 8 0" "[0, 0, 7]" "[]" "[]"]
  show ?thesis by - (rule exI [of _ ?sp], auto)
qed

text \<open>
  C27: a text is encrypted with the next bytes of one stream of key bytes, and the state moves past
  them: the bytes used for successive packets are those at consecutive positions, so that none is
  used twice.
\<close>

theorem stream_encrypt_refines:
  assumes "stream_ok sp" and "unat (counter sp) < 2 ^ 60" and "text \<noteq> []" and "length text < 2 ^ 26"
    and "int (length text) + counter_size sp + hash_size sp \<le> int (length result)"
  shows "\<exists>result' sp'.
    allnet_stream_encrypt_buffer (allnet_aes_encrypt_block None) True junk sp text result =
      Some (int (length text) + counter_size sp + hash_size sp, result', sp') \<and>
    take (length text) result' = map2 (XOR) text (map (stream_byte (allnet_aes_encrypt_block None) (key sp))
      [stream_pos sp..<stream_pos sp + length text]) \<and>
    stream_pos sp' = stream_pos sp + length text \<and> stream_ok sp' \<and> same_stream sp sp'"
proof -
  let ?aes = "allnet_aes_encrypt_block None"
  let ?ct = "map2 (XOR) text (map (stream_byte ?aes (key sp)) [stream_pos sp..<stream_pos sp + length text])"
  have "unat (counter sp) + length text < 2 ^ 64" using assms(2,4) by simp
  from wp_aes.stream_xor_run [OF assms(1) this] obtain c b where
    loop: "stream_xor ?aes sp text = (?ct, sp\<lparr>counter := c, block_offset := b\<rparr>)"
    and ok: "stream_ok (sp\<lparr>counter := c, block_offset := b\<rparr>)"
    and pos: "15 * unat c + nat b = stream_pos sp + length text" by blast
  note enc = wp_aes.encrypt_run [OF assms(1,4,3,5) loop, of junk]
  have len: "length ?ct = length text" by simp
  have same: "same_stream sp sp" by (simp add: same_stream_def)
  have win: "in_window sp sp" by (simp add: in_window_def)
  note seal = seal_opens [OF assms(1) same win assms(2), of ?ct, unfolded len, OF assms(4)]
  have "take (length text) (memcpy result 0 (seal sp ?ct)) = take (length text) (seal sp ?ct)"
    using seal(1) by (simp add: memcpy_def)
  moreover have "int (length (seal sp ?ct)) = int (length text) + counter_size sp + hash_size sp"
    using seal(1) assms(1) by (simp add: stream_ok_def)
  ultimately show ?thesis using enc ok pos seal(4)
    by (auto simp: same_stream_def stream_pos_def)
qed

theorem stream_encrypt_refines_witness:
  "\<exists>result' sp'. allnet_stream_encrypt_buffer (allnet_aes_encrypt_block None) True []
      \<lparr>key = replicate 32 1, secret = replicate 64 2, counter_size = 2, hash_size = 4,
        counter = 1, block_offset = 13\<rparr> [104, 105, 106] (replicate 9 0) = Some (9, result', sp') \<and>
    stream_pos sp' = 31"
proof -
  let ?sp = "\<lparr>key = replicate 32 1, secret = replicate 64 2, counter_size = 2, hash_size = 4,
    counter = 1, block_offset = 13\<rparr>"
  have "stream_ok ?sp" by (simp add: stream_ok_def)
  from stream_encrypt_refines [OF this, of "[104, 105, 106]" "replicate 9 0" "[]"]
  show ?thesis by (auto simp: stream_pos_def)
qed

text \<open>
  C14: a packet is decrypted only when its last bytes are the authentication code of the rest under
  the shared secret; a packet that is too short, too long for the buffer, or not authentic gives 0
  and leaves the text and the state of the receiver unchanged.
\<close>

theorem stream_decrypt_authenticates:
  assumes "stream_ok rp" and "length packet < 2 ^ 27"
  shows "\<exists>r out' rp'. allnet_stream_decrypt_buffer (allnet_aes_encrypt_block None) True junk rp packet out =
      Some (r, out', rp') \<and>
    (if counter_size rp + hash_size rp < int (length packet) \<and>
        int (length packet) - (counter_size rp + hash_size rp) \<le> int (length out) \<and>
        drop (length packet - nat (hash_size rp)) packet =
          take (nat (hash_size rp)) (hmac_spec (take (length packet - nat (hash_size rp)) packet) (secret rp))
     then r = 1 \<and> same_stream rp rp' else r = 0 \<and> out' = out \<and> rp' = rp)"
proof -
  let ?aes = "allnet_aes_encrypt_block None" and ?q = "received_position rp packet"
  let ?rp = "rp\<lparr>block_offset := uint (?q mod 16), counter := ?q div 16\<rparr>"
  let ?fits = "counter_size rp + hash_size rp < int (length packet) \<and>
    int (length packet) - (counter_size rp + hash_size rp) \<le> int (length out)"
  show ?thesis
  proof (cases ?fits)
    case False
    then show ?thesis
      by (auto simp: allnet_stream_decrypt_buffer_def Let_def not_less not_le)
  next
    case True
    obtain plain rp' where loop: "stream_xor ?aes ?rp
        (take (length packet - (nat (counter_size rp) + nat (hash_size rp))) packet) = (plain, rp')"
      by fastforce
    have "same_stream rp rp'" if "authentic rp packet"
      using crypt_loop_same [of ?aes ?rp] loop by (auto simp: stream_xor_def same_stream_def)
    moreover have "authentic rp packet \<longleftrightarrow> drop (length packet - nat (hash_size rp)) packet =
        take (nat (hash_size rp)) (hmac_spec (take (length packet - nat (hash_size rp)) packet) (secret rp))"
      by (simp add: authentic_def tag_def Let_def)
    moreover have "allnet_stream_decrypt_buffer ?aes True junk rp packet out =
        (if authentic rp packet then Some (1, memcpy out 0 plain, rp') else Some (0, out, rp))"
      using wp_aes.decrypt_run [OF assms _ _ loop] True by blast
    ultimately show ?thesis using True by (cases "authentic rp packet") auto
  qed
qed

theorem stream_decrypt_authenticates_witness:
  "(\<exists>out' rp'. allnet_stream_decrypt_buffer (allnet_aes_encrypt_block None) True []
      \<lparr>key = replicate 32 1, secret = replicate 64 2, counter_size = 1, hash_size = 0,
        counter = 1, block_offset = 0\<rparr> [5, 6, 7] [0, 0] = Some (1, out', rp'))"
proof -
  let ?rp = "\<lparr>key = replicate 32 1, secret = replicate 64 2, counter_size = 1, hash_size = 0,
    counter = 1, block_offset = 0\<rparr>"
  have "stream_ok ?rp" by (simp add: stream_ok_def)
  from stream_decrypt_authenticates [OF this, of "[5, 6, 7]" "[]" "[0, 0]"]
  show ?thesis by auto
qed

end
