(* ===== verification/PacketQueue.thy ===== *)
theory PacketQueue
  imports AllnetPrelude "HOL-Library.Monad_Syntax" "HOL-Library.Signed_Division"
begin

text \<open>
  \<open>lib/pqueue.c\<close>: the queue of packets waiting to be broadcast, a doubly linked list kept in
  order of priority. The list is modelled with its pointers, in a store of elements at
  addresses; following a pointer to an address that is not allocated gives \<open>None\<close>. The allocator
  hands out increasing addresses and does not fail. Sizes are integers: the sum of the size of the queue
  and that of a packet is taken to fit an \<open>int\<close>.
\<close>

section \<open>Elements, store and queue\<close>

record queue_element =
  el_next :: "nat option"
  el_prev :: "nat option"
  priority :: int
  backoff :: int
  el_size :: int
  el_data :: "u8 list"

record pqueue =
  heap :: "nat \<Rightarrow> queue_element option"
  brk :: nat
  head :: "nat option"
  tail :: "nat option"
  max_size :: int
  current_size :: int
  iter_next :: "nat option"
  iter_remove :: "nat option"

text \<open>The file-scope variables before any call.\<close>

definition pqueue_static :: pqueue where
  "pqueue_static = \<lparr>heap = (\<lambda>_. None), brk = 0, head = None, tail = None, max_size = 0,
     current_size = 0, iter_next = None, iter_remove = None\<rparr>"

definition modify :: "nat \<Rightarrow> (queue_element \<Rightarrow> queue_element) \<Rightarrow> pqueue \<Rightarrow> pqueue option" where
  "modify a f s = do {
     n \<leftarrow> heap s a;
     Some (s\<lparr>heap := (heap s)(a \<mapsto> f n)\<rparr>)
   }"

definition free :: "nat \<Rightarrow> pqueue \<Rightarrow> pqueue" where
  "free a s = s\<lparr>heap := (heap s)(a := None)\<rparr>"

definition queue_init :: "int \<Rightarrow> pqueue \<Rightarrow> pqueue" where
  "queue_init max_bytes s =
     s\<lparr>head := None, tail := None, max_size := max_bytes, current_size := 0\<rparr>"

definition remove_tail :: "pqueue \<Rightarrow> pqueue option" where
  "remove_tail s =
     (case tail s of
        None \<Rightarrow> Some s
      | Some t \<Rightarrow> do {
          n \<leftarrow> heap s t;
          let s = s\<lparr>current_size :=
            (if current_size s < el_size n then 0 else current_size s - el_size n)\<rparr>;
          s \<leftarrow> (case el_prev n of
                 None \<Rightarrow> Some (s\<lparr>tail := None, head := None\<rparr>)
               | Some p \<Rightarrow>
                   if head s = tail s then Some (s\<lparr>tail := None, head := None\<rparr>)
                   else do {
                     s \<leftarrow> modify p (\<lambda>x. x\<lparr>el_next := None\<rparr>) s;
                     Some (s\<lparr>tail := Some p\<rparr>)
                   });
          Some (free t s)
        })"

primrec remove_tails :: "nat \<Rightarrow> pqueue \<Rightarrow> pqueue option" where
  "remove_tails 0 s = Some s"
| "remove_tails (Suc removable) s = do { s \<leftarrow> remove_tail s; remove_tails removable s }"

partial_function (option) scan_lower ::
  "pqueue \<Rightarrow> int \<Rightarrow> int \<Rightarrow> nat option \<Rightarrow> int \<Rightarrow> nat \<Rightarrow> (int \<times> nat) option" where
  "scan_lower s wanted prio qel possible_space removable =
     (case qel of
        None \<Rightarrow> Some (possible_space, removable)
      | Some a \<Rightarrow> do {
          n \<leftarrow> heap s a;
          if priority n < prio \<and> current_size s - possible_space + wanted > max_size s
          then scan_lower s wanted prio (el_prev n) (possible_space + el_size n) (removable + 1)
          else Some (possible_space, removable)
        })"

declare scan_lower.simps [code]

definition make_room :: "int \<Rightarrow> int \<Rightarrow> pqueue \<Rightarrow> (bool \<times> pqueue) option" where
  "make_room wanted prio s =
     (if current_size s + wanted \<le> max_size s then Some (True, s)
      else if wanted > max_size s \<or> tail s = None then Some (False, s)
      else do {
        (possible_space, removable) \<leftarrow> scan_lower s wanted prio (tail s) 0 0;
        if current_size s - possible_space + wanted \<le> max_size s
        then do { s \<leftarrow> remove_tails removable s; Some (True, s) }
        else Some (False, s)
      })"

definition queue_max_priority :: "pqueue \<Rightarrow> int option" where
  "queue_max_priority s =
     (case head s of None \<Rightarrow> Some 0 | Some a \<Rightarrow> map_option priority (heap s a))"

definition queue_total_bytes :: "pqueue \<Rightarrow> int" where
  "queue_total_bytes s = current_size s"

text \<open>A new element; \<open>None\<close> when fewer than \<open>size\<close> bytes can be read from \<open>value\<close>.\<close>

definition new_element ::
  "u8 list \<Rightarrow> int \<Rightarrow> int \<Rightarrow> nat option \<Rightarrow> nat option \<Rightarrow> pqueue \<Rightarrow> (nat \<times> pqueue) option" where
  "new_element val sz prio prev next s =
     (if sz < 0 \<or> int (length val) < sz then None
      else
        let result = \<lparr>el_next = next, el_prev = prev, priority = prio, backoff = 0, el_size = sz,
                      el_data = take (nat sz) val\<rparr>
        in Some (brk s, s\<lparr>heap := (heap s)(brk s \<mapsto> result), brk := brk s + 1\<rparr>))"

partial_function (option) find_lower ::
  "pqueue \<Rightarrow> int \<Rightarrow> nat option \<Rightarrow> nat option option" where
  "find_lower s prio node =
     (case node of
        None \<Rightarrow> Some None
      | Some a \<Rightarrow> do {
          n \<leftarrow> heap s a;
          if priority n \<ge> prio then find_lower s prio (el_next n) else Some (Some a)
        })"

declare find_lower.simps [code]

definition add_head :: "u8 list \<Rightarrow> int \<Rightarrow> int \<Rightarrow> pqueue \<Rightarrow> pqueue option" where
  "add_head val sz prio s = do {
     (new, s) \<leftarrow> new_element val sz prio None (head s) s;
     s \<leftarrow> (case head s of
            None \<Rightarrow> Some s
          | Some h \<Rightarrow> modify h (\<lambda>x. x\<lparr>el_prev := Some new\<rparr>) s);
     let s = s\<lparr>head := Some new\<rparr>;
     Some (if tail s = None then s\<lparr>tail := Some new\<rparr> else s)
   }"

definition add_after_head :: "u8 list \<Rightarrow> int \<Rightarrow> int \<Rightarrow> pqueue \<Rightarrow> pqueue option" where
  "add_after_head val sz prio s = do {
     node \<leftarrow> find_lower s prio (head s);
     (case node of
        None \<Rightarrow> do {
          t \<leftarrow> tail s;
          (new, s) \<leftarrow> new_element val sz prio (Some t) None s;
          s \<leftarrow> modify t (\<lambda>x. x\<lparr>el_next := Some new\<rparr>) s;
          Some (s\<lparr>tail := Some new\<rparr>)
        }
      | Some a \<Rightarrow> do {
          n \<leftarrow> heap s a;
          p \<leftarrow> el_prev n;
          (new, s) \<leftarrow> new_element val sz prio (Some p) (Some a) s;
          s \<leftarrow> modify a (\<lambda>x. x\<lparr>el_prev := Some new\<rparr>) s;
          modify p (\<lambda>x. x\<lparr>el_next := Some new\<rparr>) s
        })
   }"

definition queue_add :: "u8 list \<Rightarrow> int \<Rightarrow> int \<Rightarrow> pqueue \<Rightarrow> (bool \<times> pqueue) option" where
  "queue_add val sz prio s = do {
     (ok, s) \<leftarrow> make_room sz prio s;
     if \<not> ok then Some (False, s)
     else do {
       let s = s\<lparr>current_size := current_size s + sz\<rparr>;
       s \<leftarrow> (case head s of
              None \<Rightarrow> add_head val sz prio s
            | Some h \<Rightarrow> do {
                n \<leftarrow> heap s h;
                if priority n < prio then add_head val sz prio s else add_after_head val sz prio s
              });
       Some (True, s)
     }
   }"

definition queue_iter_start :: "pqueue \<Rightarrow> pqueue" where
  "queue_iter_start s = s\<lparr>iter_next := head s, iter_remove := None\<rparr>"

definition queue_iter_next :: "pqueue \<Rightarrow> (queue_element option \<times> pqueue) option" where
  "queue_iter_next s =
     (let s = s\<lparr>iter_remove := None\<rparr>
      in case iter_next s of
           None \<Rightarrow> Some (None, s)
         | Some a \<Rightarrow> do {
             n \<leftarrow> heap s a;
             Some (Some n, s\<lparr>iter_remove := Some a, iter_next := el_next n\<rparr>)
           })"

definition backoff_threshold :: "int \<Rightarrow> int" where
  "backoff_threshold p = 2 + (p * (18 - 2)) sdiv 2 ^ 30"

definition queue_iter_remove :: "pqueue \<Rightarrow> pqueue option" where
  "queue_iter_remove s =
     (case iter_remove s of
        None \<Rightarrow> Some s
      | Some a \<Rightarrow> do {
          n \<leftarrow> heap s a;
          s \<leftarrow> (case el_prev n of
                 Some p \<Rightarrow> modify p (\<lambda>x. x\<lparr>el_next := el_next n\<rparr>) s
               | None \<Rightarrow> Some (s\<lparr>head := el_next n\<rparr>));
          s \<leftarrow> (case el_next n of
                 Some q \<Rightarrow> modify q (\<lambda>x. x\<lparr>el_prev := el_prev n\<rparr>) s
               | None \<Rightarrow> Some (s\<lparr>tail := el_prev n\<rparr>));
          Some ((free a s)\<lparr>iter_remove := None\<rparr>)
        })"

definition queue_iter_inc_backoff :: "pqueue \<Rightarrow> (bool \<times> pqueue) option" where
  "queue_iter_inc_backoff s =
     (case iter_remove s of
        None \<Rightarrow> Some (False, s)
      | Some a \<Rightarrow> do {
          s \<leftarrow> modify a (\<lambda>x. x\<lparr>backoff := backoff x + 1\<rparr>) s;
          n \<leftarrow> heap s a;
          if backoff n > backoff_threshold (priority n)
          then do { s \<leftarrow> queue_iter_remove s; Some (False, s) }
          else Some (True, s)
        })"

section \<open>Segments of the list\<close>

text \<open>
  \<open>dseg h p as q\<close>: the addresses \<open>as\<close> are linked in both directions, the first has predecessor
  \<open>p\<close> and the last has successor \<open>q\<close>.
\<close>

definition first_addr :: "nat list \<Rightarrow> nat option \<Rightarrow> nat option" where
  "first_addr as q = (case as of [] \<Rightarrow> q | a # _ \<Rightarrow> Some a)"

definition last_addr :: "nat option \<Rightarrow> nat list \<Rightarrow> nat option" where
  "last_addr p as = (if as = [] then p else Some (last as))"

fun dseg :: "(nat \<Rightarrow> queue_element option) \<Rightarrow> nat option \<Rightarrow> nat list \<Rightarrow> nat option \<Rightarrow> bool" where
  "dseg h p [] q = True"
| "dseg h p (a # as) q =
     (\<exists>n. h a = Some n \<and> el_prev n = p \<and> el_next n = first_addr as q \<and> dseg h (Some a) as q)"

lemma addr_simps [simp]:
  "first_addr [] q = q" "first_addr (a # as) q = Some a"
  "last_addr p [] = p" "last_addr p (as @ [a]) = Some a" "last_addr p (a # as) = last_addr (Some a) as"
  by (simp_all add: first_addr_def last_addr_def)

lemma first_addr_append [simp]: "first_addr (xs @ ys) q = first_addr xs (first_addr ys q)"
  by (cases xs) simp_all

lemma last_addr_append [simp]: "last_addr p (xs @ ys) = last_addr (last_addr p xs) ys"
  by (cases "ys = []") (simp_all add: last_addr_def)

lemma dseg_append:
  "dseg h p (xs @ ys) q \<longleftrightarrow> dseg h p xs (first_addr ys q) \<and> dseg h (last_addr p xs) ys q"
  by (induction xs arbitrary: p) auto

lemma dseg_frame:
  "(\<And>a. a \<in> set as \<Longrightarrow> h' a = h a) \<Longrightarrow> dseg h' p as q = dseg h p as q"
  by (induction as arbitrary: p) auto

lemma dseg_upd [simp]: "a \<notin> set as \<Longrightarrow> dseg (h(a := x)) p as q = dseg h p as q"
  by (rule dseg_frame) auto

lemma dseg_alloc: "dseg h p as q \<Longrightarrow> a \<in> set as \<Longrightarrow> \<exists>n. h a = Some n"
  by (induction as arbitrary: p) auto

text \<open>Changing the pointers at the two ends of a segment.\<close>

lemma dseg_set_next:
  assumes "dseg h p (as @ [a]) q" and "distinct (as @ [a])" and "h a = Some n"
  shows "dseg (h(a \<mapsto> n\<lparr>el_next := q'\<rparr>)) p (as @ [a]) q'"
  using assms by (auto simp: dseg_append)

lemma dseg_set_prev:
  assumes "dseg h p (a # as) q" and "distinct (a # as)" and "h a = Some n"
  shows "dseg (h(a \<mapsto> n\<lparr>el_prev := p'\<rparr>)) p' (a # as) q"
  using assms by auto

section \<open>The queue as a list\<close>

text \<open>What an element holds, without its pointers: priority, backoff and bytes.\<close>

type_synonym content = "int \<times> int \<times> u8 list"

definition content :: "queue_element \<Rightarrow> content" where
  "content n = (priority n, backoff n, el_data n)"

definition bytes :: "content list \<Rightarrow> int" where
  "bytes cs = sum_list (map (\<lambda>(_, _, d). int (length d)) cs)"

definition contents :: "(nat \<Rightarrow> queue_element option) \<Rightarrow> nat list \<Rightarrow> content list" where
  "contents h as = map (\<lambda>a. content (the (h a))) as"

definition by_priority :: "content list \<Rightarrow> bool" where
  "by_priority cs = sorted_wrt (\<lambda>x y. fst x \<ge> fst y) cs"

definition linked :: "pqueue \<Rightarrow> nat list \<Rightarrow> bool" where
  "linked s as \<longleftrightarrow> distinct as \<and> dseg (heap s) None as None \<and>
     head s = first_addr as None \<and> tail s = last_addr None as \<and>
     (\<forall>a. heap s a \<noteq> None \<longrightarrow> a < brk s) \<and>
     (\<forall>a \<in> set as. el_size (the (heap s a)) = int (length (el_data (the (heap s a)))))"

definition queue_is :: "pqueue \<Rightarrow> content list \<Rightarrow> bool" where
  "queue_is s cs \<longleftrightarrow> (\<exists>as. linked s as \<and> contents (heap s) as = cs) \<and> by_priority cs \<and>
     bytes cs \<le> current_size s \<and> current_size s \<le> max_size s"

lemma bytes_simps [simp]:
  "bytes [] = 0" "bytes ((p, b, d) # cs) = int (length d) + bytes cs"
  "bytes (cs @ ds) = bytes cs + bytes ds"
  by (simp_all add: bytes_def)

lemma bytes_Cons: "bytes (c # cs) = int (length (snd (snd c))) + bytes cs"
  by (cases c) simp

lemma bytes_nonneg [simp]: "0 \<le> bytes cs"
  by (induction cs) (auto simp: bytes_Cons)

lemma contents_simps [simp]:
  "contents h [] = []" "contents h (a # as) = content (the (h a)) # contents h as"
  "contents h (as @ bs) = contents h as @ contents h bs" "length (contents h as) = length as"
  by (simp_all add: contents_def)

lemma contents_upd [simp]: "a \<notin> set as \<Longrightarrow> contents (h(a := x)) as = contents h as"
  by (auto simp: contents_def)

lemma contents_pointers:
  "(\<And>a. a \<in> set as \<Longrightarrow> content (the (h' a)) = content (the (h a))) \<Longrightarrow> contents h' as = contents h as"
  by (simp add: contents_def)

lemma content_pointers [simp]:
  "content (n\<lparr>el_next := q\<rparr>) = content n" "content (n\<lparr>el_prev := q\<rparr>) = content n"
  by (simp_all add: content_def)

section \<open>Removing the tail\<close>

lemma linked_tail:
  assumes "linked s (as @ [a])"
  shows "\<exists>n. heap s a = Some n \<and> tail s = Some a \<and> el_prev n = last_addr None as \<and> el_next n = None \<and>
    el_size n = int (length (el_data n)) \<and> dseg (heap s) None as (Some a) \<and> a \<notin> set as"
  using assms by (auto simp: linked_def dseg_append)

lemma remove_tail_run:
  assumes l: "linked s (as @ [a])" and fit: "bytes (contents (heap s) (as @ [a])) \<le> current_size s"
  shows "\<exists>s'. remove_tail s = Some s' \<and> linked s' as \<and> contents (heap s') as = contents (heap s) as \<and>
    current_size s' = current_size s - bytes (contents (heap s) [a]) \<and> max_size s' = max_size s"
proof -
  from linked_tail [OF l] obtain n where n: "heap s a = Some n" "tail s = Some a"
    "el_prev n = last_addr None as" "el_size n = int (length (el_data n))"
    and seg: "dseg (heap s) None as (Some a)" and new: "a \<notin> set as" by blast
  have size: "bytes (contents (heap s) [a]) = el_size n" using n by (simp add: content_def)
  have "bytes (contents (heap s) as) + el_size n \<le> current_size s"
    using fit by (simp add: n content_def)
  then have "el_size n \<le> current_size s" using bytes_nonneg [of "contents (heap s) as"] by linarith
  then have big: "\<not> current_size s < int (length (el_data n))" using n by simp
  have bytes: "bytes [content n] = int (length (el_data n))" by (simp add: content_def)
  show ?thesis
  proof (cases as rule: rev_cases)
    case Nil
    with l show ?thesis
      by (auto simp: remove_tail_def n big bytes linked_def free_def)
  next
    case (snoc bs b)
    with new l have ne: "head s \<noteq> Some a" "b \<noteq> a" by (cases bs; auto simp: linked_def)+
    from seg snoc obtain m where m: "heap s b = Some m" by (auto simp: dseg_append)
    define h where "h = (heap s)(b \<mapsto> m\<lparr>el_next := None\<rparr>, a := None)"
    have "dseg h None as None" "contents h as = contents (heap s) as"
      using dseg_set_next [of "heap s" None bs b "Some a" m None] seg snoc new m l
      by (auto simp: h_def linked_def contents_def)
    moreover have "\<forall>x \<in> set as. el_size (the (h x)) = int (length (el_data (the (h x))))"
      "\<forall>x. h x \<noteq> None \<longrightarrow> x < brk s" "head s = first_addr as None"
      using l new m snoc by (auto simp: h_def linked_def)
    ultimately show ?thesis using n ne snoc l m
      by (simp add: remove_tail_def modify_def free_def big bytes linked_def h_def)
  qed
qed

lemma remove_tails_run:
  assumes "linked s (as @ bs)" and "bytes (contents (heap s) (as @ bs)) \<le> current_size s"
  shows "\<exists>s'. remove_tails (length bs) s = Some s' \<and> linked s' as \<and>
    contents (heap s') as = contents (heap s) as \<and>
    current_size s' = current_size s - bytes (contents (heap s) bs) \<and> max_size s' = max_size s"
  using assms
proof (induction bs arbitrary: s rule: rev_induct)
  case Nil
  then show ?case by auto
next
  case (snoc b bs)
  then have "linked s ((as @ bs) @ [b])" "bytes (contents (heap s) ((as @ bs) @ [b])) \<le> current_size s"
    by simp_all
  from remove_tail_run [OF this] obtain s1 where s1: "remove_tail s = Some s1" "linked s1 (as @ bs)"
    "contents (heap s1) (as @ bs) = contents (heap s) (as @ bs)"
    "current_size s1 = current_size s - bytes (contents (heap s) [b])" "max_size s1 = max_size s"
    by blast
  have "bytes (contents (heap s1) (as @ bs)) \<le> current_size s1" using snoc.prems s1 by simp
  from snoc.IH [OF s1(2) this] s1 show ?case by auto
qed

section \<open>Making room\<close>

lemma drop_snoc: "k \<le> length xs \<Longrightarrow> drop (Suc (length xs) - Suc k) (xs @ [x]) = drop (length xs - k) xs @ [x]"
  by simp

lemma scan_lower_run:
  assumes "dseg (heap s) None as q"
    and "\<forall>a \<in> set as. el_size (the (heap s a)) = int (length (el_data (the (heap s a))))"
  shows "\<exists>k. scan_lower s w p (last_addr None as) ps r =
        Some (ps + bytes (drop (length as - k) (contents (heap s) as)), r + k) \<and> k \<le> length as \<and>
      (\<forall>c \<in> set (drop (length as - k) (contents (heap s) as)). fst c < p) \<and>
      (\<forall>j < k. current_size s - (ps + bytes (drop (length as - j) (contents (heap s) as))) + w > max_size s) \<and>
      (k < length as \<longrightarrow> p \<le> fst (contents (heap s) as ! (length as - Suc k)) \<or>
        current_size s - (ps + bytes (drop (length as - k) (contents (heap s) as))) + w \<le> max_size s)"
  using assms
proof (induction as arbitrary: ps r q rule: rev_induct)
  case Nil
  then show ?case by (simp add: scan_lower.simps)
next
  case (snoc a as)
  from snoc.prems obtain n where n: "heap s a = Some n" "el_prev n = last_addr None as"
    "el_size n = int (length (el_data n))" and seg: "dseg (heap s) None as (Some a)"
    by (auto simp: dseg_append)
  let ?go = "priority n < p \<and> current_size s - ps + w > max_size s"
  show ?case
  proof (cases ?go)
    case False
    then show ?thesis
      by (intro exI [of _ 0]) (auto simp: scan_lower.simps n content_def nth_append)
  next
    case True
    from snoc.IH [OF seg, of "ps + el_size n" "r + 1"] snoc.prems(2) obtain k where
      k: "scan_lower s w p (last_addr None as) (ps + el_size n) (r + 1) =
          Some (ps + el_size n + bytes (drop (length as - k) (contents (heap s) as)), r + 1 + k)"
        "k \<le> length as" "\<forall>c \<in> set (drop (length as - k) (contents (heap s) as)). fst c < p"
      and before: "\<forall>j < k. current_size s - (ps + el_size n + bytes (drop (length as - j) (contents (heap s) as))) + w
          > max_size s"
      and stop: "k < length as \<longrightarrow> p \<le> fst (contents (heap s) as ! (length as - Suc k)) \<or>
        current_size s - (ps + el_size n + bytes (drop (length as - k) (contents (heap s) as))) + w \<le> max_size s"
      by auto
    have drop: "drop (length (as @ [a]) - Suc j) (contents (heap s) (as @ [a])) =
        drop (length as - j) (contents (heap s) as) @ [content n]" if "j \<le> length as" for j
      using that by (simp add: n)
    have size: "bytes (drop (length (as @ [a]) - Suc j) (contents (heap s) (as @ [a]))) =
        el_size n + bytes (drop (length as - j) (contents (heap s) as))" if "j \<le> length as" for j
      unfolding drop [OF that] using n by (simp add: content_def)
    have all: "\<forall>j < Suc k. current_size s - (ps + bytes (drop (length (as @ [a]) - j) (contents (heap s) (as @ [a])))) + w
        > max_size s"
    proof (intro allI impI)
      fix j assume "j < Suc k"
      then show "current_size s - (ps + bytes (drop (length (as @ [a]) - j) (contents (heap s) (as @ [a])))) + w
          > max_size s"
        using True before size [of "j - 1"] k(2) by (cases j) (auto simp: add.assoc)
    qed
    have "contents (heap s) (as @ [a]) ! (length (as @ [a]) - Suc (Suc k)) =
        contents (heap s) as ! (length as - Suc k)" if "k < length as"
    proof -
      have "length as - Suc k < length as" using that by arith
      then show ?thesis using that by (simp add: nth_append)
    qed
    with True k all stop show ?thesis
      by (intro exI [of _ "Suc k"], simp only: size [OF k(2)] drop [OF k(2)])
        (auto simp: scan_lower.simps [of _ _ _ "Some a"] n content_def add.assoc)
  qed
qed

text \<open>
  \<open>evict cs prio wanted s k\<close>: dropping the last \<open>k\<close> elements, all of lower priority, makes
  enough room.
\<close>

definition evict :: "content list \<Rightarrow> int \<Rightarrow> int \<Rightarrow> pqueue \<Rightarrow> nat \<Rightarrow> bool" where
  "evict cs prio wanted s k \<longleftrightarrow> k \<le> length cs \<and> (\<forall>c \<in> set (drop (length cs - k) cs). fst c < prio) \<and>
     current_size s - bytes (drop (length cs - k) cs) + wanted \<le> max_size s"

lemma bytes_drop_le: "bytes (drop k cs) \<le> bytes cs"
  using bytes_simps(3) [of "take k cs" "drop k cs"] bytes_nonneg [of "take k cs"]
  by (simp del: bytes_simps(3))

lemma evict_scan:
  assumes "k \<le> length cs" and low: "\<forall>c \<in> set (drop (length cs - k) cs). fst c < p"
    and before: "\<forall>j < k. current_size s - bytes (drop (length cs - j) cs) + w > max_size s"
    and stop: "k < length cs \<longrightarrow> p \<le> fst (cs ! (length cs - Suc k)) \<or>
        current_size s - bytes (drop (length cs - k) cs) + w \<le> max_size s"
  shows "(if current_size s - bytes (drop (length cs - k) cs) + w \<le> max_size s
     then evict cs p w s k \<and> (LEAST j. evict cs p w s j) = k else \<not> (\<exists>j. evict cs p w s j))"
proof (cases "current_size s - bytes (drop (length cs - k) cs) + w \<le> max_size s")
  case True
  then have k: "evict cs p w s k" using assms(1) low by (simp add: evict_def)
  moreover have "k \<le> j" if "evict cs p w s j" for j
    using that before by (meson evict_def leD leI)
  ultimately show ?thesis using True by (simp add: Least_equality)
next
  case False
  have "\<not> evict cs p w s j" for j
  proof
    assume j: "evict cs p w s j"
    then have "k < j" using before False by (metis evict_def leD linorder_neqE_nat)
    then have "k < length cs" using j by (simp add: evict_def)
    moreover have "cs ! (length cs - Suc k) \<in> set (drop (length cs - j) cs)"
      using \<open>k < j\<close> j calculation
      by (auto simp: evict_def in_set_conv_nth intro!: exI [of _ "j - Suc k"])
    ultimately show False using stop False j by (auto simp: evict_def)
  qed
  with False show ?thesis by simp
qed

lemma contents_take_drop:
  "contents h (take k as) = take k (contents h as)" "contents h (drop k as) = drop k (contents h as)"
  by (simp_all add: contents_def take_map drop_map)

lemma evict_trivial: "current_size s + w \<le> max_size s \<Longrightarrow> evict cs p w s 0"
  by (simp add: evict_def)

lemma evict_too_big: "max_size s < w \<Longrightarrow> bytes cs \<le> current_size s \<Longrightarrow> \<not> evict cs p w s k"
  using bytes_drop_le [of "length cs - k" cs] by (simp add: evict_def)

lemma make_room_run:
  assumes l: "linked s as" and cs: "contents (heap s) as = cs" and cur: "bytes cs \<le> current_size s"
  shows "if \<exists>k. evict cs p w s k
    then \<exists>s' bs. make_room w p s = Some (True, s') \<and> linked s' bs \<and>
      contents (heap s') bs = take (length cs - (LEAST k. evict cs p w s k)) cs \<and>
      current_size s' = current_size s - bytes (drop (length cs - (LEAST k. evict cs p w s k)) cs) \<and>
      max_size s' = max_size s \<and> current_size s' + w \<le> max_size s
    else make_room w p s = Some (False, s)"
proof -
  have len: "length cs = length as" using cs by auto
  consider (fits) "current_size s + w \<le> max_size s"
    | (hopeless) "\<not> current_size s + w \<le> max_size s" "max_size s < w \<or> as = []"
    | (scan) "\<not> current_size s + w \<le> max_size s" "\<not> max_size s < w" "as \<noteq> []"
    by blast
  then show ?thesis
  proof cases
    case fits
    then have "(LEAST k. evict cs p w s k) = 0" "\<exists>k. evict cs p w s k"
      using evict_trivial [OF fits] by (auto intro: Least_equality)
    with fits l cs show ?thesis by (auto simp: make_room_def)
  next
    case hopeless
    then have "\<not> (\<exists>k. evict cs p w s k)"
      using evict_too_big [OF _ cur] cs by (auto simp: evict_def)
    moreover have "make_room w p s = Some (False, s)"
      using hopeless l by (auto simp: make_room_def linked_def)
    ultimately show ?thesis by simp
  next
    case scan
    have seg: "dseg (heap s) None as None" "tail s = last_addr None as" "tail s \<noteq> None"
      "\<forall>a \<in> set as. el_size (the (heap s a)) = int (length (el_data (the (heap s a))))"
      using l scan(3) by (auto simp: linked_def last_addr_def)
    from scan_lower_run [OF seg(1,4), of w p 0 0] obtain k where
      k: "scan_lower s w p (tail s) 0 0 = Some (bytes (drop (length cs - k) cs), k)" "k \<le> length cs"
      and ev: "if current_size s - bytes (drop (length cs - k) cs) + w \<le> max_size s
        then evict cs p w s k \<and> (LEAST j. evict cs p w s j) = k else \<not> (\<exists>j. evict cs p w s j)"
      using evict_scan [of _ cs p s w] by (auto simp: cs len seg(2))
    note mr = make_room_def [of w p s] k(1) scan(1,2) seg(3)
    show ?thesis
    proof (cases "current_size s - bytes (drop (length cs - k) cs) + w \<le> max_size s")
      case False
      with ev show ?thesis by (simp add: mr)
    next
      case True
      let ?as = "take (length as - k) as" and ?bs = "drop (length as - k) as"
      have "linked s (?as @ ?bs)" "bytes (contents (heap s) (?as @ ?bs)) \<le> current_size s"
        using l cur cs by (simp_all del: contents_simps(3))
      from remove_tails_run [OF this] obtain s' where s': "remove_tails k s = Some s'" "linked s' ?as"
        "contents (heap s') ?as = take (length cs - k) cs"
        "current_size s' = current_size s - bytes (drop (length cs - k) cs)" "max_size s' = max_size s"
        using k(2) by (auto simp: contents_take_drop cs len)
      moreover have "make_room w p s = Some (True, s')" using True s'(1) by (simp add: mr)
      ultimately show ?thesis using ev True by auto
    qed
  qed
qed

section \<open>Inserting\<close>

definition enqueue :: "content \<Rightarrow> content list \<Rightarrow> content list" where
  "enqueue c cs = takeWhile (\<lambda>x. fst x \<ge> fst c) cs @ c # dropWhile (\<lambda>x. fst x \<ge> fst c) cs"

lemma find_lower_run:
  "dseg (heap s) p as None \<Longrightarrow> find_lower s prio (first_addr as None) =
     Some (first_addr (dropWhile (\<lambda>a. priority (the (heap s a)) \<ge> prio) as) None)"
proof (induction as arbitrary: p)
  case Nil
  then show ?case by (simp add: find_lower.simps)
next
  case (Cons a as)
  then show ?case by (subst find_lower.simps) auto
qed

lemma insert_between:
  assumes "dseg h None (xs @ ys) None" and "distinct (xs @ ys)" and "new \<notin> set (xs @ ys)"
    and "el_prev n = last_addr None xs" and "el_next n = first_addr ys None"
    and h': "h' = (\<lambda>x. if x = new then Some n
      else if Some x = last_addr None xs then map_option (\<lambda>m. m\<lparr>el_next := Some new\<rparr>) (h x)
      else if Some x = first_addr ys None then map_option (\<lambda>m. m\<lparr>el_prev := Some new\<rparr>) (h x)
      else h x)"
  shows "dseg h' None (xs @ new # ys) None"
    and "contents h' (xs @ new # ys) = contents h xs @ content n # contents h ys"
proof -
  have xs: "dseg h' None xs (Some new)"
  proof (cases xs rule: rev_cases)
    case (snoc zs z)
    with assms obtain m where "h z = Some m" by (auto simp: dseg_append)
    moreover have "dseg h' None zs (Some z) = dseg h None zs (Some z)"
      using assms snoc by (intro dseg_frame) (auto simp: h' first_addr_def last_addr_def split: list.splits)
    ultimately show ?thesis using assms snoc by (auto simp: dseg_append h')
  qed simp
  have not_last: "Some x \<noteq> last_addr None xs" if "x \<in> set ys" for x
    using assms(2) that by (cases xs rule: rev_cases) auto
  have ys: "dseg h' (Some new) ys None"
  proof (cases ys)
    case (Cons z zs)
    with assms obtain m where m: "h z = Some m" by (auto simp: dseg_append)
    have "Some z \<noteq> last_addr None xs" "z \<noteq> new" using Cons not_last assms(3) by auto
    then have "h' z = Some (m\<lparr>el_prev := Some new\<rparr>)" using m Cons by (simp add: h')
    moreover have "dseg h' (Some z) zs None = dseg h (Some z) zs None"
      using assms(2,3) Cons not_last by (intro dseg_frame) (auto simp: h')
    ultimately show ?thesis using assms(1) Cons m by (auto simp: dseg_append)
  qed simp
  show "dseg h' None (xs @ new # ys) None"
    using xs ys assms by (simp add: dseg_append)
  have "\<exists>m. h x = Some m" if "x \<in> set (xs @ ys)" for x
    using dseg_alloc [OF assms(1) that] .
  then have "content (the (h' x)) = content (the (h x))" if "x \<in> set (xs @ ys)" for x
    using assms(3) that by (fastforce simp: h')
  then show "contents h' (xs @ new # ys) = contents h xs @ content n # contents h ys"
    using contents_pointers [of xs h' h] contents_pointers [of ys h' h] by (simp add: h')
qed

lemma linked_alloc: "linked s as \<Longrightarrow> a \<in> set as \<Longrightarrow> \<exists>n. heap s a = Some n"
  by (rule dseg_alloc [of _ None as None]) (simp_all add: linked_def)

lemma linked_insert:
  assumes l: "linked s (xs @ ys)" and n: "el_prev n = last_addr None xs" "el_next n = first_addr ys None"
      "el_size n = int (length (el_data n))"
    and s': "heap s' = (\<lambda>x. if x = brk s then Some n
        else if Some x = last_addr None xs then map_option (\<lambda>m. m\<lparr>el_next := Some (brk s)\<rparr>) (heap s x)
        else if Some x = first_addr ys None then map_option (\<lambda>m. m\<lparr>el_prev := Some (brk s)\<rparr>) (heap s x)
        else heap s x)"
      "brk s' = brk s + 1" "head s' = first_addr (xs @ [brk s]) None" "tail s' = last_addr None (brk s # ys)"
  shows "linked s' (xs @ brk s # ys) \<and>
    contents (heap s') (xs @ brk s # ys) = contents (heap s) xs @ content n # contents (heap s) ys"
proof -
  have new: "brk s \<notin> set (xs @ ys)"
    using l dseg_alloc [of "heap s" None "xs @ ys" None] by (auto simp: linked_def)
  have "distinct (xs @ ys)" "dseg (heap s) None (xs @ ys) None" using l by (auto simp: linked_def)
  note ins = insert_between [OF this(2,1) new n(1,2) s'(1)]
  have "el_size (the (heap s' a)) = int (length (el_data (the (heap s' a))))" if "a \<in> set (xs @ brk s # ys)" for a
  proof (cases "a = brk s")
    case False
    then have "a \<in> set (xs @ ys)" using that by auto
    moreover from linked_alloc [OF l this] obtain m where "heap s a = Some m" by blast
    ultimately show ?thesis using l by (force simp: s'(1) linked_def)
  qed (simp add: s'(1) n)
  moreover have "\<forall>a. heap s' a \<noteq> None \<longrightarrow> a < brk s'"
    using l by (fastforce simp: s' linked_def split: if_splits)
  ultimately have "linked s' (xs @ brk s # ys)"
    using ins(1) new l s'(3,4) unfolding linked_def s'(2) by auto
  with ins(2) show ?thesis by simp
qed

text \<open>The part of \<open>queue_add\<close> after room has been made.\<close>

definition insert_element :: "u8 list \<Rightarrow> int \<Rightarrow> int \<Rightarrow> pqueue \<Rightarrow> pqueue option" where
  "insert_element val sz prio s =
     (case head s of
        None \<Rightarrow> add_head val sz prio s
      | Some h \<Rightarrow> do {
          n \<leftarrow> heap s h;
          if priority n < prio then add_head val sz prio s else add_after_head val sz prio s
        })"

definition inserted :: "content \<Rightarrow> pqueue \<Rightarrow> nat list \<Rightarrow> pqueue \<Rightarrow> bool" where
  "inserted c s as s' \<longleftrightarrow> (\<exists>bs. linked s' bs \<and> contents (heap s') bs = enqueue c (contents (heap s) as)) \<and>
     current_size s' = current_size s \<and> max_size s' = max_size s"

lemma enqueue_contents:
  "fst c = prio \<Longrightarrow> enqueue c (contents h as) =
     contents h (takeWhile (\<lambda>a. priority (the (h a)) \<ge> prio) as) @ c #
     contents h (dropWhile (\<lambda>a. priority (the (h a)) \<ge> prio) as)"
  by (simp add: enqueue_def contents_def takeWhile_map dropWhile_map o_def content_def)

lemma add_head_run:
  assumes l: "linked s as" and sz: "0 \<le> sz" "sz \<le> int (length val)"
    and low: "as = [] \<or> priority (the (heap s (hd as))) < prio"
  shows "\<exists>s'. add_head val sz prio s = Some s' \<and> inserted (prio, 0, take (nat sz) val) s as s'"
proof -
  let ?n = "\<lparr>el_next = head s, el_prev = None, priority = prio, backoff = 0, el_size = sz,
      el_data = take (nat sz) val\<rparr>"
  have head: "head s = first_addr as None" using l by (simp add: linked_def)
  have new: "heap s (brk s) = None" using l by (auto simp: linked_def)
  have enq: "enqueue (prio, 0, take (nat sz) val) (contents (heap s) as) = content ?n # contents (heap s) as"
    using low by (cases as) (auto simp: enqueue_def content_def)
  have "\<exists>s'. add_head val sz prio s = Some s' \<and> current_size s' = current_size s \<and> max_size s' = max_size s \<and>
      heap s' = (\<lambda>x. if x = brk s then Some ?n
        else if Some x = last_addr None [] then map_option (\<lambda>m. m\<lparr>el_next := Some (brk s)\<rparr>) (heap s x)
        else if Some x = first_addr as None then map_option (\<lambda>m. m\<lparr>el_prev := Some (brk s)\<rparr>) (heap s x)
        else heap s x) \<and>
      brk s' = brk s + 1 \<and> head s' = first_addr ([] @ [brk s]) None \<and> tail s' = last_addr None (brk s # as)"
  proof (cases as)
    case Nil
    with l sz show ?thesis
      by (auto simp: add_head_def new_element_def linked_def)
  next
    case (Cons a bs)
    then obtain m where m: "heap s a = Some m" using l by (auto simp: linked_def)
    then have "a \<noteq> brk s" using new by auto
    moreover have "tail s = last_addr None (brk s # as)" "tail s \<noteq> None"
      using l Cons by (auto simp: linked_def last_addr_def)
    ultimately show ?thesis using l sz Cons m head
      by (auto simp: add_head_def new_element_def modify_def fun_eq_iff)
  qed
  then obtain s' where s': "add_head val sz prio s = Some s'" "current_size s' = current_size s"
      "max_size s' = max_size s" and more: "heap s' = (\<lambda>x. if x = brk s then Some ?n
        else if Some x = last_addr None [] then map_option (\<lambda>m. m\<lparr>el_next := Some (brk s)\<rparr>) (heap s x)
        else if Some x = first_addr as None then map_option (\<lambda>m. m\<lparr>el_prev := Some (brk s)\<rparr>) (heap s x)
        else heap s x)"
      "brk s' = brk s + 1" "head s' = first_addr ([] @ [brk s]) None" "tail s' = last_addr None (brk s # as)"
    by blast
  have "linked s ([] @ as)" using l by simp
  from linked_insert [OF this _ _ _ more] sz head s' enq show ?thesis
    by (auto simp: inserted_def)
qed

lemma add_after_head_run:
  assumes l: "linked s as" and sz: "0 \<le> sz" "sz \<le> int (length val)"
    and high: "as \<noteq> []" "prio \<le> priority (the (heap s (hd as)))"
  shows "\<exists>s'. add_after_head val sz prio s = Some s' \<and> inserted (prio, 0, take (nat sz) val) s as s'"
proof -
  let ?P = "\<lambda>a. priority (the (heap s a)) \<ge> prio"
  define xs where "xs = takeWhile ?P as"
  define ys where "ys = dropWhile ?P as"
  have as: "as = xs @ ys" by (simp add: xs_def ys_def)
  have "xs \<noteq> []" using high by (cases as) (auto simp: xs_def)
  then obtain zs t where xs: "xs = zs @ [t]" by (cases xs rule: rev_cases) auto
  let ?n = "\<lparr>el_next = first_addr ys None, el_prev = Some t, priority = prio, backoff = 0, el_size = sz,
      el_data = take (nat sz) val\<rparr>"
  have seg: "dseg (heap s) None as None" and head: "head s = first_addr as None"
    and tail: "tail s = last_addr None as" using l by (auto simp: linked_def)
  have new: "heap s (brk s) = None" using l by (auto simp: linked_def)
  have first: "head s = first_addr (xs @ [brk s]) None" using head as xs by (cases zs) simp_all
  have find: "find_lower s prio (head s) = Some (first_addr ys None)"
    using find_lower_run [OF seg] head by (simp add: ys_def)
  obtain m where m: "heap s t = Some m" using linked_alloc [OF l] as xs by auto
  have t: "t \<noteq> brk s" using m new by auto
  have enq: "enqueue (prio, 0, take (nat sz) val) (contents (heap s) as) =
      contents (heap s) xs @ content ?n # contents (heap s) ys"
    unfolding xs_def ys_def by (subst enqueue_contents [of _ prio]) (simp_all add: content_def)
  have "\<exists>s'. add_after_head val sz prio s = Some s' \<and> current_size s' = current_size s \<and> max_size s' = max_size s \<and>
      heap s' = (\<lambda>x. if x = brk s then Some ?n
        else if Some x = last_addr None xs then map_option (\<lambda>m. m\<lparr>el_next := Some (brk s)\<rparr>) (heap s x)
        else if Some x = first_addr ys None then map_option (\<lambda>m. m\<lparr>el_prev := Some (brk s)\<rparr>) (heap s x)
        else heap s x) \<and>
      brk s' = brk s + 1 \<and> head s' = first_addr (xs @ [brk s]) None \<and> tail s' = last_addr None (brk s # ys)"
  proof (cases ys)
    case Nil
    then show ?thesis using sz find tail first m t as xs
      by (auto simp: add_after_head_def new_element_def modify_def fun_eq_iff)
  next
    case (Cons a bs)
    from seg obtain k where k: "heap s a = Some k" "el_prev k = Some t"
      unfolding as xs Cons by (auto simp: dseg_append)
    have "a \<noteq> brk s" "a \<noteq> t" using k new l as xs Cons by (auto simp: linked_def)
    then show ?thesis using sz find tail first m t as xs Cons k
      by (auto simp: add_after_head_def new_element_def modify_def fun_eq_iff)
  qed
  then obtain s' where s': "add_after_head val sz prio s = Some s'" "current_size s' = current_size s"
      "max_size s' = max_size s" and more: "heap s' = (\<lambda>x. if x = brk s then Some ?n
        else if Some x = last_addr None xs then map_option (\<lambda>m. m\<lparr>el_next := Some (brk s)\<rparr>) (heap s x)
        else if Some x = first_addr ys None then map_option (\<lambda>m. m\<lparr>el_prev := Some (brk s)\<rparr>) (heap s x)
        else heap s x)"
      "brk s' = brk s + 1" "head s' = first_addr (xs @ [brk s]) None" "tail s' = last_addr None (brk s # ys)"
    by blast
  have "linked s (xs @ ys)" using l as by simp
  from linked_insert [OF this _ _ _ more] sz xs s' enq show ?thesis
    by (auto simp: inserted_def)
qed

lemma insert_element_run:
  assumes l: "linked s as" and sz: "0 \<le> sz" "sz \<le> int (length val)"
  shows "\<exists>s'. insert_element val sz prio s = Some s' \<and> inserted (prio, 0, take (nat sz) val) s as s'"
proof (cases as)
  case Nil
  then show ?thesis using add_head_run [OF l sz] l by (simp add: insert_element_def linked_def)
next
  case (Cons a bs)
  from linked_alloc [OF l, of a] Cons obtain n where n: "heap s a = Some n" by auto
  have "head s = Some a" using l Cons by (simp add: linked_def)
  then have ins: "insert_element val sz prio s =
      (if priority n < prio then add_head val sz prio s else add_after_head val sz prio s)"
    by (simp add: insert_element_def n)
  show ?thesis
    using add_head_run [OF l sz] add_after_head_run [OF l sz] Cons n unfolding ins by auto
qed

section \<open>Adding to the queue\<close>

lemma by_priority_enqueue:
  assumes "by_priority cs"
  shows "by_priority (enqueue c cs)"
proof -
  let ?P = "\<lambda>x. fst x \<ge> fst c"
  define xs where "xs = takeWhile ?P cs"
  define ys where "ys = dropWhile ?P cs"
  have "by_priority (xs @ ys)" using assms by (simp add: xs_def ys_def)
  then have sorted: "by_priority xs" "by_priority ys" "\<forall>x \<in> set xs. \<forall>y \<in> set ys. fst x \<ge> fst y"
    unfolding by_priority_def sorted_wrt_append by blast+
  have "\<forall>y \<in> set ys. fst c \<ge> fst y"
  proof (cases ys)
    case (Cons d ds)
    moreover have "\<not> fst d \<ge> fst c" using Cons by (metis ys_def dropWhile_eq_Cons_conv)
    ultimately show ?thesis using sorted(2) by (auto simp: by_priority_def)
  qed simp
  moreover have "\<forall>x \<in> set xs. fst x \<ge> fst c" by (auto simp: xs_def dest: set_takeWhileD)
  moreover have "enqueue c cs = xs @ c # ys" by (simp add: enqueue_def xs_def ys_def)
  ultimately show ?thesis using sorted by (auto simp: by_priority_def sorted_wrt_append)
qed

lemma bytes_enqueue: "bytes (enqueue c cs) = bytes [c] + bytes cs"
proof -
  have "bytes (takeWhile P cs) + bytes (dropWhile P cs) = bytes cs" for P
    by (metis bytes_simps(3) takeWhile_dropWhile_id)
  then show ?thesis by (simp add: enqueue_def bytes_Cons)
qed

lemma linked_current_size [simp]: "linked (s\<lparr>current_size := n\<rparr>) as = linked s as"
  by (simp add: linked_def)

lemma queue_add_insert:
  "queue_add val sz prio s = do {
     (ok, s) \<leftarrow> make_room sz prio s;
     if \<not> ok then Some (False, s)
     else do {
       s \<leftarrow> insert_element val sz prio (s\<lparr>current_size := current_size s + sz\<rparr>);
       Some (True, s)
     }
   }"
  unfolding queue_add_def insert_element_def Let_def by simp

lemma queue_add_run:
  assumes q: "queue_is s cs" and sz: "0 \<le> sz" "sz \<le> int (length val)"
  shows "if \<exists>k. evict cs prio sz s k
    then \<exists>s'. queue_add val sz prio s = Some (True, s') \<and> max_size s' = max_size s \<and>
      queue_is s' (enqueue (prio, 0, take (nat sz) val)
        (take (length cs - (LEAST k. evict cs prio sz s k)) cs))
    else queue_add val sz prio s = Some (False, s)"
proof -
  let ?k = "LEAST k. evict cs prio sz s k" and ?c = "(prio, 0, take (nat sz) val)"
  from q obtain as where l: "linked s as" "contents (heap s) as = cs"
    and sorted: "by_priority cs" and cur: "bytes cs \<le> current_size s" by (auto simp: queue_is_def)
  note room = make_room_run [OF l cur, of prio sz]
  show ?thesis
  proof (cases "\<exists>k. evict cs prio sz s k")
    case False
    with room show ?thesis by (simp add: queue_add_insert)
  next
    case True
    with room obtain s1 bs where s1: "make_room sz prio s = Some (True, s1)" "linked s1 bs"
      "contents (heap s1) bs = take (length cs - ?k) cs"
      "current_size s1 = current_size s - bytes (drop (length cs - ?k) cs)"
      "max_size s1 = max_size s" "current_size s1 + sz \<le> max_size s" by auto
    let ?s1 = "s1\<lparr>current_size := current_size s1 + sz\<rparr>"
    have "linked ?s1 bs" using s1 by simp
    from insert_element_run [OF this sz, of prio] obtain s2 where
      s2: "insert_element val sz prio ?s1 = Some s2" "inserted ?c ?s1 bs s2" by blast
    then have add: "queue_add val sz prio s = Some (True, s2)" by (simp add: queue_add_insert s1)
    have "bytes cs = bytes (take (length cs - ?k) cs) + bytes (drop (length cs - ?k) cs)"
      by (simp flip: bytes_simps(3))
    moreover have "bytes [?c] = sz" using sz by simp
    moreover have "by_priority (take (length cs - ?k) cs)"
      using sorted by (simp add: by_priority_def sorted_wrt_take)
    ultimately have "queue_is s2 (enqueue ?c (take (length cs - ?k) cs))"
      using s2(2) s1 cur by_priority_enqueue [of "take (length cs - ?k) cs" ?c]
      by (auto simp: queue_is_def inserted_def bytes_enqueue)
    then show ?thesis using True add s2(2) s1(5) by (auto simp: inserted_def)
  qed
qed

section \<open>Removing during an iteration\<close>

lemma remove_between:
  assumes "dseg h None (xs @ a # ys) None" and "distinct (xs @ a # ys)"
    and h': "h' = (\<lambda>x. if x = a then None
      else if Some x = last_addr None xs then map_option (\<lambda>m. m\<lparr>el_next := first_addr ys None\<rparr>) (h x)
      else if Some x = first_addr ys None then map_option (\<lambda>m. m\<lparr>el_prev := last_addr None xs\<rparr>) (h x)
      else h x)"
  shows "dseg h' None (xs @ ys) None" and "contents h' (xs @ ys) = contents h xs @ contents h ys"
proof -
  have xs: "dseg h' None xs (first_addr ys None)"
  proof (cases xs rule: rev_cases)
    case (snoc zs z)
    with assms obtain m where m: "h z = Some m" by (auto simp: dseg_append)
    have "dseg h' None zs (Some z) = dseg h None zs (Some z)"
      using assms(2) snoc by (intro dseg_frame) (auto simp: h' first_addr_def split: list.splits)
    then show ?thesis using assms m snoc by (auto simp: dseg_append h')
  qed simp
  have not_last: "Some x \<noteq> last_addr None xs" if "x \<in> set ys" for x
    using assms(2) that by (cases xs rule: rev_cases) auto
  have ys: "dseg h' (last_addr None xs) ys None"
  proof (cases ys)
    case (Cons z zs)
    with assms obtain m where m: "h z = Some m" by (auto simp: dseg_append)
    have "Some z \<noteq> last_addr None xs" "z \<noteq> a" using Cons not_last assms(2) by auto
    then have "h' z = Some (m\<lparr>el_prev := last_addr None xs\<rparr>)" using m Cons by (simp add: h')
    moreover have "dseg h' (Some z) zs None = dseg h (Some z) zs None"
      using assms(2) Cons not_last by (intro dseg_frame) (auto simp: h')
    ultimately show ?thesis using assms(1) Cons m by (auto simp: dseg_append)
  qed simp
  show "dseg h' None (xs @ ys) None" using xs ys by (simp add: dseg_append)
  have "\<exists>m. h x = Some m" if "x \<in> set (xs @ ys)" for x
    by (rule dseg_alloc [OF assms(1)]) (use that in auto)
  then have "content (the (h' x)) = content (the (h x))" if "x \<in> set (xs @ ys)" for x
    using assms(2) that by (fastforce simp: h')
  then show "contents h' (xs @ ys) = contents h xs @ contents h ys"
    using contents_pointers [of xs h' h] contents_pointers [of ys h' h] by simp
qed

lemma iter_remove_run:
  assumes l: "linked s (xs @ a # ys)" and it: "iter_remove s = Some a"
  shows "\<exists>s'. queue_iter_remove s = Some s' \<and> linked s' (xs @ ys) \<and>
    contents (heap s') (xs @ ys) = contents (heap s) xs @ contents (heap s) ys \<and>
    current_size s' = current_size s \<and> max_size s' = max_size s \<and>
    iter_next s' = iter_next s \<and> iter_remove s' = None"
proof -
  let ?h = "\<lambda>x. if x = a then None
      else if Some x = last_addr None xs then map_option (\<lambda>m. m\<lparr>el_next := first_addr ys None\<rparr>) (heap s x)
      else if Some x = first_addr ys None then map_option (\<lambda>m. m\<lparr>el_prev := last_addr None xs\<rparr>) (heap s x)
      else heap s x"
  have seg: "dseg (heap s) None (xs @ a # ys) None" "distinct (xs @ a # ys)"
    and hd: "head s = first_addr xs (Some a)" and tl: "tail s = last_addr (Some a) ys"
    using l by (auto simp: linked_def)
  from seg(1) obtain n where n: "heap s a = Some n" "el_prev n = last_addr None xs"
    "el_next n = first_addr ys None" by (auto simp: dseg_append)
  have alloc: "\<exists>m. heap s x = Some m" if "x \<in> set (xs @ ys)" for x
    by (rule linked_alloc [OF l]) (use that in auto)
  have "\<exists>s'. queue_iter_remove s = Some s' \<and> heap s' = ?h \<and> brk s' = brk s \<and>
      head s' = first_addr (xs @ ys) None \<and> tail s' = last_addr None (xs @ ys) \<and>
      current_size s' = current_size s \<and> max_size s' = max_size s \<and>
      iter_next s' = iter_next s \<and> iter_remove s' = None"
  proof (cases xs rule: rev_cases)
    case Nil
    show ?thesis
    proof (cases ys)
      case Nil
      with \<open>xs = []\<close> show ?thesis using it n hd tl
        by (simp add: queue_iter_remove_def free_def fun_eq_iff)
    next
      case (Cons b bs)
      with alloc [of b] obtain m where "heap s b = Some m" by auto
      with \<open>xs = []\<close> Cons show ?thesis using it n hd tl seg(2)
        by (auto simp: queue_iter_remove_def free_def modify_def fun_eq_iff)
    qed
  next
    case (snoc zs z)
    with alloc [of z] obtain k where k: "heap s z = Some k" by auto
    have first: "first_addr zs (Some z) = head s" using hd snoc by simp
    show ?thesis
    proof (cases ys)
      case Nil
      then show ?thesis using it n hd tl seg(2) snoc k
        by (auto simp: queue_iter_remove_def free_def modify_def fun_eq_iff)
    next
      case (Cons b bs)
      with alloc [of b] obtain m where "heap s b = Some m" by auto
      with Cons show ?thesis using it n hd tl seg(2) snoc k
        by (auto simp: queue_iter_remove_def free_def modify_def fun_eq_iff)
    qed
  qed
  then obtain s' where s': "queue_iter_remove s = Some s'" "heap s' = ?h" "brk s' = brk s"
      "head s' = first_addr (xs @ ys) None" "tail s' = last_addr None (xs @ ys)"
      "current_size s' = current_size s" "max_size s' = max_size s"
      "iter_next s' = iter_next s" "iter_remove s' = None" by blast
  note rest = remove_between [OF seg s'(2)]
  have "el_size (the (heap s' x)) = int (length (el_data (the (heap s' x))))" if "x \<in> set (xs @ ys)" for x
    using alloc [OF that] that l seg(2) by (force simp: s'(2) linked_def)
  moreover have "\<forall>x. heap s' x \<noteq> None \<longrightarrow> x < brk s'"
    using l by (auto simp: s'(2,3) linked_def split: if_splits)
  ultimately have "linked s' (xs @ ys)" using rest(1) s'(4,5) seg(2) by (simp add: linked_def)
  with s' rest(2) show ?thesis by blast
qed

section \<open>Clients of the queue\<close>

text \<open>
  The protocol of \<open>pqueue.h\<close>: the three iteration functions follow a \<open>queue_iter_start\<close>, with no
  \<open>queue_add\<close> in between.
\<close>

datatype phase = Idle | Walking

inductive queue_step :: "phase \<times> pqueue \<Rightarrow> phase \<times> pqueue \<Rightarrow> bool" where
  add: "0 \<le> sz \<Longrightarrow> sz \<le> int (length val) \<Longrightarrow> queue_add val sz prio s = Some (ok, s') \<Longrightarrow>
    queue_step (ph, s) (Idle, s')"
| start: "queue_step (ph, s) (Walking, queue_iter_start s)"
| "next": "queue_iter_next s = Some (e, s') \<Longrightarrow> queue_step (Walking, s) (Walking, s')"
| remove: "queue_iter_remove s = Some s' \<Longrightarrow> queue_step (Walking, s) (Walking, s')"
| backoff: "queue_iter_inc_backoff s = Some (ok, s') \<Longrightarrow> queue_step (Walking, s) (Walking, s')"

inductive_cases queue_stepE: "queue_step (ph, s) (ph', s')"

definition walk :: "pqueue \<Rightarrow> nat list \<Rightarrow> bool" where
  "walk s as \<longleftrightarrow> (\<exists>xs ys. as = xs @ ys \<and> iter_next s = first_addr ys None \<and>
     (iter_remove s = None \<or> (xs \<noteq> [] \<and> iter_remove s = Some (last xs))))"

definition queue_inv :: "phase \<Rightarrow> pqueue \<Rightarrow> nat list \<Rightarrow> bool" where
  "queue_inv ph s as \<longleftrightarrow> linked s as \<and> by_priority (contents (heap s) as) \<and>
     bytes (contents (heap s) as) \<le> current_size s \<and> current_size s \<le> max_size s \<and>
     (ph = Walking \<longrightarrow> walk s as)"

lemma queue_inv_is: "queue_inv ph s as \<Longrightarrow> queue_is s (contents (heap s) as)"
  by (auto simp: queue_inv_def queue_is_def)

lemma queue_is_inv: "queue_is s cs \<Longrightarrow> \<exists>as. queue_inv Idle s as"
  by (auto simp: queue_inv_def queue_is_def)

lemma linked_iter [simp]:
  "linked (s\<lparr>iter_next := x\<rparr>) as = linked s as" "linked (s\<lparr>iter_remove := y\<rparr>) as = linked s as"
  by (simp_all add: linked_def)

lemma iter_start_inv: "queue_inv ph s as \<Longrightarrow> queue_inv Walking (queue_iter_start s) as"
proof -
  assume inv: "queue_inv ph s as"
  then have "walk (queue_iter_start s) as"
    unfolding walk_def by (intro exI [of _ "[]"] exI [of _ as])
      (simp add: queue_iter_start_def queue_inv_def linked_def)
  with inv show ?thesis by (simp add: queue_inv_def queue_iter_start_def)
qed

lemma iter_next_inv:
  assumes inv: "queue_inv Walking s as"
  shows "\<exists>e s'. queue_iter_next s = Some (e, s') \<and> queue_inv Walking s' as"
proof -
  from inv obtain xs ys where as: "as = xs @ ys" and nxt: "iter_next s = first_addr ys None"
    by (auto simp: queue_inv_def walk_def)
  show ?thesis
  proof (cases ys)
    case Nil
    then show ?thesis using inv nxt as
      by (auto simp: queue_iter_next_def queue_inv_def walk_def)
  next
    case (Cons a zs)
    with inv as obtain n where n: "heap s a = Some n" "el_next n = first_addr zs None"
      by (auto simp: queue_inv_def linked_def dseg_append)
    have "walk (s\<lparr>iter_remove := Some a, iter_next := el_next n\<rparr>) as"
      unfolding walk_def by (rule exI [of _ "xs @ [a]"], rule exI [of _ zs]) (simp add: as Cons n)
    then show ?thesis using inv nxt Cons n
      by (auto simp: queue_iter_next_def queue_inv_def)
  qed
qed

lemma iter_remove_inv:
  assumes inv: "queue_inv Walking s as"
  shows "\<exists>s' bs. queue_iter_remove s = Some s' \<and> queue_inv Walking s' bs"
proof (cases "iter_remove s")
  case None
  then show ?thesis using inv by (auto simp: queue_iter_remove_def)
next
  case (Some a)
  with inv obtain zs ys where as: "as = zs @ a # ys" and nxt: "iter_next s = first_addr ys None"
    by (auto simp: queue_inv_def walk_def) (metis append_butlast_last_id append_eq_append_conv2 append_Cons append_Nil append.assoc)
  have "linked s (zs @ a # ys)" using inv as by (simp add: queue_inv_def)
  from iter_remove_run [OF this Some] obtain s' where s': "queue_iter_remove s = Some s'"
    "linked s' (zs @ ys)" "contents (heap s') (zs @ ys) = contents (heap s) zs @ contents (heap s) ys"
    "current_size s' = current_size s" "max_size s' = max_size s" "iter_next s' = iter_next s"
    "iter_remove s' = None" by blast
  then have "walk s' (zs @ ys)" using nxt by (auto simp: walk_def)
  moreover have "by_priority (contents (heap s) zs @ contents (heap s) ys)"
    "bytes (contents (heap s) zs @ contents (heap s) ys) \<le> current_size s"
    using inv as by (auto simp: queue_inv_def by_priority_def sorted_wrt_append bytes_Cons)
  ultimately have "queue_inv Walking s' (zs @ ys)"
    using inv s' by (simp add: queue_inv_def del: contents_simps(3))
  with s'(1) show ?thesis by blast
qed

lemma dseg_same_pointers:
  assumes "\<And>a. a \<in> set as \<Longrightarrow> map_option (\<lambda>n. (el_prev n, el_next n)) (h' a) =
      map_option (\<lambda>n. (el_prev n, el_next n)) (h a)"
  shows "dseg h p as q \<Longrightarrow> dseg h' p as q"
  using assms
proof (induction as arbitrary: p)
  case (Cons a as)
  then obtain n where "h a = Some n" "el_prev n = p" "el_next n = first_addr as q" "dseg h (Some a) as q"
    by auto
  with Cons.prems(2) [of a] Cons.IH [of "Some a"] Cons.prems(2) show ?case by fastforce
qed simp

lemma by_priority_map: "by_priority cs = sorted_wrt (\<ge>) (map fst cs)"
  by (simp add: by_priority_def sorted_wrt_map)

lemma bytes_map: "bytes cs = sum_list (map (\<lambda>d. int (length d)) (map (\<lambda>c. snd (snd c)) cs))"
  by (induction cs) (auto simp: bytes_Cons)

lemma backoff_inv:
  assumes inv: "queue_inv ph s as" and n: "heap s a = Some n"
  shows "queue_inv ph (s\<lparr>heap := (heap s)(a \<mapsto> n\<lparr>backoff := b\<rparr>)\<rparr>) as"
proof -
  let ?h = "(heap s)(a \<mapsto> n\<lparr>backoff := b\<rparr>)"
  have "dseg ?h None as None"
    by (rule dseg_same_pointers [of as ?h "heap s"]) (use n inv in \<open>auto simp: queue_inv_def linked_def\<close>)
  then have "linked (s\<lparr>heap := ?h\<rparr>) as" using inv n by (auto simp: queue_inv_def linked_def)
  moreover have "map fst (contents ?h as) = map fst (contents (heap s) as)"
    "map (\<lambda>c. snd (snd c)) (contents ?h as) = map (\<lambda>c. snd (snd c)) (contents (heap s) as)"
    using n by (auto simp: contents_def content_def)
  moreover have "walk (s\<lparr>heap := ?h\<rparr>) as = walk s as" by (simp add: walk_def)
  ultimately show ?thesis using inv unfolding queue_inv_def by_priority_map bytes_map by simp
qed

lemma iter_backoff_inv:
  assumes inv: "queue_inv Walking s as"
  shows "\<exists>ok s' bs. queue_iter_inc_backoff s = Some (ok, s') \<and> queue_inv Walking s' bs"
proof (cases "iter_remove s")
  case None
  then show ?thesis using inv by (auto simp: queue_iter_inc_backoff_def)
next
  case (Some a)
  with inv have "a \<in> set as" by (auto simp: queue_inv_def walk_def)
  then obtain n where n: "heap s a = Some n"
    using inv linked_alloc [of s as a] by (auto simp: queue_inv_def)
  let ?s = "s\<lparr>heap := (heap s)(a \<mapsto> n\<lparr>backoff := backoff n + 1\<rparr>)\<rparr>"
  note inv' = backoff_inv [OF inv n, of "backoff n + 1"]
  show ?thesis using iter_remove_inv [OF inv'] inv'
    by (cases "backoff n + 1 > backoff_threshold (priority n)")
      (auto simp: queue_iter_inc_backoff_def Some n modify_def)
qed

lemma queue_add_inv:
  assumes "queue_inv ph s as" and "0 \<le> sz" and "sz \<le> int (length val)"
  shows "\<exists>ok s' bs. queue_add val sz prio s = Some (ok, s') \<and> queue_inv Idle s' bs"
proof -
  from queue_add_run [OF queue_inv_is [OF assms(1)] assms(2,3), of prio] queue_inv_is [OF assms(1)]
  obtain ok s' cs where "queue_add val sz prio s = Some (ok, s')" "queue_is s' cs"
    by (auto split: if_splits)
  then show ?thesis using queue_is_inv by blast
qed

lemma queue_step_inv:
  "queue_step (ph, s) (ph', s') \<Longrightarrow> queue_inv ph s as \<Longrightarrow> \<exists>bs. queue_inv ph' s' bs"
proof (erule queue_stepE, goal_cases)
  case 1 then show ?case by (metis queue_add_inv option.inject prod.inject)
next
  case 2 then show ?case using iter_start_inv by blast
next
  case 3 then show ?case by (metis iter_next_inv option.inject prod.inject)
next
  case 4 then show ?case by (metis iter_remove_inv option.inject prod.inject)
next
  case 5 then show ?case by (metis iter_backoff_inv option.inject prod.inject)
qed

lemma queue_init_inv: "0 \<le> n \<Longrightarrow> queue_inv Idle (queue_init n pqueue_static) []"
  by (simp add: queue_inv_def linked_def queue_init_def pqueue_static_def by_priority_def)

lemma queue_steps_inv:
  assumes "queue_step\<^sup>*\<^sup>* (Idle, queue_init n pqueue_static) (ph, s)" and "0 \<le> n"
  shows "\<exists>as. queue_inv ph s as"
  using assms(1)
proof (induction rule: rtranclp_induct2)
  case refl
  then show ?case using queue_init_inv [OF assms(2)] by blast
next
  case (step ph s ph' s')
  then show ?case using queue_step_inv by blast
qed

section \<open>Properties\<close>

text \<open>
  C12: \<open>queue_add\<close> on the linked list implements insertion into a list kept in order of priority:
  it succeeds exactly when dropping some number of elements of lower priority from the end makes
  enough room, it drops the smallest such number, and the new element goes behind all elements of
  the same or higher priority; otherwise it returns 0 and the queue is unchanged.
\<close>

theorem queue_add_refines:
  assumes "queue_is s cs" and "0 \<le> sz" and "sz \<le> int (length val)"
  shows "if \<exists>k. evict cs prio sz s k
    then \<exists>s'. queue_add val sz prio s = Some (True, s') \<and> max_size s' = max_size s \<and>
      queue_is s' (enqueue (prio, 0, take (nat sz) val)
        (take (length cs - (LEAST k. evict cs prio sz s k)) cs))
    else queue_add val sz prio s = Some (False, s)"
  by (rule queue_add_run [OF assms])

theorem queue_add_refines_witness:
  "\<exists>s'. queue_add [1, 2, 3] 2 5 (queue_init 10 pqueue_static) = Some (True, s') \<and>
     queue_is s' [(5, 0, [1, 2])]"
proof -
  let ?s = "queue_init 10 pqueue_static"
  have q: "queue_is ?s []" using queue_inv_is [OF queue_init_inv [of 10]] by simp
  have "evict [] 5 2 ?s 0" by (rule evict_trivial) (simp add: queue_init_def)
  then have e: "\<exists>k. evict [] 5 2 ?s k" by blast
  show ?thesis using queue_add_refines [OF q, of 2 "[1, 2, 3]" 5] e by (auto simp: enqueue_def)
qed

text \<open>
  C29: a client that starts an iteration before each use of the iteration functions, and adds
  elements only between iterations, never makes the queue follow a pointer to freed memory: in
  every state it can reach the list is well linked, in order of priority and within its size,
  and every call it may make next succeeds.
\<close>

theorem queue_never_dangles:
  assumes "queue_step\<^sup>*\<^sup>* (Idle, queue_init n pqueue_static) (ph, s)" and "0 \<le> n"
  shows "(\<exists>cs. queue_is s cs) \<and>
    (\<forall>val prio. queue_add val (int (length val)) prio s \<noteq> None) \<and>
    (if ph = Walking then queue_iter_next s \<noteq> None \<and> queue_iter_remove s \<noteq> None \<and>
       queue_iter_inc_backoff s \<noteq> None else True)"
proof -
  from queue_steps_inv [OF assms] obtain as where inv: "queue_inv ph s as" by blast
  have "queue_add val (int (length val)) prio s \<noteq> None" for val prio
    using queue_add_inv [OF inv, of "int (length val)" val prio] by auto
  moreover have "queue_iter_next s \<noteq> None" "queue_iter_remove s \<noteq> None" "queue_iter_inc_backoff s \<noteq> None"
    if "ph = Walking"
    using iter_next_inv iter_remove_inv iter_backoff_inv inv that by blast+
  ultimately show ?thesis using queue_inv_is [OF inv] by auto
qed

theorem queue_never_dangles_witness:
  "queue_iter_next (queue_iter_start (queue_init 10 pqueue_static)) \<noteq> None"
proof -
  have "queue_step\<^sup>*\<^sup>* (Idle, queue_init 10 pqueue_static)
      (Walking, queue_iter_start (queue_init 10 pqueue_static))"
    by (rule r_into_rtranclp, rule queue_step.start)
  from queue_never_dangles [OF this] show ?thesis by simp
qed

text \<open>
  \<open>queue_iter_remove\<close> does not give back the bytes of the element it removes: a queue that
  was filled to its limit and then emptied by an iteration is empty, still reports all its bytes
  as used, and refuses every further element.
\<close>

theorem removed_bytes_are_lost:
  "case queue_add val (int (length val)) prio (queue_init (int (length val)) pqueue_static) of
     Some (True, s) \<Rightarrow>
       (case queue_iter_next (queue_iter_start s) of
          Some (Some e, s') \<Rightarrow> el_data e = val \<and>
            (case queue_iter_remove s' of
               Some s'' \<Rightarrow> head s'' = None \<and> queue_max_priority s'' = Some 0 \<and>
                 queue_total_bytes s'' = int (length val) \<and>
                 (\<forall>v p. queue_add (1 # v) (int (length (1 # v))) p s'' = Some (False, s''))
             | None \<Rightarrow> False)
        | _ \<Rightarrow> False)
   | _ \<Rightarrow> False"
  by (simp add: queue_add_def make_room_def queue_init_def pqueue_static_def add_head_def
      new_element_def queue_iter_start_def queue_iter_next_def queue_iter_remove_def free_def
      queue_max_priority_def queue_total_bytes_def)

end
