(* ===== verification/PidBloom.thy ===== *)
theory PidBloom
  imports UtilBytes
begin

text \<open>
  \<open>lib/pid_bloom.c\<close>: the Bloom filters that remember packet identifiers and acknowledgements. The
  array of filters is a function of selector, filter, depth and byte; the configuration file is an
  option, \<open>None\<close> when it cannot be read or written. The assertions compare constants and bound
  the selector, which is one of the four of \<open>pid_bloom.h\<close>.
\<close>

section \<open>The code\<close>

definition pid_filter_selectors :: nat where "pid_filter_selectors = 4"
definition num_filters :: nat where "num_filters = 16"
definition filter_depth :: nat where "filter_depth = 8"
definition filter_width :: nat where "filter_width = 65536"
definition max_filter_load :: int where "max_filter_load = int filter_width div 4"

definition bloom_size :: nat where
  "bloom_size = pid_filter_selectors * num_filters * filter_depth * (filter_width div 8)"

record bloom =
  bloom_filter :: "nat \<Rightarrow> nat \<Rightarrow> nat \<Rightarrow> nat \<Rightarrow> u8"
  filter_load :: "nat \<Rightarrow> int"
  initialized :: bool
  acache :: "u8 list option"
  acache_writable :: bool

definition bits_set :: "u8 \<Rightarrow> int" where
  "bits_set byte = fold (\<lambda>k n. n + uint (drop_bit k byte AND 1)) [7, 6, 5, 4, 3, 2, 1, 0] 0"

definition depth_total :: "(nat \<Rightarrow> u8) \<Rightarrow> int" where
  "depth_total bytes = fold (\<lambda>pos n. n + bits_set (bytes pos)) [0..<filter_width div 8] 0"

definition init_filter_load :: "bloom \<Rightarrow> bloom" where
  "init_filter_load s =
     (let total = (\<lambda>sel. fold (\<lambda>dep total.
            if depth_total (bloom_filter s sel 0 dep) > total
            then depth_total (bloom_filter s sel 0 dep) else total) [0..<filter_depth] 0);
          s = s\<lparr>filter_load := (\<lambda>sel. if sel < pid_filter_selectors then total sel else filter_load s sel)\<rparr>
      in if list_ex (\<lambda>sel. total sel \<ge> max_filter_load) [0..<pid_filter_selectors]
         then s\<lparr>bloom_filter := (\<lambda>_ _ _ _. 0), filter_load := (\<lambda>_. 0)\<rparr>
         else s)"

text \<open>Where a byte of the array lies in its image in memory and in the file.\<close>

definition image_index :: "nat \<Rightarrow> nat \<Rightarrow> nat \<Rightarrow> nat \<Rightarrow> nat" where
  "image_index sel num dep pos =
     ((sel * num_filters + num) * filter_depth + dep) * (filter_width div 8) + pos"

definition bloom_init :: "bloom \<Rightarrow> bloom" where
  "bloom_init s =
     (if initialized s then s
      else
        let s = s\<lparr>bloom_filter := (\<lambda>_ _ _ _. 0), filter_load := (\<lambda>_. 0)\<rparr>;
            s = (case acache s of
                   None \<Rightarrow> s
                 | Some from_file \<Rightarrow>
                     if length from_file = bloom_size
                     then init_filter_load
                       (s\<lparr>bloom_filter := (\<lambda>sel num dep pos. from_file ! image_index sel num dep pos)\<rparr>)
                     else s\<lparr>acache := None\<rparr>)
        in s\<lparr>initialized := True\<rparr>)"

definition pid_save_bloom :: "bloom \<Rightarrow> bloom" where
  "pid_save_bloom s =
     (if \<not> initialized s \<or> \<not> acache_writable s then s
      else s\<lparr>acache := Some (map (\<lambda>i.
        bloom_filter s (i div (num_filters * filter_depth * (filter_width div 8)))
          (i div (filter_depth * (filter_width div 8)) mod num_filters)
          (i div (filter_width div 8) mod filter_depth) (i mod (filter_width div 8)))
        [0..<bloom_size])\<rparr>)"

definition pid_advance_bloom :: "bloom \<Rightarrow> bloom" where
  "pid_advance_bloom s =
     (if \<not> initialized s then s
      else s\<lparr>bloom_filter := (\<lambda>sel num.
               if sel < pid_filter_selectors \<and> num < num_filters
               then (if num = 0 then (\<lambda>_ _. 0) else bloom_filter s sel (num - 1))
               else bloom_filter s sel num),
             filter_load := (\<lambda>sel. if sel < pid_filter_selectors then 0 else filter_load s sel)\<rparr>)"

definition byte_index :: "u8 list \<Rightarrow> nat \<Rightarrow> nat" where
  "byte_index pid dep = unat ((ucast (readb16 (Some (drop (dep * 2) pid))) :: u16) div 8)"

definition bit_offset :: "u8 list \<Rightarrow> nat \<Rightarrow> nat" where
  "bit_offset pid dep = unat ((ucast (readb16 (Some (drop (dep * 2) pid))) :: u16) mod 8)"

definition set_depth :: "u8 list \<Rightarrow> nat \<Rightarrow> nat \<Rightarrow> bloom \<times> bool \<Rightarrow> bloom \<times> bool" where
  "set_depth pid sel dep st =
     (case st of (s, increment) \<Rightarrow>
        let index = byte_index pid dep;
            old_value = bloom_filter s sel 0 dep index;
            new_value = old_value OR push_bit (bit_offset pid dep) 1
        in (s\<lparr>bloom_filter := (\<lambda>a b c d. if a = sel \<and> b = 0 \<and> c = dep \<and> d = index then new_value
                                         else bloom_filter s a b c d)\<rparr>,
            increment \<or> old_value \<noteq> new_value))"

definition pid_add_to_bloom :: "u8 list \<Rightarrow> nat \<Rightarrow> bloom \<Rightarrow> bloom" where
  "pid_add_to_bloom pid sel s =
     (let (s, increment_filter_load) = fold (set_depth pid sel) [0..<filter_depth] (bloom_init s, False)
      in if increment_filter_load then
           let s = s\<lparr>filter_load := (filter_load s)(sel := filter_load s sel + 1)\<rparr>
           in if filter_load s sel > max_filter_load
              then pid_save_bloom (pid_advance_bloom s) else s
         else s)"

definition is_in_all :: "bloom \<Rightarrow> u8 list \<Rightarrow> nat \<Rightarrow> nat \<Rightarrow> bool" where
  "is_in_all s pid sel num =
     list_all (\<lambda>dep. bloom_filter s sel num dep (byte_index pid dep) AND push_bit (bit_offset pid dep) 1 \<noteq> 0)
       [0..<filter_depth]"

fun search_filters :: "u8 list \<Rightarrow> nat \<Rightarrow> nat list \<Rightarrow> bloom \<Rightarrow> bool \<times> bloom" where
  "search_filters pid sel [] s = (False, s)"
| "search_filters pid sel (num # nums) s =
     (if is_in_all s pid sel num
      then (True, if num > 0 then pid_add_to_bloom pid sel s else s)
      else search_filters pid sel nums s)"

definition pid_is_in_bloom :: "u8 list \<Rightarrow> nat \<Rightarrow> bloom \<Rightarrow> bool \<times> bloom" where
  "pid_is_in_bloom pid sel s = search_filters pid sel [0..<num_filters] (bloom_init s)"

section \<open>Membership\<close>

definition in_filter :: "bloom \<Rightarrow> u8 list \<Rightarrow> nat \<Rightarrow> nat \<Rightarrow> bool" where
  "in_filter s pid sel num \<longleftrightarrow>
     (\<forall>dep < filter_depth. bit (bloom_filter s sel num dep (byte_index pid dep)) (bit_offset pid dep))"

lemma is_in_all_iff: "is_in_all s pid sel num \<longleftrightarrow> in_filter s pid sel num"
  by (auto simp: is_in_all_def in_filter_def list_all_iff bit_iff_and_push_bit_not_eq_0)

lemma bloom_init_initialized [simp]: "initialized (bloom_init s)"
  by (simp add: bloom_init_def Let_def)

lemma bloom_init_id [simp]: "initialized s \<Longrightarrow> bloom_init s = s"
  by (simp add: bloom_init_def)

text \<open>What the loop over the depths does to the array and to its flag.\<close>

definition with_bit :: "u8 \<Rightarrow> nat \<Rightarrow> u8" where
  "with_bit byte k = byte OR push_bit k 1"

definition add_bits :: "u8 list \<Rightarrow> nat \<Rightarrow> nat set \<Rightarrow> bloom \<Rightarrow> bloom" where
  "add_bits pid sel deps s = s\<lparr>bloom_filter := (\<lambda>a b c d.
     if a = sel \<and> b = 0 \<and> c \<in> deps \<and> d = byte_index pid c
     then with_bit (bloom_filter s a b c d) (bit_offset pid c) else bloom_filter s a b c d)\<rparr>"

definition new_bits :: "u8 list \<Rightarrow> nat \<Rightarrow> nat set \<Rightarrow> bloom \<Rightarrow> bool" where
  "new_bits pid sel deps s \<longleftrightarrow> (\<exists>c \<in> deps.
     bloom_filter s sel 0 c (byte_index pid c) \<noteq>
     with_bit (bloom_filter s sel 0 c (byte_index pid c)) (bit_offset pid c))"

lemma fold_set_depth:
  "distinct ds \<Longrightarrow> fold (set_depth pid sel) ds (s, i) =
     (add_bits pid sel (set ds) s, i \<or> new_bits pid sel (set ds) s)"
proof (induction ds arbitrary: s i)
  case Nil
  then show ?case by (simp add: add_bits_def new_bits_def)
next
  case (Cons d ds)
  have step: "set_depth pid sel d (s, i) = (add_bits pid sel {d} s, i \<or> new_bits pid sel {d} s)"
    by (auto simp: set_depth_def add_bits_def new_bits_def with_bit_def Let_def fun_eq_iff)
  have "add_bits pid sel (set ds) (add_bits pid sel {d} s) = add_bits pid sel (set (d # ds)) s"
    using Cons.prems by (auto simp: add_bits_def fun_eq_iff)
  moreover have "new_bits pid sel (set ds) (add_bits pid sel {d} s) = new_bits pid sel (set ds) s"
    using Cons.prems by (auto simp: new_bits_def add_bits_def)
  ultimately show ?case using Cons by (auto simp: step new_bits_def)
qed

abbreviation all_depths :: "nat set" where
  "all_depths \<equiv> {..<filter_depth}"

definition add_advances :: "u8 list \<Rightarrow> nat \<Rightarrow> bloom \<Rightarrow> bool" where
  "add_advances pid sel s \<longleftrightarrow>
     new_bits pid sel all_depths s \<and> filter_load s sel + 1 > max_filter_load"

lemma pid_add_run:
  assumes "initialized s"
  shows "pid_add_to_bloom pid sel s =
    (let t = add_bits pid sel all_depths s;
         t = (if new_bits pid sel all_depths s
              then t\<lparr>filter_load := (filter_load t)(sel := filter_load t sel + 1)\<rparr> else t)
     in if add_advances pid sel s then pid_save_bloom (pid_advance_bloom t) else t)"
proof -
  have "set [0..<filter_depth] = all_depths" by auto
  with assms show ?thesis
    by (simp add: pid_add_to_bloom_def fold_set_depth add_advances_def add_bits_def Let_def)
qed

lemma save_fields [simp]:
  "bloom_filter (pid_save_bloom s) = bloom_filter s" "filter_load (pid_save_bloom s) = filter_load s"
  "initialized (pid_save_bloom s) = initialized s"
  by (simp_all add: pid_save_bloom_def)

lemma add_bits_fields [simp]:
  "filter_load (add_bits pid sel ds s) = filter_load s" "initialized (add_bits pid sel ds s) = initialized s"
  by (simp_all add: add_bits_def)

lemma advance_initialized [simp]: "initialized (pid_advance_bloom s) = initialized s"
  by (simp add: pid_advance_bloom_def)

lemma add_initialized [simp]: "initialized s \<Longrightarrow> initialized (pid_add_to_bloom pid sel s)"
  by (simp add: pid_add_run Let_def)

lemma bit_with_bit: "k < 8 \<Longrightarrow> bit (with_bit b k) j \<longleftrightarrow> bit b j \<or> j = k"
  by (auto simp: with_bit_def bit_or_iff bit_exp_iff)

lemma bit_offset_less: "bit_offset pid dep < 8"
proof -
  have "unat (x mod 8 :: u16) < 8" for x by (simp add: unat_mod)
  then show ?thesis by (simp add: bit_offset_def)
qed

lemma byte_index_less: "byte_index pid dep < filter_width div 8"
proof -
  have "unat (x div 8 :: u16) < 8192" for x
  proof -
    have "unat x < 2 ^ LENGTH(16)" by (rule unsigned_less)
    then have "unat x div 8 < 8192" by (simp add: less_mult_imp_div_less)
    then show ?thesis by (simp add: unat_div)
  qed
  then show ?thesis by (simp add: byte_index_def filter_width_def)
qed

lemma in_filter_advance:
  "initialized s \<Longrightarrow> sel < pid_filter_selectors \<Longrightarrow> num + 1 < num_filters \<Longrightarrow>
     in_filter s pid sel num \<Longrightarrow> in_filter (pid_advance_bloom s) pid sel (num + 1)"
  by (simp add: in_filter_def pid_advance_bloom_def)

lemma in_filter_bits: "in_filter s pid sel num \<Longrightarrow> in_filter (add_bits pid' sel' ds s) pid sel num"
  by (auto simp: in_filter_def add_bits_def bit_with_bit bit_offset_less)

lemma in_filter_added: "in_filter (add_bits pid sel all_depths s) pid sel 0"
  by (auto simp: in_filter_def add_bits_def bit_with_bit bit_offset_less)

lemma in_filter_frame [simp]:
  "in_filter (s\<lparr>filter_load := f\<rparr>) pid sel num = in_filter s pid sel num"
  "in_filter (pid_save_bloom s) pid sel num = in_filter s pid sel num"
  by (simp_all add: in_filter_def)

lemma in_filter_add:
  assumes "initialized s" and "sel < pid_filter_selectors" and "in_filter (add_bits pid' sel' all_depths s) pid sel num"
    and "num + of_bool (add_advances pid' sel' s) < num_filters"
  shows "in_filter (pid_add_to_bloom pid' sel' s) pid sel (num + of_bool (add_advances pid' sel' s))"
  using assms by (auto simp: pid_add_run Let_def intro!: in_filter_advance [simplified])

section \<open>Runs\<close>

text \<open>A run of the three operations, with the number of times a filter was retired.\<close>

inductive bloom_run :: "nat \<Rightarrow> bloom \<Rightarrow> bloom \<Rightarrow> bool" where
  stop: "bloom_run 0 s s"
| advance: "bloom_run k s t \<Longrightarrow> bloom_run (k + of_bool (initialized t)) s (pid_advance_bloom t)"
| add: "bloom_run k s t \<Longrightarrow> sel < pid_filter_selectors \<Longrightarrow>
    bloom_run (k + of_bool (add_advances pid sel (bloom_init t))) s (pid_add_to_bloom pid sel t)"
| lookup: "bloom_run k s t \<Longrightarrow> sel < pid_filter_selectors \<Longrightarrow>
    pid_is_in_bloom pid sel t = (found, bloom_init t) \<Longrightarrow> bloom_run k s (bloom_init t)"
| lookup_add: "bloom_run k s t \<Longrightarrow> sel < pid_filter_selectors \<Longrightarrow>
    pid_is_in_bloom pid sel t = (True, pid_add_to_bloom pid sel (bloom_init t)) \<Longrightarrow>
    bloom_run (k + of_bool (add_advances pid sel (bloom_init t))) s (pid_add_to_bloom pid sel (bloom_init t))"

lemma search_filters_cases:
  "search_filters pid sel nums s = (False, s) \<and> (\<forall>n \<in> set nums. \<not> in_filter s pid sel n) \<or>
   search_filters pid sel nums s = (True, s) \<and> in_filter s pid sel 0 \<or>
   search_filters pid sel nums s = (True, pid_add_to_bloom pid sel s) \<and> (\<exists>n \<in> set nums. in_filter s pid sel n)"
  by (induction nums) (auto simp: is_in_all_iff)

text \<open>The two lookup rules cover every lookup.\<close>

lemma lookup_cases:
  "pid_is_in_bloom pid sel t = (fst (pid_is_in_bloom pid sel t), bloom_init t) \<or>
   pid_is_in_bloom pid sel t = (True, pid_add_to_bloom pid sel (bloom_init t))"
  using search_filters_cases [of pid sel "[0..<num_filters]" "bloom_init t"]
  by (auto simp: pid_is_in_bloom_def)

lemma found_iff:
  "fst (pid_is_in_bloom pid sel t) \<longleftrightarrow> (\<exists>num < num_filters. in_filter (bloom_init t) pid sel num)"
  using search_filters_cases [of pid sel "[0..<num_filters]" "bloom_init t"]
  by (auto simp: pid_is_in_bloom_def num_filters_def intro: exI [of _ 0])

lemma pid_add_init [simp]: "pid_add_to_bloom pid sel (bloom_init s) = pid_add_to_bloom pid sel s"
  by (simp add: pid_add_to_bloom_def)

lemma run_keeps:
  assumes "bloom_run k s t" and "initialized s" and "sel < pid_filter_selectors"
    and "in_filter s pid sel num" and "num + k < num_filters"
  shows "initialized t \<and> (\<exists>n. n \<le> num + k \<and> in_filter t pid sel n)"
  using assms
proof (induction rule: bloom_run.induct)
  case (advance k s t)
  then obtain n where n: "initialized t" "n \<le> num + k" "in_filter t pid sel n" by auto
  then have "in_filter (pid_advance_bloom t) pid sel (n + 1)"
    using advance.prems by (intro in_filter_advance) auto
  then show ?case using n by (intro conjI exI [of _ "n + 1"]) auto
next
  case (add k s t sel' pid')
  then obtain n where n: "initialized t" "n \<le> num + k" "in_filter t pid sel n" by auto
  then have "in_filter (pid_add_to_bloom pid' sel' t) pid sel (n + of_bool (add_advances pid' sel' t))"
    using add.prems by (intro in_filter_add in_filter_bits) auto
  then show ?case using n by (intro conjI exI [of _ "n + of_bool (add_advances pid' sel' t)"]) auto
next
  case (lookup_add k s t sel' pid')
  then obtain n where n: "initialized t" "n \<le> num + k" "in_filter t pid sel n" by auto
  then have "in_filter (pid_add_to_bloom pid' sel' t) pid sel (n + of_bool (add_advances pid' sel' t))"
    using lookup_add.prems by (intro in_filter_add in_filter_bits) auto
  then show ?case using n by (intro conjI exI [of _ "n + of_bool (add_advances pid' sel' t)"]) auto
qed auto

section \<open>The load of a filter\<close>

text \<open>The bits set at one depth of the newest filter of a selector.\<close>

definition positions :: "(nat \<Rightarrow> u8) \<Rightarrow> (nat \<times> nat) set" where
  "positions bytes = (SIGMA pos:{..<filter_width div 8}. {k \<in> {..<8}. bit (bytes pos) k})"

lemma finite_positions [simp]: "finite (positions bytes)"
  by (simp add: positions_def)

lemma bits_set_card: "bits_set byte = int (card {k \<in> {..<8}. bit byte k})"
proof -
  have bit: "uint (drop_bit k byte AND 1) = of_bool (bit byte k)" for k
    by (simp add: and_one_eq bit_iff_odd_drop_bit mod_2_eq_odd)
  have "(\<Sum>k < (8 :: nat). of_bool (bit byte k)) = int (card ({..<8} \<inter> {k. bit byte k}))"
    by simp
  moreover have "{..<8} \<inter> {k. bit byte k} = {k \<in> {..<8}. bit byte k}" by auto
  moreover have "bits_set byte = (\<Sum>k < (8 :: nat). of_bool (bit byte k))"
    unfolding bits_set_def bit by (simp add: eval_nat_numeral)
  ultimately show ?thesis by simp
qed

lemma depth_total_card: "depth_total bytes = int (card (positions bytes))"
proof -
  have "fold (\<lambda>pos n. n + bits_set (bytes pos)) ps 0 = (\<Sum>pos \<leftarrow> ps. bits_set (bytes pos))" for ps
  proof (induction ps rule: rev_induct)
    case (snoc p ps)
    then show ?case by simp
  qed simp
  then have "depth_total bytes = (\<Sum>pos < filter_width div 8. bits_set (bytes pos))"
    by (simp add: depth_total_def interv_sum_list_conv_sum_set_nat atLeast0LessThan)
  then show ?thesis by (simp add: positions_def bits_set_card card_SigmaI)
qed

definition load_ok :: "bloom \<Rightarrow> bool" where
  "load_ok s \<longleftrightarrow> (\<forall>sel < pid_filter_selectors. filter_load s sel \<le> max_filter_load \<and>
     (\<forall>dep < filter_depth. int (card (positions (bloom_filter s sel 0 dep))) \<le> filter_load s sel))"

lemma max_filter_load_pos: "0 < max_filter_load"
  by (simp add: max_filter_load_def filter_width_def)

lemma positions_0 [simp]: "positions (\<lambda>_. 0) = {}"
  by (simp add: positions_def)

lemma load_ok_zero [simp]: "load_ok (s\<lparr>bloom_filter := (\<lambda>_ _ _ _. 0), filter_load := (\<lambda>_. 0)\<rparr>)"
  using max_filter_load_pos by (simp add: load_ok_def)

lemma load_ok_initialized [simp]: "load_ok (s\<lparr>initialized := b\<rparr>) = load_ok s"
  "load_ok (s\<lparr>acache := c\<rparr>) = load_ok s"
  by (simp_all add: load_ok_def)

lemma fold_max:
  "x \<le> fold (\<lambda>d m. if f d > m then f d else m) ds x \<and>
   (\<forall>d \<in> set ds. f d \<le> fold (\<lambda>d m. if f d > m then f d else m) ds x)" for f :: "nat \<Rightarrow> int"
proof (induction ds arbitrary: x)
  case (Cons d ds)
  from Cons [of "if f d > x then f d else x"] show ?case by (auto split: if_splits)
qed simp

lemma init_filter_load_ok: "load_ok (init_filter_load s)"
proof -
  define total where "total = (\<lambda>sel. fold (\<lambda>dep total.
      if depth_total (bloom_filter s sel 0 dep) > total
      then depth_total (bloom_filter s sel 0 dep) else total) [0..<filter_depth] 0)"
  show ?thesis
  proof (cases "list_ex (\<lambda>sel. total sel \<ge> max_filter_load) [0..<pid_filter_selectors]")
    case True
    then show ?thesis using max_filter_load_pos
      by (simp add: init_filter_load_def Let_def load_ok_def flip: total_def)
  next
    case False
    then have "total sel < max_filter_load" if "sel < pid_filter_selectors" for sel
      using that by (auto simp: list_ex_iff not_le)
    moreover have "depth_total (bloom_filter s sel 0 dep) \<le> total sel" if "dep < filter_depth" for sel dep
      unfolding total_def using fold_max [where f = "\<lambda>dep. depth_total (bloom_filter s sel 0 dep)"] that by simp
    ultimately show ?thesis using False
      by (auto simp: init_filter_load_def Let_def load_ok_def less_imp_le simp flip: total_def depth_total_card)
  qed
qed

lemma fold_max_less:
  "\<forall>d \<in> set ds. f d < b \<Longrightarrow> x < b \<Longrightarrow> fold (\<lambda>d m. if f d > m then f d else m) ds x < b"
  for f :: "nat \<Rightarrow> int"
  by (induction ds arbitrary: x) auto

lemma init_filter_load_keeps:
  assumes "\<forall>sel < pid_filter_selectors. \<forall>dep < filter_depth. depth_total (bloom_filter s sel 0 dep) < max_filter_load"
  shows "bloom_filter (init_filter_load s) = bloom_filter s"
proof -
  have "fold (\<lambda>dep total. if depth_total (bloom_filter s sel 0 dep) > total
      then depth_total (bloom_filter s sel 0 dep) else total) [0..<filter_depth] 0 < max_filter_load"
    if "sel < pid_filter_selectors" for sel
    using assms that max_filter_load_pos
    by (intro fold_max_less [where f = "\<lambda>dep. depth_total (bloom_filter s sel 0 dep)"]) auto
  then have "\<not> list_ex (\<lambda>sel. fold (\<lambda>dep total. if depth_total (bloom_filter s sel 0 dep) > total
      then depth_total (bloom_filter s sel 0 dep) else total) [0..<filter_depth] 0 \<ge> max_filter_load)
    [0..<pid_filter_selectors]"
    by (auto simp: list_ex_iff not_le)
  then show ?thesis unfolding init_filter_load_def Let_def by simp
qed

lemma bloom_init_ok: "\<not> initialized s \<Longrightarrow> load_ok (bloom_init s)"
  by (simp add: bloom_init_def Let_def init_filter_load_ok split: option.split)

lemma advance_ok: "load_ok s \<Longrightarrow> load_ok (pid_advance_bloom s)"
  using max_filter_load_pos by (simp add: load_ok_def pid_advance_bloom_def num_filters_def)

lemma save_ok [simp]: "load_ok (pid_save_bloom s) = load_ok s"
  by (simp add: load_ok_def)

lemma positions_add_bits:
  "positions (bloom_filter (add_bits pid sel all_depths s) sel' 0 dep) =
    (if sel' = sel \<and> dep < filter_depth
     then insert (byte_index pid dep, bit_offset pid dep) (positions (bloom_filter s sel' 0 dep))
     else positions (bloom_filter s sel' 0 dep))"
  using byte_index_less bit_offset_less
  by (auto simp: positions_def add_bits_def bit_with_bit split: if_splits)

lemma no_new_bits: "\<not> new_bits pid sel all_depths s \<Longrightarrow> add_bits pid sel all_depths s = s"
  by (rule bloom.equality) (auto simp: add_bits_def new_bits_def fun_eq_iff)

lemma card_add_bits:
  "card (positions (bloom_filter (add_bits pid sel all_depths s) sel' 0 dep)) \<le>
     card (positions (bloom_filter s sel' 0 dep)) + of_bool (sel' = sel)"
  by (simp add: positions_add_bits card_insert_if)

lemma add_ok:
  assumes "initialized s" and ok: "load_ok s"
  shows "load_ok (pid_add_to_bloom pid sel s)"
proof (cases "new_bits pid sel all_depths s")
  case False
  then have "pid_add_to_bloom pid sel s = s"
    using assms(1) by (simp add: pid_add_run no_new_bits add_advances_def)
  then show ?thesis using ok by simp
next
  case True
  let ?t = "(add_bits pid sel all_depths s)
    \<lparr>filter_load := (filter_load s)(sel := filter_load s sel + 1)\<rparr>"
  have run: "pid_add_to_bloom pid sel s =
      (if add_advances pid sel s then pid_save_bloom (pid_advance_bloom ?t) else ?t)"
    using assms(1) True by (simp add: pid_add_run Let_def)
  have card: "int (card (positions (bloom_filter ?t sel' 0 dep))) \<le> filter_load ?t sel'"
    if "sel' < pid_filter_selectors" "dep < filter_depth" for sel' dep
    using card_add_bits [of pid sel s sel' dep] ok that by (fastforce simp: load_ok_def)
  show ?thesis
  proof (cases "add_advances pid sel s")
    case True
    have "load_ok (pid_advance_bloom ?t)"
      using assms(1) max_filter_load_pos by (simp add: load_ok_def pid_advance_bloom_def num_filters_def)
    with True show ?thesis by (simp add: run)
  next
    case False
    then have "filter_load ?t sel' \<le> max_filter_load" if "sel' < pid_filter_selectors" for sel'
      using ok that True by (auto simp: load_ok_def add_advances_def)
    with card False show ?thesis by (simp add: run load_ok_def)
  qed
qed

lemma run_ok:
  "bloom_run k s t \<Longrightarrow> \<not> initialized s \<Longrightarrow> initialized t \<longrightarrow> load_ok t"
proof (induction rule: bloom_run.induct)
  case (advance k s t)
  then show ?case using advance_ok by auto
next
  case (add k s t sel pid)
  then have "load_ok (bloom_init t)" using bloom_init_ok by (cases "initialized t") auto
  from add_ok [OF _ this] show ?case by simp
next
  case (lookup k s t sel pid found)
  then show ?case using bloom_init_ok by (cases "initialized t") auto
next
  case (lookup_add k s t sel pid)
  then have "load_ok (bloom_init t)" using bloom_init_ok by (cases "initialized t") auto
  from add_ok [OF _ this] show ?case by simp
qed simp

section \<open>The saved image\<close>

lemma image_index_parts:
  assumes "num < num_filters" and "dep < filter_depth" and "pos < filter_width div 8"
  shows "image_index sel num dep pos div (num_filters * filter_depth * (filter_width div 8)) = sel"
    and "image_index sel num dep pos div (filter_depth * (filter_width div 8)) mod num_filters = num"
    and "image_index sel num dep pos div (filter_width div 8) mod filter_depth = dep"
    and "image_index sel num dep pos mod (filter_width div 8) = pos"
proof -
  let ?w = "filter_width div 8"
  have w: "0 < ?w" "0 < filter_depth" "0 < num_filters"
    by (simp_all add: filter_width_def filter_depth_def num_filters_def)
  have d1: "image_index sel num dep pos div ?w = (sel * num_filters + num) * filter_depth + dep"
    using assms(3) w(1) by (simp add: image_index_def)
  have d2: "image_index sel num dep pos div (filter_depth * ?w) = sel * num_filters + num"
    using d1 assms(2) w by (simp add: mult.commute [of filter_depth] flip: div_mult2_eq)
      (simp add: div_mult2_eq)
  have d3: "image_index sel num dep pos div (num_filters * filter_depth * ?w) =
      image_index sel num dep pos div (filter_depth * ?w) div num_filters"
    by (simp add: ac_simps flip: div_mult2_eq)
  show "image_index sel num dep pos div (num_filters * filter_depth * ?w) = sel"
    unfolding d3 d2 using assms(1) by simp
  show "image_index sel num dep pos div (filter_depth * ?w) mod num_filters = num"
    unfolding d2 using assms(1) by simp
  show "image_index sel num dep pos div ?w mod filter_depth = dep" unfolding d1 using assms(2) by simp
  show "image_index sel num dep pos mod ?w = pos" using assms(3) by (simp add: image_index_def)
qed

lemma image_index_less:
  assumes "sel < pid_filter_selectors" "num < num_filters" "dep < filter_depth" "pos < filter_width div 8"
  shows "image_index sel num dep pos < bloom_size"
proof -
  have step: "a * n + b < m * n" if "a < m" "b < n" for a b m n :: nat
  proof -
    have "a * n + b < Suc a * n" using that(2) by simp
    also have "\<dots> \<le> m * n" using that(1) by (intro mult_le_mono1) simp
    finally show ?thesis .
  qed
  show ?thesis unfolding image_index_def bloom_size_def using assms by (intro step)
qed

section \<open>Properties\<close>

text \<open>
  C23: an identifier that has been added is found by every later lookup, whatever was added and looked
  up in between, until fifteen filters have been retired: there are no false negatives in the window.
\<close>

theorem recent_ids_are_found:
  assumes "sel < pid_filter_selectors" and "bloom_run k (pid_add_to_bloom pid sel s) t" and "k \<le> 14"
  shows "fst (pid_is_in_bloom pid sel t)"
proof -
  let ?s = "bloom_init s" and ?a = "of_bool (add_advances pid sel (bloom_init s)) :: nat"
  have "in_filter (pid_add_to_bloom pid sel ?s) pid sel (0 + ?a)"
    by (rule in_filter_add [OF _ assms(1) in_filter_added]) (simp_all add: num_filters_def)
  then have start: "in_filter (pid_add_to_bloom pid sel s) pid sel ?a" by simp
  have "?a + k < num_filters" using assms(3) by (simp add: num_filters_def)
  moreover have "initialized (pid_add_to_bloom pid sel s)" using add_initialized [of ?s] by simp
  ultimately obtain n where "initialized t" "n \<le> ?a + k" "in_filter t pid sel n"
    using run_keeps [OF assms(2) _ assms(1) start] by blast
  with \<open>?a + k < num_filters\<close> show ?thesis by (auto simp: found_iff intro!: exI [of _ n])
qed

theorem recent_ids_are_found_witness:
  "fst (pid_is_in_bloom (replicate 16 7) 2 (pid_advance_bloom (pid_add_to_bloom (replicate 16 7) 2
     \<lparr>bloom_filter = (\<lambda>_ _ _ _. 9), filter_load = (\<lambda>_. 5), initialized = False,
      acache = None, acache_writable = True\<rparr>)))"
proof -
  let ?s = "pid_add_to_bloom (replicate 16 7) 2
    \<lparr>bloom_filter = (\<lambda>_ _ _ _. 9), filter_load = (\<lambda>_. 5), initialized = False,
      acache = None, acache_writable = True\<rparr>"
  have "bloom_run (0 + of_bool (initialized ?s)) ?s (pid_advance_bloom ?s)"
    by (intro bloom_run.advance bloom_run.stop)
  from recent_ids_are_found [OF _ this] show ?thesis by (simp add: pid_filter_selectors_def)
qed

text \<open>
  C24: from the start of the program, whatever the file of saved filters holds, \<open>filter_load\<close> never
  understates the number of bits set at any depth of the newest filter, and never exceeds a quarter
  of its width: a filter is retired before it is fuller than that.
\<close>

theorem filter_load_overestimates:
  assumes "\<not> initialized s" and "bloom_run k s t" and "initialized t"
    and "sel < pid_filter_selectors" and "dep < filter_depth"
  shows "depth_total (bloom_filter t sel 0 dep) \<le> filter_load t sel \<and>
    4 * filter_load t sel \<le> int filter_width"
  using run_ok [OF assms(2,1)] assms(3-5)
  by (auto simp: load_ok_def depth_total_card max_filter_load_def)

theorem filter_load_overestimates_witness:
  "depth_total (bloom_filter (pid_add_to_bloom (replicate 16 7) 1
     \<lparr>bloom_filter = (\<lambda>_ _ _ _. 9), filter_load = (\<lambda>_. 5), initialized = False, acache = None,
      acache_writable = True\<rparr>) 1 0 0) \<le> 16384"
proof -
  let ?s = "\<lparr>bloom_filter = (\<lambda>_ _ _ _. 9), filter_load = (\<lambda>_. 5), initialized = False, acache = None,
    acache_writable = True\<rparr>"
  have "bloom_run (0 + of_bool (add_advances (replicate 16 7) 1 (bloom_init ?s))) ?s
      (pid_add_to_bloom (replicate 16 7) 1 ?s)"
    by (intro bloom_run.add bloom_run.stop) (simp add: pid_filter_selectors_def)
  moreover have "initialized (pid_add_to_bloom (replicate 16 7) 1 ?s)"
    using add_initialized [of "bloom_init ?s"] by simp
  ultimately show ?thesis
    using filter_load_overestimates [of ?s _ "pid_add_to_bloom (replicate 16 7) 1 ?s" 1 0]
    by (fastforce simp: pid_filter_selectors_def filter_depth_def filter_width_def)
qed

text \<open>
  C25: a program that is started again reads back exactly the filters that were saved when none of
  the newest ones is fuller than its limit, and then its loads are exact.
\<close>

theorem save_and_restart:
  assumes "initialized s" and "acache_writable s"
    and "\<forall>sel < pid_filter_selectors. \<forall>dep < filter_depth. depth_total (bloom_filter s sel 0 dep) < max_filter_load"
    and "sel < pid_filter_selectors" and "num < num_filters" and "dep < filter_depth"
    and "pos < filter_width div 8"
  shows "bloom_filter (bloom_init ((pid_save_bloom s)\<lparr>initialized := False\<rparr>)) sel num dep pos =
    bloom_filter s sel num dep pos"
proof -
  define saved where "saved = the (acache (pid_save_bloom s))"
  have saved: "acache (pid_save_bloom s) = Some saved" "length saved = bloom_size"
    using assms(1,2) by (auto simp: saved_def pid_save_bloom_def)
  have image: "saved ! image_index sel num dep pos = bloom_filter s sel num dep pos"
    if "sel < pid_filter_selectors" "num < num_filters" "dep < filter_depth" "pos < filter_width div 8"
    for sel num dep pos
    using assms(1,2) that by (simp add: saved_def pid_save_bloom_def image_index_parts image_index_less)
  let ?bytes = "\<lambda>sel num dep pos. saved ! image_index sel num dep pos"
  have "positions (?bytes sel 0 dep) = positions (bloom_filter s sel 0 dep)"
    if "sel < pid_filter_selectors" "dep < filter_depth" for sel dep
    using image [of sel 0 dep] that by (auto simp: positions_def num_filters_def)
  then have "depth_total (?bytes sel 0 dep) < max_filter_load"
    if "sel < pid_filter_selectors" "dep < filter_depth" for sel dep
    using assms(3) that by (simp add: depth_total_card)
  then have "bloom_filter (init_filter_load (u\<lparr>bloom_filter := ?bytes\<rparr>)) = ?bytes" for u :: bloom
    by (subst init_filter_load_keeps) simp_all
  then have "bloom_filter (bloom_init ((pid_save_bloom s)\<lparr>initialized := False\<rparr>)) = ?bytes"
    unfolding bloom_init_def Let_def using saved by simp
  then show ?thesis using image assms(4-7) by simp
qed

theorem save_and_restart_witness:
  "bloom_filter (bloom_init ((pid_save_bloom \<lparr>bloom_filter = (\<lambda>_ num _ _. if num = 3 then 9 else 0),
     filter_load = (\<lambda>_. 5), initialized = True, acache = None, acache_writable = True\<rparr>)
     \<lparr>initialized := False\<rparr>)) 2 3 7 8191 = 9"
proof -
  let ?s = "\<lparr>bloom_filter = (\<lambda>_ num _ _. if num = 3 then 9 else 0), filter_load = (\<lambda>_. 5),
    initialized = True, acache = None, acache_writable = True\<rparr> :: bloom"
  have "depth_total (\<lambda>_. 0) < max_filter_load" using max_filter_load_pos by (simp add: depth_total_card)
  then have "bloom_filter (bloom_init ((pid_save_bloom ?s)\<lparr>initialized := False\<rparr>)) 2 3 7 8191 =
      bloom_filter ?s 2 3 7 8191"
    by (intro save_and_restart)
      (simp_all add: pid_filter_selectors_def num_filters_def filter_depth_def filter_width_def)
  then show ?thesis by simp
qed

end
