(* ===== verification/PacketHeader.thy ===== *)
theory PacketHeader
  imports UtilBytes ShaHash
begin

text \<open>
  The packets of \<open>lib/packet.h\<close> and the functions of \<open>lib/util.c\<close> that build, check and authenticate
  them. A packet is the list of its bytes; a pointer into it is an offset, \<open>None\<close> for \<open>NULL\<close>; and a
  byte read outside it makes the result \<open>None\<close>. The clock is an argument.
\<close>

section \<open>The layout of the header\<close>

definition allnet_header_size :: nat where "allnet_header_size = 8 + 8 + 8"
definition stream_id_size :: nat where "stream_id_size = 4"
definition message_id_size :: nat where "message_id_size = 16"
definition sequence_size :: nat where "sequence_size = 16"
definition large_header_size :: nat where "large_header_size = message_id_size + 2 * sequence_size"
definition allnet_time_size :: nat where "allnet_time_size = 8"
definition address_bits :: nat where "address_bits = 8 * 8"

definition transport_stream :: u8 where "transport_stream = 1"
definition transport_ack_req :: u8 where "transport_ack_req = 2"
definition transport_large :: u8 where "transport_large = 4"
definition transport_expiration :: u8 where "transport_expiration = 8"
definition transport_do_not_cache :: u8 where "transport_do_not_cache = 16"

definition has :: "u8 \<Rightarrow> u8 \<Rightarrow> bool" where
  "has t flag \<longleftrightarrow> t AND flag \<noteq> 0"

definition allnet_size :: "u8 \<Rightarrow> nat" where
  "allnet_size t = allnet_header_size +
     (if \<not> has t transport_ack_req then 0 else message_id_size) +
     (if \<not> has t transport_large then 0 else large_header_size) +
     (if \<not> has t transport_stream then 0 else stream_id_size) +
     (if \<not> has t transport_expiration then 0 else allnet_time_size)"

definition allnet_stream_id :: "u8 \<Rightarrow> nat \<Rightarrow> nat option" where
  "allnet_stream_id t s =
     (if s < allnet_size t \<or> \<not> has t transport_stream then None else Some allnet_header_size)"

definition allnet_after_stream_id :: "u8 \<Rightarrow> nat \<Rightarrow> nat" where
  "allnet_after_stream_id t s =
     (if s < allnet_size t then s
      else if \<not> has t transport_stream then allnet_header_size
      else allnet_header_size + stream_id_size)"

definition allnet_message_id :: "u8 \<Rightarrow> nat \<Rightarrow> nat option" where
  "allnet_message_id t s =
     (if s < allnet_size t \<or> \<not> has t transport_ack_req then None
      else Some (allnet_after_stream_id t s))"

definition allnet_after_message_id :: "u8 \<Rightarrow> nat \<Rightarrow> nat" where
  "allnet_after_message_id t s =
     (if s < allnet_size t then s
      else allnet_after_stream_id t s + (if \<not> has t transport_ack_req then 0 else message_id_size))"

definition allnet_packet_id :: "u8 \<Rightarrow> nat \<Rightarrow> nat option" where
  "allnet_packet_id t s =
     (if s < allnet_size t \<or> \<not> has t transport_ack_req \<or> \<not> has t transport_large then None
      else Some (allnet_after_stream_id t s + message_id_size))"

definition allnet_npackets :: "u8 \<Rightarrow> nat \<Rightarrow> nat option" where
  "allnet_npackets t s =
     (if s < allnet_size t \<or> \<not> has t transport_ack_req \<or> \<not> has t transport_large then None
      else Some (allnet_after_stream_id t s + message_id_size * 2))"

definition allnet_sequence :: "u8 \<Rightarrow> nat \<Rightarrow> nat option" where
  "allnet_sequence t s =
     (if s < allnet_size t \<or> \<not> has t transport_ack_req \<or> \<not> has t transport_large then None
      else Some (allnet_after_message_id t s + message_id_size + sequence_size))"

definition allnet_after_sequence :: "u8 \<Rightarrow> nat \<Rightarrow> nat" where
  "allnet_after_sequence t s =
     (if s < allnet_size t then s
      else allnet_after_message_id t s +
        (if \<not> has t transport_large then 0 else message_id_size + sequence_size * 2))"

definition allnet_expiration :: "u8 \<Rightarrow> nat \<Rightarrow> nat option" where
  "allnet_expiration t s =
     (if s < allnet_size t \<or> \<not> has t transport_expiration then None
      else Some (allnet_after_sequence t s))"

definition allnet_after_expiration :: "u8 \<Rightarrow> nat \<Rightarrow> nat" where
  "allnet_after_expiration t s =
     (if s < allnet_size t then s
      else allnet_after_sequence t s + (if \<not> has t transport_expiration then 0 else allnet_time_size))"

definition allnet_after_header :: "u8 \<Rightarrow> nat \<Rightarrow> nat" where
  "allnet_after_header t s = allnet_after_expiration t s"

definition allnet_data_start :: "u8 \<Rightarrow> nat \<Rightarrow> nat" where
  "allnet_data_start t s = allnet_after_header t s"

text \<open>The fields of the fixed part.\<close>

record allnet_header =
  version :: u8
  message_type :: u8
  hops :: u8
  max_hops :: u8
  src_nbits :: u8
  dst_nbits :: u8
  sig_algo :: u8
  transport :: u8
  source :: "u8 list"
  destination :: "u8 list"

definition header_of :: "u8 list \<Rightarrow> allnet_header" where
  "header_of p = \<lparr>version = p ! 0, message_type = p ! 1, hops = p ! 2, max_hops = p ! 3,
     src_nbits = p ! 4, dst_nbits = p ! 5, sig_algo = p ! 6, transport = p ! 7,
     source = take 8 (drop 8 p), destination = take 8 (drop 16 p)\<rparr>"

section \<open>Time and validity\<close>

definition y2k_seconds_in_unix :: int where
  "y2k_seconds_in_unix = 946684800"

definition allnet_time :: "int \<Rightarrow> u64" where
  "allnet_time now =
     (let result = of_int now
      in if result > of_int y2k_seconds_in_unix then result - of_int y2k_seconds_in_unix else 0)"

text \<open>\<open>n\<close> bytes from an offset on, when they are inside the packet.\<close>

definition slice :: "u8 list \<Rightarrow> nat \<Rightarrow> nat \<Rightarrow> u8 list option" where
  "slice p off n = (if off + n \<le> length p then Some (take n (drop off p)) else None)"

definition is_expired_message :: "int \<Rightarrow> u8 list \<Rightarrow> bool option" where
  "is_expired_message now packet =
     (if length packet < allnet_header_size then Some False
      else
        let t = transport (header_of packet)
        in if \<not> has t transport_expiration then Some False
           else if length packet < allnet_size t then Some False
           else (case allnet_expiration t (length packet) of
                   None \<Rightarrow> Some (readb64 None < allnet_time now)
                 | Some off \<Rightarrow> do {
                     bytes \<leftarrow> slice packet off 8;
                     Some (readb64 (Some bytes) < allnet_time now)
                   }))"

definition data_request_size :: nat where
  "data_request_size = 16 + allnet_time_size + 1 + 1 + 1 + 5"

definition p2 :: "u8 \<Rightarrow> nat" where
  "p2 exponent = 2 ^ unat exponent"

text \<open>The check of a data request: \<open>Inl\<close> is the reason for refusing it.\<close>

definition check_data_request :: "u8 list \<Rightarrow> (string + unit) option" where
  "check_data_request packet =
     (let size = length packet;
          rp = allnet_data_start (transport (header_of packet)) size;
          wanted = data_request_size;
          powers = rp + 16 + allnet_time_size
      in if wanted > size then Some (Inl ''data request too small'')
         else do {
           dst \<leftarrow> slice packet powers 1;
           if hd dst > 16 then Some (Inl ''data request dst > 16'')
           else do {
             src \<leftarrow> slice packet (powers + 1) 1;
             if hd src > 16 then Some (Inl ''data request src > 16'')
             else do {
               mid \<leftarrow> slice packet (powers + 2) 1;
               Some (if hd mid > 16 then Inl ''data request mid > 16''
                 else if wanted + (p2 (hd dst) + 6) div 8 + (p2 (hd src) + 6) div 8 + (p2 (hd mid) + 6) div 8 > size
                 then Inl ''data request too small''
                 else Inr ())
             }
           }
         })"

definition check_payload :: "u8 list \<Rightarrow> (string + unit)" where
  "check_payload packet =
     (let size = length packet; t = transport (header_of packet);
          payload_size = int size - int (allnet_after_header t size)
      in if message_type (header_of packet) = 2 \<and> payload_size mod 16 \<noteq> 0
         then Inl ''ack size not multiple of 16''
         else if has t transport_ack_req \<and> payload_size < 16
         then Inl ''insufficient room for message ID''
         else if \<not> has t transport_ack_req \<and> has t transport_large
         then Inl ''large message missing ack bit''
         else Inr ())"

definition check_expiration :: "int \<Rightarrow> u8 list \<Rightarrow> (string + unit) option" where
  "check_expiration now packet =
     (let t = transport (header_of packet)
      in if \<not> has t transport_expiration then Some (Inr ())
         else if now \<le> y2k_seconds_in_unix then Some (Inl ''expired packet'')
         else (case allnet_expiration t (length packet) of
                 None \<Rightarrow> Some (Inl ''expired packet'')
               | Some off \<Rightarrow> do {
                   bytes \<leftarrow> slice packet off 8;
                   Some (if sint (readb64 (Some bytes)) < now - y2k_seconds_in_unix
                         then Inl ''expired packet'' else Inr ())
                 }))"

definition check_signature :: "u8 list \<Rightarrow> (string + unit) option" where
  "check_signature packet =
     (let size = length packet; hsize = allnet_size (transport (header_of packet))
      in if sig_algo (header_of packet) = 0 then Some (Inr ())
         else if size \<le> hsize + 2 then Some (Inl ''too small for signature length'')
         else do {
           bytes \<leftarrow> slice packet (size - 2) 2;
           let len = unat (readb16 (Some bytes));
           Some (if len = 0 then Inl ''too small for signature''
                 else if size \<le> len + 2 then Inl ''too small for data''
                 else Inr ())
         })"

definition check_header :: "u8 list \<Rightarrow> (string + unit)" where
  "check_header packet =
     (let ah = header_of packet
      in if version ah \<noteq> 3 \<or> unat (src_nbits ah) > address_bits \<or> unat (dst_nbits ah) > address_bits \<or>
            hops ah > max_hops ah
         then Inl (if version ah \<noteq> 3 then ''version number''
                   else if unat (src_nbits ah) > address_bits then ''src_nbits > 64''
                   else if unat (dst_nbits ah) > address_bits then ''dst_nbits > 64''
                   else ''hops > max_hops'')
         else if message_type ah < 1 \<or> message_type ah > 7 then Inl ''bad message type''
         else if message_type ah = 2 \<and> transport ah \<noteq> 0 then Inl ''req with nonzero transport''
         else Inr ())"

text \<open>The next check only runs when this one passes.\<close>

definition and_then :: "(string + unit) option \<Rightarrow> (string + unit) option \<Rightarrow> (string + unit) option" where
  "and_then x y = (case x of Some (Inr _) \<Rightarrow> y | _ \<Rightarrow> x)"

definition is_valid_message :: "int \<Rightarrow> u8 list \<Rightarrow> (string + unit) option" where
  "is_valid_message now packet =
     (if length packet < allnet_header_size then Some (Inl ''packet size less than header size'')
      else and_then (Some (check_header packet))
        (and_then (if message_type (header_of packet) = 3 then check_data_request packet else Some (Inr ()))
          (and_then (Some (check_payload packet))
            (and_then (check_expiration now packet) (check_signature packet)))))"

section \<open>Building packets\<close>

text \<open>
  The outer \<open>None\<close> is an access outside the memory of an argument, or through \<open>NULL\<close>; the inner
  one is the \<open>NULL\<close> that \<open>init_packet\<close> returns for parameters it refuses. An address, a stream
  or an acknowledgement may be \<open>NULL\<close> too.
\<close>

definition memget :: "u8 list \<Rightarrow> int \<Rightarrow> nat \<Rightarrow> bool option" where
  "memget bytes v n =
     (if \<exists>i < length bytes. i < n \<and> bytes ! i \<noteq> of_int v then Some False
      else if n \<le> length bytes then Some True else None)"

definition copy_address :: "u8 list \<Rightarrow> nat \<Rightarrow> nat \<Rightarrow> u8 list option \<Rightarrow> u8 list option" where
  "copy_address packet off nbits addr =
     (case addr of None \<Rightarrow> Some packet | Some a \<Rightarrow>
        if 0 < nbits \<and> nbits \<le> 8 * message_id_size
        then do { bytes \<leftarrow> slice a 0 ((nbits + 7) div 8); Some (memcpy packet off bytes) }
        else Some packet)"

definition transport_for :: "u8 list option \<Rightarrow> u8 list option \<Rightarrow> u8" where
  "transport_for stream ack =
     (if stream = None then 0 else transport_stream) OR
     (if ack = None then 0 else transport_ack_req)"

definition refuses :: "nat \<Rightarrow> nat \<Rightarrow> nat \<Rightarrow> nat \<Rightarrow> nat \<Rightarrow> nat \<Rightarrow> u8 \<Rightarrow> bool" where
  "refuses psize mtype mhops salgo sbits dbits t \<longleftrightarrow>
     psize < allnet_header_size \<or> psize < allnet_size t \<or>
     mtype < 1 \<or> mtype > 7 \<or> mhops < 1 \<or> mhops > 255 \<or> salgo > 3 \<or>
     sbits > address_bits \<or> dbits > address_bits"

definition init_packet ::
  "nat \<Rightarrow> nat \<Rightarrow> nat \<Rightarrow> nat \<Rightarrow> u8 list option \<Rightarrow> nat \<Rightarrow> u8 list option \<Rightarrow> nat \<Rightarrow>
   u8 list option \<Rightarrow> u8 list option \<Rightarrow> u8 list option option" where
  "init_packet psize mtype mhops salgo src sbits dst dbits stream ack =
     (let t = transport_for stream ack
      in if refuses psize mtype mhops salgo sbits dbits t then Some None
         else do {
           let p = replicate psize 0;
           let p = memcpy p 0 [3, of_nat mtype, 0, of_nat mhops, of_nat sbits, of_nat dbits, of_nat salgo];
           p \<leftarrow> copy_address p 8 sbits src;
           p \<leftarrow> copy_address p 16 dbits dst;
           let p = p[7 := t];
           p \<leftarrow> (case stream of None \<Rightarrow> Some p | Some s \<Rightarrow>
                  (case allnet_stream_id t psize of None \<Rightarrow> Some p | Some off \<Rightarrow> do {
                     sid \<leftarrow> slice s 0 stream_id_size;
                     Some (memcpy p off sid)
                   }));
           p \<leftarrow> (case ack of None \<Rightarrow> Some p | Some a \<Rightarrow> do {
                  bytes \<leftarrow> slice a 0 message_id_size;
                  mid \<leftarrow> sha512_bytes bytes (int message_id_size) message_id_size;
                  off \<leftarrow> allnet_message_id t psize;
                  Some (memcpy p off mid)
                });
           Some (Some p)
         })"


definition create_ack ::
  "u8 list \<Rightarrow> u8 list \<Rightarrow> u8 list option \<Rightarrow> nat \<Rightarrow> (u8 list option \<times> nat) option" where
  "create_ack packet ack from_addr nbits =
     (let ah = header_of packet;
          alloc_size = allnet_header_size + message_id_size;
          (src, sbits) = (case from_addr of
              None \<Rightarrow> (destination ah, if nbits > unat (dst_nbits ah) then unat (dst_nbits ah) else nbits)
            | Some a \<Rightarrow> (a, nbits))
      in do {
           hp \<leftarrow> init_packet alloc_size 2 (unat (hops ah) + 3) 0 (Some src) sbits
                   (Some (source ah)) (unat (src_nbits ah)) None None;
           p \<leftarrow> hp;
           let ackp = allnet_data_start (transport (header_of p)) alloc_size;
           if alloc_size - ackp \<noteq> message_id_size then Some (None, 0)
           else do {
             a \<leftarrow> slice ack 0 message_id_size;
             Some (Some (memcpy p ackp a), alloc_size)
           }
         })"

section \<open>Keepalive packets\<close>

definition mgmt_header_size :: nat where "mgmt_header_size = 1 + 7"
definition keepalive_authentication_size :: nat where "keepalive_authentication_size = 8"

definition allnet_mgmt_header_size :: "u8 \<Rightarrow> nat" where
  "allnet_mgmt_header_size t = allnet_size t + mgmt_header_size"

text \<open>The packet is built once and kept in a static buffer, absent before the first call.\<close>

definition keepalive_packet :: "u8 list option \<Rightarrow> (u8 list \<times> u8 list option) option" where
  "keepalive_packet cache =
     (case cache of Some r \<Rightarrow> Some (r, cache)
      | None \<Rightarrow> do {
          let msize = allnet_mgmt_header_size transport_do_not_cache;
          hp \<leftarrow> init_packet msize 7 1 0 None 0 None 0 None None;
          p \<leftarrow> hp;
          let p = p[7 := transport_do_not_cache];
          let p = p[allnet_data_start transport_do_not_cache msize := 9];
          Some (p, Some p)
        })"

text \<open>The addresses a socket can have: IPv4, IPv6, or something else.\<close>

datatype sockaddr = Inet "u8 list" "u8 list" | Inet6 "u8 list" "u8 list" | OtherFamily

definition address_bytes :: "sockaddr \<Rightarrow> u8 list option" where
  "address_bytes addr =
     (case addr of
        Inet sin_addr sin_port \<Rightarrow> Some (sin_addr @ sin_port)
      | Inet6 sin6_addr sin6_port \<Rightarrow>
          Some ((if memget sin6_addr 0 10 = Some True \<and> memget (drop 10 sin6_addr) 0xff 2 = Some True
                 then drop 12 sin6_addr else sin6_addr) @ sin6_port)
      | OtherFamily \<Rightarrow> None)"

definition compute_sender_auth :: "sockaddr \<Rightarrow> u8 list \<Rightarrow> u64 \<Rightarrow> u8 list \<Rightarrow> u8 list option" where
  "compute_sender_auth addr secret counter to_bytes =
     (let tsize = length to_bytes
      in if tsize \<le> 0 then Some to_bytes
         else (case address_bytes addr of
                 None \<Rightarrow> Some (replicate tsize 0)
               | Some a \<Rightarrow> do {
                   c \<leftarrow> writeb64 (Some (replicate 8 0)) counter;
                   key \<leftarrow> slice secret 0 keepalive_authentication_size;
                   result \<leftarrow> sha512hmac False (c @ a) key;
                   let csize = (if tsize > 64 then 64 else tsize);
                   Some (memcpy (replicate tsize 0) 0 (take csize result))
                 }))"

definition keepalive_auth ::
  "u8 list option \<Rightarrow> u8 list \<Rightarrow> sockaddr \<Rightarrow> u8 list \<Rightarrow> u64 \<Rightarrow> u8 list option \<Rightarrow>
   (nat \<times> u8 list \<times> u8 list option) option" where
  "keepalive_auth cache buffer addr secret counter receiver_auth = do {
     (header, cache) \<leftarrow> keepalive_packet cache;
     let hsize = length header;
     let rsize = hsize + keepalive_authentication_size;
     larger \<leftarrow> (case receiver_auth of None \<Rightarrow> Some False
                | Some r \<Rightarrow> map_option Not (memget r 0 keepalive_authentication_size));
     let rsize = (if larger then rsize + keepalive_authentication_size else rsize);
     if rsize > length buffer then Some (0, buffer, cache)
     else do {
       let buffer = memcpy buffer 0 header;
       auth \<leftarrow> compute_sender_auth addr secret counter
                 (take keepalive_authentication_size (drop hsize buffer));
       let buffer = memcpy buffer hsize auth;
       buffer \<leftarrow> (if \<not> larger then Some buffer
                  else do {
                    r \<leftarrow> slice (the receiver_auth) 0 keepalive_authentication_size;
                    Some (memcpy buffer (hsize + keepalive_authentication_size) r)
                  });
       Some (rsize, buffer, cache)
     }
   }"

definition is_auth_keepalive :: "sockaddr \<Rightarrow> u8 list \<Rightarrow> u64 \<Rightarrow> u8 list \<Rightarrow> bool option" where
  "is_auth_keepalive addr secret counter message =
     (let msize = length message; ah = header_of message
      in if msize < allnet_header_size then Some False
         else if hops ah > 1 then Some False
         else
           let hsize = allnet_mgmt_header_size (transport ah)
           in if msize \<noteq> hsize + 2 * keepalive_authentication_size then Some False
              else do {
                verification \<leftarrow> compute_sender_auth addr secret counter
                                  (replicate keepalive_authentication_size 0);
                received \<leftarrow> slice message (hsize + keepalive_authentication_size)
                              keepalive_authentication_size;
                Some (received = verification)
              })"

section \<open>The layout is consistent\<close>

lemmas layout_sizes = allnet_header_size_def stream_id_size_def message_id_size_def sequence_size_def
  large_header_size_def allnet_time_size_def

lemma allnet_size_ge: "allnet_header_size \<le> allnet_size t"
  by (simp add: allnet_size_def)

lemma data_start_min: "allnet_data_start t s = min s (allnet_size t)"
  by (simp add: allnet_data_start_def allnet_after_header_def allnet_after_expiration_def
      allnet_after_sequence_def allnet_after_message_id_def allnet_after_stream_id_def
      allnet_size_def layout_sizes)

lemma after_header_min: "allnet_after_header t s = min s (allnet_size t)"
  using data_start_min by (simp add: allnet_data_start_def)

lemma expiration_inside:
  "allnet_expiration t s = Some off \<Longrightarrow> off + 8 \<le> allnet_size t \<and> allnet_size t \<le> s"
  by (auto simp: allnet_expiration_def allnet_after_sequence_def allnet_after_message_id_def
      allnet_after_stream_id_def allnet_size_def layout_sizes split: if_splits)

lemma message_id_inside:
  "allnet_message_id t s = Some off \<Longrightarrow> off + 16 \<le> allnet_size t \<and> allnet_size t \<le> s"
  by (auto simp: allnet_message_id_def allnet_after_stream_id_def allnet_size_def layout_sizes
      split: if_splits)

lemma sequence_inside:
  "allnet_packet_id t s = Some a \<Longrightarrow> allnet_npackets t s = Some b \<Longrightarrow> allnet_sequence t s = Some c \<Longrightarrow>
    a + 16 = b \<and> b + 16 = c \<and> c + 16 \<le> allnet_size t"
  by (auto simp: allnet_packet_id_def allnet_npackets_def allnet_sequence_def
      allnet_after_message_id_def allnet_after_stream_id_def allnet_size_def layout_sizes
      split: if_splits)

lemma has_transport_for [simp]:
  "has (transport_for stream ack) transport_stream \<longleftrightarrow> stream \<noteq> None"
  "has (transport_for stream ack) transport_ack_req \<longleftrightarrow> ack \<noteq> None"
  "\<not> has (transport_for stream ack) transport_large"
  "\<not> has (transport_for stream ack) transport_expiration"
  by (cases stream; cases ack; simp add: has_def transport_for_def transport_stream_def
      transport_ack_req_def transport_large_def transport_expiration_def)+

lemma transport_for_eq_0: "transport_for stream ack = 0 \<longleftrightarrow> stream = None \<and> ack = None"
  by (cases stream; cases ack; simp add: transport_for_def transport_stream_def transport_ack_req_def)

lemma allnet_size_transport_for:
  "allnet_size (transport_for stream ack) =
     24 + (if stream = None then 0 else 4) + (if ack = None then 0 else 16)"
  by (simp add: allnet_size_def layout_sizes)

lemma stream_id_transport_for:
  "allnet_size (transport_for (Some s) ack) \<le> n \<Longrightarrow>
    allnet_stream_id (transport_for (Some s) ack) n = Some 24"
  by (simp add: allnet_stream_id_def layout_sizes)

lemma message_id_transport_for:
  "allnet_size (transport_for stream (Some a)) \<le> n \<Longrightarrow>
    allnet_message_id (transport_for stream (Some a)) n = Some (24 + (if stream = None then 0 else 4))"
  by (simp add: allnet_message_id_def allnet_after_stream_id_def layout_sizes)

lemma slice_Some [simp]: "off + n \<le> length p \<Longrightarrow> slice p off n = Some (take n (drop off p))"
  by (simp add: slice_def)

lemma slice_eq_None [simp]: "slice p off n = None \<longleftrightarrow> length p < off + n"
  by (auto simp: slice_def)

section \<open>What the validity check finds out\<close>

lemma check_payload_Inr: "check_payload p = Inr () \<longleftrightarrow>
    (message_type (header_of p) = 2 \<longrightarrow> 16 dvd length p - allnet_size (transport (header_of p))) \<and>
    (has (transport (header_of p)) transport_ack_req \<longrightarrow>
       allnet_size (transport (header_of p)) + 16 \<le> length p) \<and>
    (has (transport (header_of p)) transport_large \<longrightarrow> has (transport (header_of p)) transport_ack_req)"
proof -
  have payload: "int s - int (min s a) = int (s - a)" for s a :: nat by simp
  have dvd: "int n mod 16 \<noteq> 0 \<longleftrightarrow> \<not> 16 dvd n" for n by presburger
  show ?thesis
    unfolding check_payload_def Let_def after_header_min payload dvd by auto
qed

lemma check_header_Inr: "check_header p = Inr () \<longleftrightarrow>
    version (header_of p) = 3 \<and> unat (src_nbits (header_of p)) \<le> 64 \<and>
    unat (dst_nbits (header_of p)) \<le> 64 \<and> hops (header_of p) \<le> max_hops (header_of p) \<and>
    message_type (header_of p) \<noteq> 0 \<and> message_type (header_of p) \<le> 7 \<and>
    (message_type (header_of p) = 2 \<longrightarrow> transport (header_of p) = 0)"
  by (auto simp: check_header_def Let_def address_bits_def not_le not_less)

lemma and_then_Inr: "and_then x y = Some (Inr ()) \<longleftrightarrow> x = Some (Inr ()) \<and> y = Some (Inr ())"
  by (auto simp: and_then_def split: option.splits sum.splits)

lemma and_then_None: "and_then x y = None \<longleftrightarrow> x = None \<or> x = Some (Inr ()) \<and> y = None"
  by (auto simp: and_then_def split: option.splits sum.splits)

lemma check_signature_not_None: "check_signature p \<noteq> None"
  using allnet_size_ge [of "transport (header_of p)"]
  by (auto simp: check_signature_def Let_def layout_sizes)

lemma check_expiration_not_None: "check_expiration now p \<noteq> None"
  by (auto simp: check_expiration_def Let_def dest: expiration_inside split: option.splits)

lemma slice_one: "slice p off 1 = (if off < length p then Some [p ! off] else None)"
  by (auto simp: slice_def take_Suc hd_drop_conv_nth)

lemma check_data_request_None: "check_data_request p = None \<longleftrightarrow>
    32 \<le> length p \<and>
    (let powers = allnet_size (transport (header_of p)) + 24
     in length p \<le> powers \<or> length p = powers + 1 \<and> p ! powers \<le> 16 \<or>
        length p = powers + 2 \<and> p ! powers \<le> 16 \<and> p ! (powers + 1) \<le> 16)"
proof (cases "allnet_size (transport (header_of p)) < length p")
  case True
  then show ?thesis
    by (auto simp: check_data_request_def Let_def data_start_min data_request_size_def allnet_time_size_def
        bind_eq_None_conv slice_one not_less min_def add.commute [of "allnet_size t" n for t n] simp del: One_nat_def)
next
  case False
  then show ?thesis
    by (auto simp: check_data_request_def Let_def data_start_min data_request_size_def allnet_time_size_def
        slice_one min_def simp del: One_nat_def)
qed

lemma valid_parts: "is_valid_message now p = Some (Inr ()) \<longleftrightarrow>
    24 \<le> length p \<and> check_header p = Inr () \<and>
    (message_type (header_of p) = 3 \<longrightarrow> check_data_request p = Some (Inr ())) \<and>
    check_payload p = Inr () \<and> check_expiration now p = Some (Inr ()) \<and> check_signature p = Some (Inr ())"
  by (auto simp: is_valid_message_def and_then_Inr layout_sizes)

lemma valid_not_expired:
  assumes "check_expiration now p = Some (Inr ())"
  shows "is_expired_message now p = Some False"
proof (cases "has (transport (header_of p)) transport_expiration")
  case False
  then show ?thesis by (simp add: is_expired_message_def Let_def)
next
  case True
  let ?t = "transport (header_of p)"
  from assms True obtain off where off: "allnet_expiration ?t (length p) = Some off"
    and now: "y2k_seconds_in_unix < now"
    by (auto simp: check_expiration_def Let_def split: if_splits option.splits)
  from expiration_inside [OF off] have inside: "off + 8 \<le> length p" by simp
  define e where "e = readb64 (Some (take 8 (drop off p)))"
  from assms True off now inside have e: "now - y2k_seconds_in_unix \<le> sint e"
    by (auto simp: check_expiration_def Let_def e_def split: if_splits)
  have "now < 2 ^ 63 + y2k_seconds_in_unix"
    using e sint_lt [of e] by simp
  then have "uint (of_int now :: u64) = now"
    using now by (simp add: y2k_seconds_in_unix_def word_of_int_inverse unsigned_of_int take_bit_int_eq_self)
  then have time: "allnet_time now = of_int (now - y2k_seconds_in_unix)"
    using now by (simp add: allnet_time_def Let_def word_less_def y2k_seconds_in_unix_def unsigned_of_int)
  have "sint e = uint e"
    using e now sint_lt [of e] by (simp add: uint_sint [of e] take_bit_int_eq_self)
  moreover have "uint (allnet_time now) = now - y2k_seconds_in_unix"
    unfolding time uint_word_of_int_eq using now \<open>now < _\<close> by (intro take_bit_int_eq_self) simp_all
  ultimately have "\<not> e < allnet_time now" using e by (simp add: word_less_def)
  then show ?thesis
    using True off inside expiration_inside [OF off]
    by (simp add: is_expired_message_def Let_def e_def)
qed

section \<open>What the builders build\<close>

text \<open>The bytes of an address field, of a stream and of a message identifier in a new packet.\<close>

definition address_field :: "nat \<Rightarrow> u8 list option \<Rightarrow> u8 list" where
  "address_field nbits addr =
     (case addr of None \<Rightarrow> replicate 8 0
      | Some a \<Rightarrow> take ((nbits + 7) div 8) a @ replicate (8 - (nbits + 7) div 8) 0)"

definition address_ok :: "nat \<Rightarrow> u8 list option \<Rightarrow> bool" where
  "address_ok nbits addr \<longleftrightarrow>
     nbits \<le> 64 \<and> (case addr of None \<Rightarrow> True | Some a \<Rightarrow> (nbits + 7) div 8 \<le> length a)"

definition optional_ok :: "nat \<Rightarrow> u8 list option \<Rightarrow> bool" where
  "optional_ok n x \<longleftrightarrow> (case x of None \<Rightarrow> True | Some a \<Rightarrow> n \<le> length a)"

definition stream_field :: "u8 list option \<Rightarrow> u8 list" where
  "stream_field stream = (case stream of None \<Rightarrow> [] | Some s \<Rightarrow> take 4 s)"

definition message_id_field :: "u8 list option \<Rightarrow> u8 list" where
  "message_id_field ack = (case ack of None \<Rightarrow> [] | Some a \<Rightarrow> take 16 (sha512_digest (take 16 a)))"

lemma length_address_field: "address_ok nbits a \<Longrightarrow> length (address_field nbits a) = 8"
  by (auto simp: address_ok_def address_field_def split: option.splits)

lemma length_stream_field: "optional_ok 4 s \<Longrightarrow> length (stream_field s) = (if s = None then 0 else 4)"
  by (auto simp: optional_ok_def stream_field_def split: option.splits)

lemma length_message_id_field:
  "optional_ok 16 a \<Longrightarrow> length (message_id_field a) = (if a = None then 0 else 16)"
  by (auto simp: optional_ok_def message_id_field_def length_sha512_digest split: option.splits)

lemma sha512_bytes_digest:
  "length m = 16 \<Longrightarrow> sha512_bytes m 16 16 = Some (take 16 (sha512_digest m))"
  using sha512_digest_run [of m] by (simp add: sha512_bytes_def)

lemma memcpy_zeros:
  "length src \<le> k \<Longrightarrow> off = length pre \<Longrightarrow>
    memcpy (pre @ replicate k 0) off src = pre @ src @ replicate (k - length src) 0"
  by (simp add: memcpy_def)

lemma copy_address_zeros:
  assumes "address_ok nbits a" and "off = length pre" and "8 \<le> k"
  shows "copy_address (pre @ replicate k 0) off nbits a =
    Some (pre @ address_field nbits a @ replicate (k - 8) 0)"
proof -
  have join: "replicate n (0 :: u8) @ replicate m 0 = replicate (n + m) 0" for n m
    by (rule replicate_add [symmetric])
  show ?thesis
  proof (cases a)
    case None
    then show ?thesis using assms(3) by (simp add: copy_address_def address_field_def join)
  next
    case (Some b)
    have "(nbits + 7) div 8 \<le> 8"
      using assms(1) div_le_mono [of "nbits + 7" 71 8] by (simp add: address_ok_def)
    moreover have "(nbits + 7) div 8 \<le> length b"
      using assms(1) Some by (simp add: address_ok_def)
    ultimately show ?thesis
      using assms Some
      by (auto simp: copy_address_def address_field_def memcpy_zeros join message_id_size_def address_ok_def)
  qed
qed

definition packet_start ::
  "nat \<Rightarrow> nat \<Rightarrow> nat \<Rightarrow> u8 list option \<Rightarrow> nat \<Rightarrow> u8 list option \<Rightarrow> nat \<Rightarrow>
   u8 list option \<Rightarrow> u8 list option \<Rightarrow> u8 list" where
  "packet_start mtype mhops salgo src sbits dst dbits stream ack =
     [3, of_nat mtype, 0, of_nat mhops, of_nat sbits, of_nat dbits, of_nat salgo,
      transport_for stream ack] @ address_field sbits src @ address_field dbits dst @
      stream_field stream @ message_id_field ack"

lemma stream_step:
  assumes "allnet_size (transport_for stream ack) \<le> n" and "length pre = 24" and "optional_ok 4 stream"
  shows "(case stream of None \<Rightarrow> Some (pre @ replicate (n - 24) 0)
      | Some s \<Rightarrow> (case allnet_stream_id (transport_for stream ack) n of
           None \<Rightarrow> Some (pre @ replicate (n - 24) 0)
         | Some off \<Rightarrow> do { sid \<leftarrow> slice s 0 stream_id_size;
             Some (memcpy (pre @ replicate (n - 24) 0) off sid) })) =
      Some ((pre @ stream_field stream) @ replicate (n - length (pre @ stream_field stream)) 0)"
proof (cases stream)
  case (Some s)
  have len: "length (take 4 s) = 4" and "28 \<le> n"
    using assms Some by (simp_all add: optional_ok_def allnet_size_transport_for split: if_splits)
  have sid: "allnet_stream_id (transport_for (Some s) ack) n = Some 24"
    using assms(1) Some by (intro stream_id_transport_for) simp
  have copy: "slice s 0 stream_id_size = Some (take 4 s)"
    using len by (simp add: stream_id_size_def)
  have "memcpy (pre @ replicate (n - 24) 0) 24 (take 4 s) =
      pre @ take 4 s @ replicate (n - 24 - length (take 4 s)) 0"
    using len \<open>28 \<le> n\<close> assms(2) by (intro memcpy_zeros) linarith+
  moreover have "n - length (pre @ take 4 s) = n - 24 - length (take 4 s)"
    using assms(2) by (simp only: length_append diff_diff_left)
  ultimately show ?thesis
    by (simp only: Some option.case sid copy bind.simps stream_field_def append_assoc)
qed (simp add: stream_field_def assms)

lemma ack_step:
  assumes "allnet_size (transport_for stream ack) \<le> n" and "optional_ok 16 ack"
    and "length pre = 24 + (if stream = None then 0 else 4)"
  shows "(case ack of None \<Rightarrow> Some (pre @ replicate (n - length pre) 0)
      | Some a \<Rightarrow> do { bytes \<leftarrow> slice a 0 message_id_size;
          mid \<leftarrow> sha512_bytes bytes (int message_id_size) message_id_size;
          off \<leftarrow> allnet_message_id (transport_for stream ack) n;
          Some (memcpy (pre @ replicate (n - length pre) 0) off mid) }) =
      Some (pre @ message_id_field ack @ replicate (n - allnet_size (transport_for stream ack)) 0)"
proof (cases ack)
  case None
  then show ?thesis using assms by (simp add: message_id_field_def allnet_size_transport_for)
next
  case (Some a)
  let ?id = "take 16 (sha512_digest (take 16 a))"
  have len: "length ?id = 16" and "length (take 16 a) = 16" and n: "length pre + 16 \<le> n"
    using Some length_message_id_field [OF assms(2)] assms
    by (simp_all add: message_id_field_def optional_ok_def allnet_size_transport_for)
  moreover have mid: "allnet_message_id (transport_for stream ack) n = Some (length pre)"
    using message_id_transport_for [of stream a n] assms Some by simp
  ultimately show ?thesis
    using Some assms memcpy_zeros [of ?id "n - length pre" "length pre" pre]
    by (simp add: allnet_size_transport_for message_id_field_def message_id_size_def sha512_bytes_digest)
qed

lemma init_packet_run:
  assumes ok: "\<not> refuses psize mtype mhops salgo sbits dbits (transport_for stream ack)"
    and src: "address_ok sbits src" and dst: "address_ok dbits dst"
    and stream: "optional_ok 4 stream" and ack: "optional_ok 16 ack"
  shows "init_packet psize mtype mhops salgo src sbits dst dbits stream ack =
    Some (Some (packet_start mtype mhops salgo src sbits dst dbits stream ack @
      replicate (psize - allnet_size (transport_for stream ack)) 0))"
proof -
  let ?t = "transport_for stream ack"
  let ?h = "[3, of_nat mtype, 0, of_nat mhops, of_nat sbits, of_nat dbits, of_nat salgo] :: u8 list"
  let ?f = "address_field sbits src" and ?g = "address_field dbits dst"
  have size: "allnet_size ?t \<le> psize" and n: "24 \<le> psize"
    using ok by (auto simp: refuses_def not_less allnet_header_size_def)
  have "replicate (psize - 7) (0 :: u8) = 0 # replicate (psize - 8) 0"
    using n by (simp flip: replicate_Suc)
  then have 1: "memcpy (replicate psize 0) 0 ?h = (?h @ [0]) @ replicate (psize - 8) 0"
    using n memcpy_zeros [of ?h psize 0 "[]"] by (simp add: eval_nat_numeral)
  have 2: "copy_address ((?h @ [0]) @ replicate (psize - 8) 0) 8 sbits src =
      Some (((?h @ [0]) @ ?f) @ replicate (psize - 16) 0)"
    using n copy_address_zeros [OF src, of 8 "?h @ [0]" "psize - 8"] by simp
  have 3: "copy_address (((?h @ [0]) @ ?f) @ replicate (psize - 16) 0) 16 dbits dst =
      Some (((?h @ [0]) @ ?f @ ?g) @ replicate (psize - 24) 0)"
    using n length_address_field [OF src]
      copy_address_zeros [OF dst, of 16 "(?h @ [0]) @ ?f" "psize - 16"] by simp
  have t: "(((?h @ [0]) @ ?f @ ?g) @ replicate (psize - 24) 0)[7 := ?t] =
      (?h @ [?t] @ ?f @ ?g) @ replicate (psize - 24) 0"
    by simp
  have la: "length (?h @ [?t] @ ?f @ ?g) = 24"
    using length_address_field [OF src] length_address_field [OF dst] by simp
  note 4 = stream_step [OF size la stream]
  have "length ((?h @ [?t] @ ?f @ ?g) @ stream_field stream) = 24 + (if stream = None then 0 else 4)"
    using la length_stream_field [OF stream] by simp
  note 5 = ack_step [OF size ack this]
  show ?thesis
    unfolding init_packet_def Let_def if_not_P [OF ok] 1 2 3 bind.simps t 4 5
    by (simp add: packet_start_def)
qed

lemma length_packet_start:
  assumes "address_ok sbits src" and "address_ok dbits dst" and "optional_ok 4 stream" and "optional_ok 16 ack"
  shows "length (packet_start mtype mhops salgo src sbits dst dbits stream ack) =
    allnet_size (transport_for stream ack)"
  using assms by (simp add: packet_start_def length_address_field length_stream_field
      length_message_id_field allnet_size_transport_for)

lemma header_of_packet_start:
  assumes "address_ok sbits src" and "address_ok dbits dst"
  shows "header_of (packet_start mtype mhops salgo src sbits dst dbits stream ack @ rest) =
    \<lparr>version = 3, message_type = of_nat mtype, hops = 0, max_hops = of_nat mhops,
     src_nbits = of_nat sbits, dst_nbits = of_nat dbits, sig_algo = of_nat salgo,
     transport = transport_for stream ack,
     source = address_field sbits src, destination = address_field dbits dst\<rparr>"
  using assms by (simp add: header_of_def packet_start_def length_address_field)

lemma valid_unsigned:
  assumes "24 \<le> length p"
    and "header_of p = \<lparr>version = 3, message_type = of_nat mtype, hops = 0, max_hops = mh,
     src_nbits = of_nat sbits, dst_nbits = of_nat dbits, sig_algo = 0,
     transport = transport_for stream ack, source = src, destination = dst\<rparr>"
    and "sbits \<le> 64" and "dbits \<le> 64" and "1 \<le> mtype" and "mtype \<le> 7" and "mtype \<noteq> 3"
    and "mtype = 2 \<Longrightarrow> stream = None \<and> ack = None \<and> 16 dvd length p - 24"
    and "ack \<noteq> None \<Longrightarrow> allnet_size (transport_for stream ack) + 16 \<le> length p"
  shows "is_valid_message now p = Some (Inr ())"
proof -
  have small: "unat (of_nat n :: u8) = n" if "n \<le> 64" for n using that by (simp add: unat_of_nat)
  have type: "(of_nat mtype :: u8) = of_nat k \<longleftrightarrow> mtype = k" if "k \<le> 7" for k
    using assms(6) that small [of mtype] small [of k] by (auto simp: word_unat_eq_iff)
  have not: "(of_nat mtype :: u8) \<noteq> 0" "(of_nat mtype :: u8) = 2 \<longleftrightarrow> mtype = 2" "(of_nat mtype :: u8) \<noteq> 3"
    using type [of 0] type [of 2] type [of 3] assms(5,7) by simp_all
  have le: "(of_nat mtype :: u8) \<le> 7"
    using small [of mtype] assms(6) by (simp add: word_le_nat_alt)
  show ?thesis
    unfolding valid_parts check_header_Inr check_payload_Inr assms(2)
    using assms(1,3,4,8,9) small [of sbits] small [of dbits] not le
    by (auto simp: transport_for_eq_0 check_expiration_def check_signature_def assms(2)
        allnet_size_transport_for)
qed


text \<open>The address an acknowledgement is sent from, and how many bits of it count.\<close>

definition ack_from :: "u8 list \<Rightarrow> u8 list option \<Rightarrow> nat \<Rightarrow> u8 list \<times> nat" where
  "ack_from packet from_addr nbits =
     (case from_addr of Some a \<Rightarrow> (a, nbits)
      | None \<Rightarrow> (destination (header_of packet), min nbits (unat (dst_nbits (header_of packet)))))"

lemma create_ack_init: "create_ack packet ack from_addr nbits = do {
    hp \<leftarrow> init_packet 40 2 (unat (hops (header_of packet)) + 3) 0
      (Some (fst (ack_from packet from_addr nbits))) (snd (ack_from packet from_addr nbits))
      (Some (source (header_of packet))) (unat (src_nbits (header_of packet))) None None;
    p \<leftarrow> hp;
    let ackp = allnet_data_start (transport (header_of p)) 40;
    if 40 - ackp \<noteq> 16 then Some (None, 0)
    else do { a \<leftarrow> slice ack 0 16; Some (Some (memcpy p ackp a), 40) } }"
proof -
  have "(case from_addr of
          None \<Rightarrow> (destination (header_of packet), if nbits > unat (dst_nbits (header_of packet))
                     then unat (dst_nbits (header_of packet)) else nbits)
        | Some a \<Rightarrow> (a, nbits)) = ack_from packet from_addr nbits"
    by (simp add: ack_from_def split: option.splits)
  note addr = this
  have size: "allnet_header_size + message_id_size = 40" by (simp add: layout_sizes)
  show ?thesis
    unfolding create_ack_def Let_def addr size unfolding message_id_size_def by (simp add: split_beta)
qed

lemma create_ack_crashes:
  "253 \<le> unat (hops (header_of packet)) \<Longrightarrow> create_ack packet ack from_addr nbits = None"
  by (simp add: create_ack_init init_packet_def Let_def refuses_def)

lemma create_ack_run:
  assumes packet: "24 \<le> length packet" "unat (src_nbits (header_of packet)) \<le> 64" "unat (dst_nbits (header_of packet)) \<le> 64"
    and from_ok: "from_addr \<noteq> None \<Longrightarrow> address_ok nbits from_addr"
    and ack: "16 \<le> length ack" and hops: "unat (hops (header_of packet)) < 253"
  shows "\<exists>p. create_ack packet ack from_addr nbits = Some (Some p, 40) \<and>
    header_of p = \<lparr>version = 3, message_type = 2, hops = 0, max_hops = hops (header_of packet) + 3,
      src_nbits = of_nat (snd (ack_from packet from_addr nbits)), dst_nbits = src_nbits (header_of packet),
      sig_algo = 0, transport = 0,
      source = address_field (snd (ack_from packet from_addr nbits)) (Some (fst (ack_from packet from_addr nbits))),
      destination = address_field (unat (src_nbits (header_of packet))) (Some (source (header_of packet)))\<rparr> \<and>
    drop 24 p = take 16 ack \<and> is_valid_message now p = Some (Inr ())"
proof -
  let ?ah = "header_of packet"
  obtain src sbits where f: "ack_from packet from_addr nbits = (src, sbits)" by (cases "ack_from packet from_addr nbits")
  have div8: "(n + 7) div 8 \<le> 8" if "n \<le> 64" for n :: nat using that by simp
  have "address_ok sbits (Some src)"
  proof (cases from_addr)
    case None
    then have "sbits \<le> 64" and "length src = 8"
      using f packet by (auto simp: ack_from_def header_of_def)
    then show ?thesis using div8 [of sbits] by (simp add: address_ok_def)
  qed (use f from_ok in \<open>auto simp: ack_from_def address_ok_def\<close>)
  moreover have "address_ok (unat (src_nbits ?ah)) (Some (source ?ah))"
    using packet div8 by (simp add: address_ok_def) (simp add: header_of_def)
  ultimately have ok: "address_ok sbits (Some src)" "address_ok (unat (src_nbits ?ah)) (Some (source ?ah))"
    "optional_ok 4 None" "optional_ok 16 None"
    by (simp_all add: optional_ok_def)
  let ?mh = "unat (hops ?ah) + 3"
  define start where "start = packet_start 2 ?mh 0 (Some src) sbits (Some (source ?ah)) (unat (src_nbits ?ah)) None None"
  have t0: "transport_for None None = 0" by (simp add: transport_for_def)
  have s0: "allnet_size 0 = 24" using allnet_size_transport_for [of None None] t0 by simp
  have accepts: "\<not> refuses 40 2 ?mh 0 sbits (unat (src_nbits ?ah)) (transport_for None None)"
    using hops ok packet by (simp add: refuses_def t0 s0 layout_sizes address_bits_def address_ok_def)
  have init: "init_packet 40 2 ?mh 0 (Some src) sbits (Some (source ?ah)) (unat (src_nbits ?ah)) None None =
      Some (Some (start @ replicate 16 0))"
    using init_packet_run [OF accepts ok] by (simp add: t0 s0 start_def)
  have h: "header_of (start @ rest) = \<lparr>version = 3, message_type = 2, hops = 0, max_hops = hops ?ah + 3,
      src_nbits = of_nat sbits, dst_nbits = src_nbits ?ah, sig_algo = 0, transport = 0,
      source = address_field sbits (Some src),
      destination = address_field (unat (src_nbits ?ah)) (Some (source ?ah))\<rparr>" for rest
    unfolding start_def header_of_packet_start [OF ok(1,2)] by (simp add: t0)
  have len: "length start = 24"
    using length_packet_start [OF ok] by (simp add: start_def t0 s0)
  have copied: "memcpy (start @ replicate 16 0) 24 (take 16 ack) = start @ take 16 ack"
    using memcpy_zeros [of "take 16 ack" 16 24 start] len ack by simp
  have "is_valid_message now (start @ take 16 ack) = Some (Inr ())"
    by (rule valid_unsigned [where mtype = 2 and stream = None and ack = None and sbits = sbits
          and dbits = "unat (src_nbits ?ah)"])
      (use h [of "take 16 ack"] len ack ok packet in \<open>auto simp: t0 address_ok_def\<close>)
  then show ?thesis
    using h len ack by (intro exI [of _ "start @ take 16 ack"])
      (simp add: create_ack_init f init data_start_min s0 copied)
qed

section \<open>Keepalives answer each other\<close>

definition keepalive_bytes :: "u8 list" where
  "keepalive_bytes = [3, 7, 0, 1, 0, 0, 0, 16] @ replicate 16 0 @ [9] @ replicate 7 0"

lemma length_keepalive_bytes [simp]: "length keepalive_bytes = 32"
  by (simp add: keepalive_bytes_def)

lemma has_do_not_cache [simp]:
  "\<not> has transport_do_not_cache transport_stream" "\<not> has transport_do_not_cache transport_ack_req"
  "\<not> has transport_do_not_cache transport_large" "\<not> has transport_do_not_cache transport_expiration"
  by (simp_all add: has_def transport_do_not_cache_def transport_stream_def transport_ack_req_def
      transport_large_def transport_expiration_def)

lemma allnet_size_do_not_cache: "allnet_size transport_do_not_cache = 24"
  by (simp add: allnet_size_def allnet_header_size_def)

lemma keepalive_packet_run:
  assumes "cache = None \<or> cache = Some keepalive_bytes"
  shows "keepalive_packet cache = Some (keepalive_bytes, Some keepalive_bytes)"
proof -
  have t0: "transport_for None None = 0" by (simp add: transport_for_def)
  have s0: "allnet_size 0 = 24" using allnet_size_transport_for [of None None] t0 by simp
  have ok: "address_ok 0 None" "optional_ok n None" for n by (simp_all add: address_ok_def optional_ok_def)
  have "\<not> refuses 32 7 1 0 0 0 (transport_for None None)"
    by (simp add: refuses_def t0 s0 allnet_header_size_def)
  from init_packet_run [OF this ok(1,1,2,2)]
  have init: "init_packet 32 7 1 0 None 0 None 0 None None =
      Some (Some ([3, 7, 0, 1, 0, 0, 0, 0] @ replicate 24 0))"
    unfolding t0 s0
    by (simp add: packet_start_def address_field_def stream_field_def message_id_field_def t0
        flip: replicate_add)
  have "([3, 7, 0, 1, 0, 0, 0, 0] @ replicate 24 0 :: u8 list)[7 := 16, 24 := 9] = keepalive_bytes"
    by (simp add: keepalive_bytes_def numeral_nat)
  then have None: "keepalive_packet None = Some (keepalive_bytes, Some keepalive_bytes)"
    unfolding keepalive_packet_def option.case Let_def allnet_mgmt_header_size_def
      allnet_size_do_not_cache data_start_min mgmt_header_size_def
    by (simp add: init transport_do_not_cache_def del: One_nat_def)
  show ?thesis
    using assms None by (auto simp: keepalive_packet_def)
qed

lemma header_of_keepalive: "header_of (keepalive_bytes @ xs) =
    \<lparr>version = 3, message_type = 7, hops = 0, max_hops = 1, src_nbits = 0, dst_nbits = 0, sig_algo = 0,
     transport = transport_do_not_cache, source = replicate 8 0, destination = replicate 8 0\<rparr>"
  by (simp add: header_of_def keepalive_bytes_def transport_do_not_cache_def numeral_nat)

lemma keepalive_valid: "is_valid_message now (keepalive_bytes @ xs) = Some (Inr ())"
  unfolding valid_parts check_header_Inr check_payload_Inr check_expiration_def check_signature_def
    Let_def header_of_keepalive
  by simp

definition sockaddr_ok :: "sockaddr \<Rightarrow> bool" where
  "sockaddr_ok addr \<longleftrightarrow> (case addr of
     Inet a p \<Rightarrow> length a = 4 \<and> length p = 2 | Inet6 a p \<Rightarrow> length a = 16 \<and> length p = 2 | OtherFamily \<Rightarrow> True)"

text \<open>The authenticator: an HMAC of counter and address under the first eight bytes of the secret.\<close>

definition sender_auth :: "sockaddr \<Rightarrow> u8 list \<Rightarrow> u64 \<Rightarrow> u8 list" where
  "sender_auth addr secret counter =
     (case address_bytes addr of None \<Rightarrow> replicate 8 0
      | Some a \<Rightarrow> take 8 (hmac_spec (the (writeb64 (Some (replicate 8 0)) counter) @ a) (take 8 secret)))"

lemma compute_sender_auth_run:
  assumes "sockaddr_ok addr" and "8 \<le> length secret" and "length xs = 8"
  shows "compute_sender_auth addr secret counter xs = Some (sender_auth addr secret counter) \<and>
    length (sender_auth addr secret counter) = 8"
proof (cases "address_bytes addr")
  case None
  then show ?thesis using assms(3) by (simp add: compute_sender_auth_def sender_auth_def)
next
  case (Some a)
  obtain c where c: "writeb64 (Some (replicate 8 0)) counter = Some c" and "length c = 8"
    by (simp add: writeb64_def)
  have "length a \<le> 18"
    using Some assms(1) by (auto simp: address_bytes_def sockaddr_ok_def split: sockaddr.splits if_splits)
  then have "sha512hmac False (c @ a) (take 8 secret) = Some (hmac_spec (c @ a) (take 8 secret))"
    and len: "length (hmac_spec (c @ a) (take 8 secret)) = 64"
    using sha512hmac_value [of "c @ a" "take 8 secret" False] \<open>length c = 8\<close> by simp_all
  moreover have "memcpy (replicate 8 0) 0 (take 8 (hmac_spec (c @ a) (take 8 secret))) =
      take 8 (hmac_spec (c @ a) (take 8 secret))"
    using len by (simp add: memcpy_def)
  ultimately show ?thesis
    using assms(2,3) Some c
    by (simp add: compute_sender_auth_def sender_auth_def keepalive_authentication_size_def)
qed

lemma memget_zeros: "length r = 8 \<Longrightarrow> memget r 0 8 = Some (r = replicate 8 0)"
  by (auto simp: memget_def list_eq_iff_nth_eq)

lemma keepalive_auth_run:
  assumes "cache = None \<or> cache = Some keepalive_bytes" and "sockaddr_ok addr" and "8 \<le> length secret"
    and "length r = 8" and "r \<noteq> replicate 8 0" and "48 \<le> length buffer"
  shows "keepalive_auth cache buffer addr secret counter (Some r) =
    Some (48, (keepalive_bytes @ sender_auth addr secret counter @ r) @ drop 48 buffer, Some keepalive_bytes)"
proof -
  let ?a = "sender_auth addr secret counter"
  have "length (take 8 (drop 32 (keepalive_bytes @ drop 32 buffer))) = 8" using assms(6) by simp
  note auth = compute_sender_auth_run [OF assms(2,3) this, of counter]
  have b1: "memcpy buffer 0 keepalive_bytes = keepalive_bytes @ drop 32 buffer"
    by (simp add: memcpy_def)
  have b2: "memcpy (keepalive_bytes @ drop 32 buffer) 32 ?a = keepalive_bytes @ ?a @ drop 40 buffer"
    using auth assms(6) by (simp add: memcpy_def)
  have b3: "memcpy (keepalive_bytes @ ?a @ drop 40 buffer) 40 r = keepalive_bytes @ ?a @ r @ drop 48 buffer"
    using auth assms(4,6) by (simp add: memcpy_def)
  show ?thesis
    using assms(4-6) auth
    by (simp add: keepalive_auth_def keepalive_packet_run [OF assms(1)] keepalive_authentication_size_def
        memget_zeros b1 b2 b3)
qed

lemma is_auth_keepalive_run:
  assumes "sockaddr_ok addr" and "8 \<le> length secret" and "length a = 8" and "length r = 8"
  shows "is_auth_keepalive addr secret counter (keepalive_bytes @ a @ r) =
    Some (r = sender_auth addr secret counter)"
  using assms compute_sender_auth_run [OF assms(1,2), of "replicate 8 0" counter]
  by (simp add: is_auth_keepalive_def Let_def header_of_keepalive allnet_mgmt_header_size_def
      allnet_size_do_not_cache mgmt_header_size_def keepalive_authentication_size_def allnet_header_size_def)

section \<open>Properties\<close>



text \<open>
  C36: The acknowledgement of a received packet is a valid message of 40 bytes that carries the
  sixteen bytes given, goes back to the source of the packet, and may travel three hops more than
  the packet had; but for a packet that has made 253 hops or more \<open>init_packet\<close> refuses the
  hop limit, and \<open>create_ack\<close> reads through the \<open>NULL\<close> it returned.
\<close>

theorem create_ack_answers:
  assumes "24 \<le> length packet" and "unat (src_nbits (header_of packet)) \<le> 64"
    and "unat (dst_nbits (header_of packet)) \<le> 64"
    and "from_addr \<noteq> None \<Longrightarrow> address_ok nbits from_addr" and "16 \<le> length ack"
  shows "if unat (hops (header_of packet)) < 253
    then \<exists>p. create_ack packet ack from_addr nbits = Some (Some p, 40) \<and>
      header_of p = \<lparr>version = 3, message_type = 2, hops = 0, max_hops = hops (header_of packet) + 3,
        src_nbits = of_nat (snd (ack_from packet from_addr nbits)), dst_nbits = src_nbits (header_of packet),
        sig_algo = 0, transport = 0,
        source = address_field (snd (ack_from packet from_addr nbits)) (Some (fst (ack_from packet from_addr nbits))),
        destination = address_field (unat (src_nbits (header_of packet))) (Some (source (header_of packet)))\<rparr> \<and>
      drop 24 p = take 16 ack \<and> is_valid_message now p = Some (Inr ())
    else create_ack packet ack from_addr nbits = None"
  using create_ack_run [OF assms] create_ack_crashes [of packet ack from_addr nbits] by simp

theorem create_ack_answers_witness:
  "(\<exists>p. create_ack ([3, 1, 2, 5, 8, 8, 0, 0] @ replicate 16 9) (replicate 16 1) None 64 = Some (Some p, 40) \<and>
      drop 24 p = replicate 16 1) \<and>
   create_ack ([3, 1, 253, 255, 8, 8, 0, 0] @ replicate 16 9) (replicate 16 1) None 64 = None"
  using create_ack_answers [of "[3, 1, 2, 5, 8, 8, 0, 0] @ replicate 16 9" None 64 "replicate 16 1" 0]
    create_ack_answers [of "[3, 1, 253, 255, 8, 8, 0, 0] @ replicate 16 9" None 64 "replicate 16 1" 0]
  by (auto simp: header_of_def)

text \<open>
  C21: A message that passes the check has the version, type, address sizes and hop counts the
  rest of the program relies on; an acknowledgement has no transport bits and a payload of whole
  message identifiers; a message that wants an acknowledgement has room for its identifier and
  its acknowledgement, one of a large message has its sequence fields inside the header, a signed
  one a signature length other than zero; and it has not expired at the time of the check.
\<close>

theorem valid_message_is_usable:
  assumes "is_valid_message now p = Some (Inr ())"
  shows "allnet_header_size \<le> length p \<and> version (header_of p) = 3 \<and>
    1 \<le> unat (message_type (header_of p)) \<and> unat (message_type (header_of p)) \<le> 7 \<and>
    unat (src_nbits (header_of p)) \<le> 64 \<and> unat (dst_nbits (header_of p)) \<le> 64 \<and>
    hops (header_of p) \<le> max_hops (header_of p) \<and>
    (message_type (header_of p) = 2 \<longrightarrow> transport (header_of p) = 0 \<and> 16 dvd length p - 24) \<and>
    (has (transport (header_of p)) transport_large \<longrightarrow> has (transport (header_of p)) transport_ack_req) \<and>
    (has (transport (header_of p)) transport_ack_req \<longrightarrow>
       (\<exists>off. allnet_message_id (transport (header_of p)) (length p) = Some off \<and> off + 16 \<le> length p) \<and>
       allnet_data_start (transport (header_of p)) (length p) + 16 \<le> length p) \<and>
    (\<forall>a b c. allnet_packet_id (transport (header_of p)) (length p) = Some a \<and>
       allnet_npackets (transport (header_of p)) (length p) = Some b \<and>
       allnet_sequence (transport (header_of p)) (length p) = Some c \<longrightarrow>
       a + 16 = b \<and> b + 16 = c \<and> c + 16 \<le> allnet_data_start (transport (header_of p)) (length p)) \<and>
    (sig_algo (header_of p) \<noteq> 0 \<longrightarrow>
       (let n = unat (readb16 (Some (drop (length p - 2) p))) in 0 < n \<and> n + 2 < length p)) \<and>
    is_expired_message now p = Some False"
proof -
  let ?h = "header_of p"
  have parts: "24 \<le> length p" "check_header p = Inr ()" "check_payload p = Inr ()"
    "check_expiration now p = Some (Inr ())" "check_signature p = Some (Inr ())"
    using assms by (simp_all add: valid_parts)
  note head = parts(2) [unfolded check_header_Inr] and load = parts(3) [unfolded check_payload_Inr]
  have "1 \<le> unat (message_type ?h)" and "unat (message_type ?h) \<le> 7"
    using head by (simp_all add: word_le_nat_alt Suc_le_eq unat_gt_0)
  moreover have "16 dvd length p - 24" if "message_type ?h = 2"
    using that load head by (simp add: allnet_size_def has_def allnet_header_size_def)
  moreover have "\<exists>off. allnet_message_id (transport ?h) (length p) = Some off \<and> off + 16 \<le> length p"
    if "has (transport ?h) transport_ack_req"
  proof -
    have "allnet_message_id (transport ?h) (length p) \<noteq> None" using that load by (auto simp: allnet_message_id_def)
    then obtain off where "allnet_message_id (transport ?h) (length p) = Some off" by auto
    then show ?thesis using message_id_inside by fastforce
  qed
  moreover have "c + 16 \<le> allnet_data_start (transport ?h) (length p)" and "a + 16 = b" and "b + 16 = c"
    if "allnet_packet_id (transport ?h) (length p) = Some a" "allnet_npackets (transport ?h) (length p) = Some b"
      "allnet_sequence (transport ?h) (length p) = Some c" for a b c
    using sequence_inside [OF that] that(1) by (auto simp: data_start_min allnet_packet_id_def split: if_splits)
  moreover have "0 < unat (readb16 (Some (drop (length p - 2) p))) \<and>
      unat (readb16 (Some (drop (length p - 2) p))) + 2 < length p" if "sig_algo ?h \<noteq> 0"
    using that parts(1,5) by (auto simp: check_signature_def Let_def unat_gt_0 split: if_splits)
  ultimately show ?thesis
    using parts(1) head load valid_not_expired [OF parts(4)]
    by (auto simp: allnet_header_size_def data_start_min Let_def)
qed

theorem valid_message_is_usable_witness:
  "is_valid_message 1600000000 ([3, 1, 0, 5, 8, 8, 0, 2] @ replicate 50 9) = Some (Inr ()) \<and>
   allnet_data_start 2 58 + 16 \<le> (58 :: nat)"
proof -
  have "is_valid_message 1600000000 ([3, 1, 0, 5, 8, 8, 0, 2] @ replicate 50 9) = Some (Inr ())"
    by (simp add: valid_parts check_header_Inr check_payload_Inr check_expiration_def check_signature_def
        header_of_def has_def allnet_size_def layout_sizes transport_large_def transport_ack_req_def
        transport_expiration_def transport_stream_def)
  from valid_message_is_usable [OF this] this show ?thesis
    by (simp add: header_of_def has_def transport_ack_req_def)
qed

text \<open>
  C11: The check of a received message reads outside it exactly for the data requests that are at
  least as long as \<open>struct allnet_data_request\<close> but end before the three bitmap sizes that
  follow the header, none of those that are in the packet being above 16: the size of the request is
  compared with that of the packet, not with what is left after the header. The sizes are read one
  after the other, and one above 16 ends the check.
\<close>

theorem validity_check_reads_outside_iff:
  "is_valid_message now p = None \<longleftrightarrow>
     check_header p = Inr () \<and> message_type (header_of p) = 3 \<and> 32 \<le> length p \<and>
     (let powers = allnet_size (transport (header_of p)) + 24
      in length p \<le> powers \<or> length p = powers + 1 \<and> p ! powers \<le> 16 \<or>
         length p = powers + 2 \<and> p ! powers \<le> 16 \<and> p ! (powers + 1) \<le> 16)"
  unfolding is_valid_message_def
  by (auto simp: and_then_None check_data_request_None layout_sizes
      check_signature_not_None check_expiration_not_None)

text \<open>
  C35: Keepalives answer each other. What \<open>keepalive_auth\<close> sends is a valid message with the sender's
  authenticator and the echo of the receiver's; \<open>is_auth_keepalive\<close> accepts it exactly when the
  echo is the authenticator the receiver computes for that address, secret and counter.
\<close>

theorem keepalive_roundtrip:
  assumes "cache = None \<or> keepalive_packet None = Some (the cache, cache)"
    and "sockaddr_ok addr" and "8 \<le> length secret" and "sockaddr_ok addr'" and "8 \<le> length secret'"
    and "length r = 8" and "r \<noteq> replicate 8 0" and "48 \<le> length buffer"
  shows "\<exists>buffer' cache' v. keepalive_auth cache buffer addr secret counter (Some r) = Some (48, buffer', cache') \<and>
    length buffer' = length buffer \<and> drop 48 buffer' = drop 48 buffer \<and>
    is_valid_message now (take 48 buffer') = Some (Inr ()) \<and>
    compute_sender_auth addr secret counter (replicate 8 0) = Some (take 8 (drop 32 buffer')) \<and>
    compute_sender_auth addr' secret' counter' (replicate 8 0) = Some v \<and>
    is_auth_keepalive addr' secret' counter' (take 48 buffer') = Some (r = v)"
proof -
  have cache: "cache = None \<or> cache = Some keepalive_bytes"
    using assms(1) keepalive_packet_run [of None] by auto
  let ?b = "keepalive_bytes @ sender_auth addr secret counter @ r"
  note a = compute_sender_auth_run [OF assms(2,3), of "replicate 8 0" counter]
    and v = compute_sender_auth_run [OF assms(4,5), of "replicate 8 0" counter']
  show ?thesis
    using keepalive_auth_run [OF cache assms(2,3,6,7,8)] a v assms(6,8)
      keepalive_valid [of now "sender_auth addr secret counter @ r"]
      is_auth_keepalive_run [OF assms(4,5) _ assms(6), of "sender_auth addr secret counter" counter']
    by (intro exI [of _ "?b @ drop 48 buffer"] exI [of _ "Some keepalive_bytes"]
        exI [of _ "sender_auth addr' secret' counter'"]) simp
qed

theorem keepalive_roundtrip_witness:
  "\<exists>buffer' cache' v. keepalive_auth None (replicate 60 0) (Inet [1, 2, 3, 4] [0, 80]) (replicate 16 5) 17
      (Some [1, 2, 3, 4, 5, 6, 7, 8]) = Some (48, buffer', cache') \<and>
    compute_sender_auth (Inet6 (replicate 16 1) [0, 80]) (replicate 16 6) 18 (replicate 8 0) = Some v \<and>
    is_auth_keepalive (Inet6 (replicate 16 1) [0, 80]) (replicate 16 6) 18 (take 48 buffer') =
      Some ([1, 2, 3, 4, 5, 6, 7, 8] = v)"
proof -
  have "sockaddr_ok (Inet [1, 2, 3, 4] [0, 80])" "8 \<le> length (replicate 16 (5 :: u8))"
    "sockaddr_ok (Inet6 (replicate 16 1) [0, 80])" "8 \<le> length (replicate 16 (6 :: u8))"
    "length [1, 2, 3, 4, 5, 6, 7, 8 :: u8] = 8" "[1, 2, 3, 4, 5, 6, 7, 8 :: u8] \<noteq> replicate 8 0"
    "48 \<le> length (replicate 60 (0 :: u8))"
    by (simp_all add: sockaddr_ok_def numeral_nat)
  from keepalive_roundtrip [OF disjI1 [OF refl] this, of 17 0 18] show ?thesis by blast
qed

end
