(* ===== verification/RecordTrack.thy ===== *)
theory RecordTrack
  imports PacketHeader Priority
begin

text \<open>
  \<open>record.c\<close>, which remembers the hashes of the packets received recently to recognise duplicates,
  and \<open>track.c\<close>, which estimates the share of the traffic each source is responsible for. A packet
  is the list of its bytes, and the time is an argument.
\<close>

section \<open>Duplicates\<close>

definition entries_per_table :: nat where
  "entries_per_table = 64 * 1024"

record hash_entry =
  last_seen :: int
  hash :: u32

record record_state =
  hash1 :: "nat \<Rightarrow> hash_entry"
  hash2 :: "nat \<Rightarrow> hash_entry"
  initialized :: bool

text \<open>A \<open>char\<close> is signed, a word of the data is read from four bytes, least significant first.\<close>

definition data_char :: "u8 list \<Rightarrow> nat \<Rightarrow> u32" where
  "data_char data i = scast (data ! i)"

definition idata :: "u8 list \<Rightarrow> nat \<Rightarrow> u32" where
  "idata data i = push_bit 24 (ucast (data ! (4 * i + 3))) OR push_bit 16 (ucast (data ! (4 * i + 2))) OR
     push_bit 8 (ucast (data ! (4 * i + 1))) OR ucast (data ! (4 * i))"

definition allnet_record_simple_hash_fn :: "u8 list \<Rightarrow> nat \<Rightarrow> u32" where
  "allnet_record_simple_hash_fn data bits =
     (if bits = 0 then 0
      else
        let isize = bits div 32;
            result =
              (if isize * 32 < bits then
                 let result = data_char data (isize * 4);
                     result = (if isize * 32 + 8 < bits
                               then result OR push_bit 8 (data_char data (isize * 4 + 1)) else result);
                     result = (if isize * 32 + 16 < bits
                               then result OR push_bit 16 (data_char data (isize * 4 + 2)) else result)
                 in if isize * 32 + 24 < bits
                    then result OR push_bit 24 (data_char data (isize * 4 + 3)) else result
               else 0);
            result = result + of_nat bits;
            result = fold (\<lambda>i result.
                let result = push_bit 1 result OR (drop_bit 31 result AND 1)
                in result XOR idata data i) [0..<isize] result
        in if sint result < 0 then - result else result)"

definition left_index :: "u32 \<Rightarrow> nat" where
  "left_index h = unat ((drop_bit 16 h AND 0xff00) OR (drop_bit 8 h AND 0xff)) mod entries_per_table"

definition right_index :: "u32 \<Rightarrow> nat" where
  "right_index h = unat ((drop_bit 8 h AND 0xff00) OR (h AND 0xff)) mod entries_per_table"

definition lr_hash_fun :: "u8 list \<Rightarrow> nat \<Rightarrow> u32 \<times> nat \<times> nat" where
  "lr_hash_fun data bits =
     (let h = allnet_record_simple_hash_fn data bits in (h, left_index h, right_index h))"

definition get_hash_time :: "hash_entry \<Rightarrow> u32 \<Rightarrow> int \<Rightarrow> u32" where
  "get_hash_time entry h now =
     (if hash entry \<noteq> h \<or> last_seen entry = 0 then 0
      else let hash_time = now - last_seen entry
           in of_int (if hash_time \<le> 0 then 1 else hash_time))"

definition init :: "record_state \<Rightarrow> record_state" where
  "init s =
     (if initialized s then s
      else let zero = (\<lambda>_. \<lparr>last_seen = 0, hash = 0\<rparr>)
           in s\<lparr>hash1 := zero, hash2 := zero, initialized := True\<rparr>)"

text \<open>The bytes of a header up to its hop count, which changes on the way.\<close>

definition hops_offset :: nat where
  "hops_offset = 2 + 1"

definition record_packet :: "int \<Rightarrow> u8 list option \<Rightarrow> record_state \<Rightarrow> u32 \<times> record_state" where
  "record_packet now packet s =
     (let s = init s
      in case packet of
           None \<Rightarrow> (1, s)
         | Some packet \<Rightarrow>
             if length packet < allnet_header_size then (1, s)
             else if length packet < hops_offset then (1, s)
             else
               let (h, left, right) =
                     lr_hash_fun (drop hops_offset packet) ((length packet - hops_offset) * 8 mod 2 ^ 32);
                   left_time = get_hash_time (hash1 s left) h now;
                   right_time = get_hash_time (hash2 s right) h now;
                   entry = \<lparr>last_seen = now, hash = h\<rparr>;
                   s = s\<lparr>hash1 := (hash1 s)(left := entry), hash2 := (hash2 s)(right := entry)\<rparr>
               in (if left_time = 0 then right_time
                   else if right_time = 0 then left_time
                   else if left_time > right_time then right_time
                   else left_time, s))"

section \<open>Rates\<close>

definition saved_addresses :: nat where "saved_addresses = 128"
definition default_max :: u32 where "default_max = allnet_priority_max - 1"

record rate_record =
  address :: "u8 list"
  num_bits :: u8
  packet_size :: u32

record track_state =
  saved :: "rate_record list"
  next_slot :: int

definition largest_rate :: u32 where
  "largest_rate = default_max"

definition track_static :: track_state where
  "track_static = \<lparr>saved = replicate saved_addresses \<lparr>address = replicate 8 0, num_bits = 0, packet_size = 0\<rparr>,
     next_slot = -1\<rparr>"

definition count_record :: "u8 list \<Rightarrow> u32 \<Rightarrow> rate_record \<Rightarrow> u32 \<times> u32 \<Rightarrow> u32 \<times> u32" where
  "count_record sender sbits r st =
     (case st of (nmatches, bytes) \<Rightarrow>
        if packet_size r > 0 then
          (if matches sender (unat sbits) (address r) (unat (num_bits r)) \<noteq> 0
           then nmatches + packet_size r else nmatches, bytes + packet_size r)
        else (nmatches, bytes))"

definition track_rate :: "u8 list \<Rightarrow> u32 \<Rightarrow> u32 \<Rightarrow> track_state \<Rightarrow> u32 \<times> track_state" where
  "track_rate sender sbits psize s =
     (let s = (if next_slot s < 0
               then s\<lparr>saved := map (\<lambda>_. \<lparr>address = replicate 8 0, num_bits = 0, packet_size = 0\<rparr>) (saved s),
                      next_slot := 0\<rparr>
               else s);
          (nmatches, bytes) = fold (count_record sender sbits) (saved s) (0, 0);
          s = s\<lparr>saved := (saved s)[nat (next_slot s) :=
                  \<lparr>address = take 8 sender, num_bits = ucast sbits, packet_size = psize\<rparr>],
                next_slot := (next_slot s + 1) mod int saved_addresses\<rparr>;
          nmatches = nmatches + psize;
          bytes = bytes + psize
      in if bytes = 0 then (default_max, s)
         else ((allnet_priority_max div bytes) * nmatches, s))"

section \<open>Detecting duplicates\<close>

definition packet_hash :: "u8 list \<Rightarrow> u32" where
  "packet_hash p = allnet_record_simple_hash_fn (drop hops_offset p) ((length p - hops_offset) * 8 mod 2 ^ 32)"

definition receive :: "(int \<times> u8 list) list \<Rightarrow> record_state \<Rightarrow> record_state" where
  "receive ps s = fold (\<lambda>(now, p) s. snd (record_packet now (Some p) s)) ps s"

lemma record_short: "length p < allnet_header_size \<Longrightarrow> record_packet now (Some p) s = (1, init s)"
  by (simp add: record_packet_def)

lemma record_long:
  assumes "allnet_header_size \<le> length p"
  shows "record_packet now (Some p) s =
    (let h = packet_hash p;
         left_time = get_hash_time (hash1 (init s) (left_index h)) h now;
         right_time = get_hash_time (hash2 (init s) (right_index h)) h now
     in (if left_time = 0 then right_time
         else if right_time = 0 then left_time
         else if left_time > right_time then right_time else left_time,
         (init s)\<lparr>hash1 := (hash1 (init s))(left_index h := \<lparr>last_seen = now, hash = h\<rparr>),
                 hash2 := (hash2 (init s))(right_index h := \<lparr>last_seen = now, hash = h\<rparr>)\<rparr>))"
  using assms
  by (simp add: record_packet_def lr_hash_fun_def packet_hash_def Let_def allnet_header_size_def hops_offset_def)

lemma init_initialized [simp]: "initialized (init s)" "initialized s \<Longrightarrow> init s = s"
  by (simp_all add: init_def Let_def)

lemma record_initialized [simp]: "initialized (snd (record_packet now p s))"
  by (cases p) (auto simp: record_packet_def Let_def split: prod.split)

text \<open>A slot keeps its entry while other packets fall into other slots.\<close>

lemma receive_keeps_left:
  assumes "initialized s"
    and "\<forall>(u, q) \<in> set ps. allnet_header_size \<le> length q \<longrightarrow> left_index (packet_hash q) \<noteq> i"
  shows "hash1 (receive ps s) i = hash1 s i \<and> initialized (receive ps s)"
  using assms
proof (induction ps arbitrary: s)
  case (Cons p ps)
  obtain u q where p: "p = (u, q)" by fastforce
  have "hash1 (snd (record_packet u (Some q) s)) i = hash1 s i"
    using Cons.prems p
    by (cases "length q < allnet_header_size") (auto simp: record_short record_long Let_def not_less)
  then show ?case using Cons.IH [of "snd (record_packet u (Some q) s)"] Cons.prems p
    by (simp add: receive_def)
qed (simp add: receive_def)

lemma receive_keeps_right:
  assumes "initialized s"
    and "\<forall>(u, q) \<in> set ps. allnet_header_size \<le> length q \<longrightarrow> right_index (packet_hash q) \<noteq> i"
  shows "hash2 (receive ps s) i = hash2 s i \<and> initialized (receive ps s)"
  using assms
proof (induction ps arbitrary: s)
  case (Cons p ps)
  obtain u q where p: "p = (u, q)" by fastforce
  have "hash2 (snd (record_packet u (Some q) s)) i = hash2 s i"
    using Cons.prems p
    by (cases "length q < allnet_header_size") (auto simp: record_short record_long Let_def not_less)
  then show ?case using Cons.IH [of "snd (record_packet u (Some q) s)"] Cons.prems p
    by (simp add: receive_def)
qed (simp add: receive_def)

lemma seen_time:
  assumes "t \<noteq> 0" and "now - t < 2 ^ 32"
  shows "get_hash_time \<lparr>last_seen = t, hash = h\<rparr> h now \<noteq> 0"
    and "uint (get_hash_time \<lparr>last_seen = t, hash = h\<rparr> h now) = max 1 (now - t)"
proof -
  let ?d = "if now - t \<le> 0 then 1 else now - t"
  have d: "uint (of_int ?d :: u32) = ?d" using assms(2) by (simp add: uint_word_of_int take_bit_int_eq_self)
  then show time: "uint (get_hash_time \<lparr>last_seen = t, hash = h\<rparr> h now) = max 1 (now - t)"
    using assms(1) by (simp add: get_hash_time_def Let_def)
  show "get_hash_time \<lparr>last_seen = t, hash = h\<rparr> h now \<noteq> 0"
  proof
    assume "get_hash_time \<lparr>last_seen = t, hash = h\<rparr> h now = 0"
    then show False using time by simp
  qed
qed

text \<open>The lesser of two times, of which 0 stands for never.\<close>

lemma lesser_time:
  fixes a b :: u32
  assumes "a = x \<or> b = x" and "x \<noteq> 0"
  shows "(if a = 0 then b else if b = 0 then a else if a > b then b else a) \<noteq> 0 \<and>
    (if a = 0 then b else if b = 0 then a else if a > b then b else a) \<le> x"
  using assms by (auto simp: not_less)

lemma record_stores:
  assumes "allnet_header_size \<le> length p"
  shows "hash1 (snd (record_packet now (Some p) s)) (left_index (packet_hash p)) =
      \<lparr>last_seen = now, hash = packet_hash p\<rparr>"
    and "hash2 (snd (record_packet now (Some p) s)) (right_index (packet_hash p)) =
      \<lparr>last_seen = now, hash = packet_hash p\<rparr>"
  by (simp_all add: record_long [OF assms] Let_def)

lemma detected:
  assumes long: "allnet_header_size \<le> length p" and t: "t \<noteq> 0" "now - t < 2 ^ 32"
    and s: "initialized s"
      "hash1 s (left_index (packet_hash p)) = \<lparr>last_seen = t, hash = packet_hash p\<rparr> \<or>
       hash2 s (right_index (packet_hash p)) = \<lparr>last_seen = t, hash = packet_hash p\<rparr>"
  shows "1 \<le> uint (fst (record_packet now (Some p) s)) \<and>
    uint (fst (record_packet now (Some p) s)) \<le> max 1 (now - t)"
proof -
  let ?h = "packet_hash p" and ?x = "get_hash_time \<lparr>last_seen = t, hash = packet_hash p\<rparr> (packet_hash p) now"
  let ?a = "get_hash_time (hash1 s (left_index ?h)) ?h now" and ?b = "get_hash_time (hash2 s (right_index ?h)) ?h now"
  note x = seen_time [OF t, of ?h]
  have "?a = ?x \<or> ?b = ?x" using s(2) by auto
  from lesser_time [OF this x(1)] have "fst (record_packet now (Some p) s) \<noteq> 0 \<and>
      fst (record_packet now (Some p) s) \<le> ?x"
    using s(1) by (simp add: record_long [OF long] Let_def split del: if_split)
  then show ?thesis using x(2) uint_ge_0 [of "fst (record_packet now (Some p) s)"]
    by (auto simp: word_le_def uint_0_iff order_le_less)
qed

lemma unseen:
  "initialized s \<Longrightarrow> allnet_header_size \<le> length p \<Longrightarrow>
   (\<And>i. hash (hash1 s i) \<noteq> packet_hash p \<or> last_seen (hash1 s i) = 0) \<Longrightarrow>
   (\<And>i. hash (hash2 s i) \<noteq> packet_hash p \<or> last_seen (hash2 s i) = 0) \<Longrightarrow>
   fst (record_packet now (Some p) s) = 0"
  by (simp add: record_long Let_def get_hash_time_def)

section \<open>The window of saved packets\<close>

text \<open>A packet seen by \<open>track_rate\<close>: its source, the bits of it that count, and its size.\<close>

type_synonym seen = "u8 list \<times> u32 \<times> u32"

definition record_of :: "seen \<Rightarrow> rate_record" where
  "record_of q = (case q of (sender, sbits, psize) \<Rightarrow>
     \<lparr>address = take 8 sender, num_bits = ucast sbits, packet_size = psize\<rparr>)"

definition no_record :: rate_record where
  "no_record = \<lparr>address = replicate 8 0, num_bits = 0, packet_size = 0\<rparr>"

definition track_all :: "seen list \<Rightarrow> track_state" where
  "track_all ps = fold (\<lambda>(sender, sbits, psize) s. snd (track_rate sender sbits psize s)) ps track_static"

definition ring :: "seen list \<Rightarrow> track_state \<Rightarrow> bool" where
  "ring ps s \<longleftrightarrow> length (saved s) = saved_addresses \<and>
     (\<forall>j < length ps. length ps \<le> j + saved_addresses \<longrightarrow>
        saved s ! (j mod saved_addresses) = record_of (ps ! j)) \<and>
     (\<forall>i. length ps \<le> i \<and> i < saved_addresses \<longrightarrow> saved s ! i = no_record) \<and>
     (if ps = [] then next_slot s = -1 else next_slot s = int (length ps mod saved_addresses))"

lemma ring_static: "ring [] track_static"
  by (simp add: ring_def track_static_def no_record_def)

lemma mod_window: "j < n \<Longrightarrow> Suc n \<le> j + m \<Longrightarrow> j mod m \<noteq> n mod m" for j n m :: nat
proof
  assume j: "j < n" "Suc n \<le> j + m" and eq: "j mod m = n mod m"
  have "m dvd n - j" using mod_eq_dvd_iff_nat [of j n m] j eq by simp
  then show False using j by (auto dest: dvd_imp_le)
qed

lemma track_saved:
  "saved (snd (track_rate sender sbits psize s)) =
    (if next_slot s < 0 then map (\<lambda>_. no_record) (saved s) else saved s)
      [nat (if next_slot s < 0 then 0 else next_slot s) := record_of (sender, sbits, psize)]"
  "next_slot (snd (track_rate sender sbits psize s)) =
    ((if next_slot s < 0 then 0 else next_slot s) + 1) mod int saved_addresses"
  by (simp_all add: track_rate_def Let_def case_prod_beta record_of_def no_record_def)

lemma ring_step:
  assumes "ring ps s"
  shows "ring (ps @ [(sender, sbits, psize)]) (snd (track_rate sender sbits psize s))"
proof -
  let ?n = "length ps" and ?m = saved_addresses
  have m: "0 < ?m" by (simp add: saved_addresses_def)
  define old where "old = (if next_slot s < 0 then map (\<lambda>_. no_record) (saved s) else saved s)"
  have slot: "(if next_slot s < 0 then 0 else next_slot s) = int (?n mod ?m)"
    using assms by (auto simp: ring_def split: if_splits)
  have old: "length old = ?m" "\<forall>j < ?n. ?n \<le> j + ?m \<longrightarrow> old ! (j mod ?m) = record_of (ps ! j)"
    "\<forall>i. ?n \<le> i \<and> i < ?m \<longrightarrow> old ! i = no_record"
    using assms by (auto simp: ring_def old_def split: if_splits)
  have new: "saved (snd (track_rate sender sbits psize s)) = old[?n mod ?m := record_of (sender, sbits, psize)]"
    unfolding track_saved(1) old_def [symmetric] slot by simp
  have "next_slot (snd (track_rate sender sbits psize s)) = int (Suc ?n mod ?m)"
    unfolding track_saved(2) slot by (simp add: zmod_int mod_simps add.commute)
  moreover have "old[?n mod ?m := r] ! (j mod ?m) = old ! (j mod ?m)"
    if "j < ?n" "Suc ?n \<le> j + ?m" for j r using mod_window [OF that] by simp
  moreover have "old[?n mod ?m := r] ! i = old ! i" if "Suc ?n \<le> i" "i < ?m" for i r
    using that by (simp add: nth_list_update)
  ultimately show ?thesis using old m
    by (auto simp: ring_def new nth_append less_Suc_eq)
qed

lemma ring_track_all: "ring ps (track_all ps)"
proof (induction ps rule: rev_induct)
  case Nil
  then show ?case by (simp add: track_all_def ring_static)
next
  case (snoc p ps)
  then show ?case using ring_step by (cases p) (auto simp: track_all_def)
qed

text \<open>Sums over the saved records are sums over the last packets.\<close>

lemma ring_slots:
  assumes "ring ps s"
  shows "saved (snd (track_rate sender sbits psize s)) =
      (saved s)[length ps mod saved_addresses := record_of (sender, sbits, psize)]"
    and "saved s ! (length ps mod saved_addresses) =
      (if length ps < saved_addresses then no_record else record_of (ps ! (length ps - saved_addresses)))"
proof -
  have m: "0 < saved_addresses" by (simp add: saved_addresses_def)
  have same: "(if next_slot s < 0 then map (\<lambda>_. no_record) (saved s) else saved s) = saved s"
    using assms by (auto simp: ring_def intro!: nth_equalityI split: if_splits)
  have "nat (if next_slot s < 0 then 0 else next_slot s) = length ps mod saved_addresses"
    using assms by (auto simp: ring_def split: if_splits)
  then show "saved (snd (track_rate sender sbits psize s)) =
      (saved s)[length ps mod saved_addresses := record_of (sender, sbits, psize)]"
    unfolding track_saved(1) same by simp
  show "saved s ! (length ps mod saved_addresses) =
      (if length ps < saved_addresses then no_record else record_of (ps ! (length ps - saved_addresses)))"
  proof (cases "length ps < saved_addresses")
    case True
    then show ?thesis using assms by (simp add: ring_def)
  next
    case False
    then have "(length ps - saved_addresses) mod saved_addresses = length ps mod saved_addresses"
      by (simp add: le_mod_geq)
    moreover have "saved s ! ((length ps - saved_addresses) mod saved_addresses) =
        record_of (ps ! (length ps - saved_addresses))"
      using assms False m by (simp add: ring_def)
    ultimately show ?thesis using False by simp
  qed
qed

lemma ring_sum:
  fixes f :: "rate_record \<Rightarrow> nat"
  assumes zero: "f no_record = 0"
  shows "sum_list (map f (saved (track_all ps))) =
    (\<Sum>q \<leftarrow> drop (length ps - saved_addresses) ps. f (record_of q))"
proof (induction ps rule: rev_induct)
  case Nil
  have "map f (saved (track_all [])) = replicate saved_addresses 0"
    using zero by (simp add: track_all_def track_static_def no_record_def)
  then show ?case by (simp add: sum_list_replicate)
next
  case (snoc p ps)
  obtain sender sbits psize where p: "p = (sender, sbits, psize)" by (rule prod_cases3)
  let ?s = "track_all ps" and ?k = "length ps mod saved_addresses"
  note slot = ring_slots(1) [OF ring_track_all [of ps], of sender sbits psize]
  note oldest = ring_slots(2) [OF ring_track_all [of ps]]
  have len: "?k < length (saved ?s)"
    using ring_track_all [of ps] by (simp add: ring_def saved_addresses_def)
  have "saved (track_all (ps @ [p])) = (saved ?s)[?k := record_of p]"
    using slot p by (simp add: track_all_def)
  then have "sum_list (map f (saved (track_all (ps @ [p])))) + f (saved ?s ! ?k) =
      sum_list (map f (saved ?s)) + f (record_of p)"
    using len sum_list_update [of ?k "map f (saved ?s)" "f (record_of p)"]
      member_le_sum_list [of "f (saved ?s ! ?k)" "map f (saved ?s)"]
    by (simp add: map_update)
  moreover have "(\<Sum>q \<leftarrow> drop (length ps - saved_addresses) ps. f (record_of q)) =
      f (saved ?s ! ?k) + (\<Sum>q \<leftarrow> drop (Suc (length ps) - saved_addresses) ps. f (record_of q))"
  proof (cases "length ps < saved_addresses")
    case True
    then show ?thesis using oldest zero by simp
  next
    case False
    then have "length ps - saved_addresses < length ps"
      "Suc (length ps - saved_addresses) = Suc (length ps) - saved_addresses"
      by (simp_all add: Suc_diff_le) (simp add: saved_addresses_def)
    then have "drop (length ps - saved_addresses) ps =
        ps ! (length ps - saved_addresses) # drop (Suc (length ps) - saved_addresses) ps"
      by (metis Cons_nth_drop_Suc)
    then show ?thesis using oldest False by simp
  qed
  moreover have "drop (length (ps @ [p]) - saved_addresses) (ps @ [p]) =
      drop (Suc (length ps) - saved_addresses) ps @ [p]"
    by (simp add: saved_addresses_def)
  ultimately show ?case using snoc.IH by simp
qed

lemma saved_records:
  "r \<in> set (saved (track_all ps)) \<Longrightarrow> r = no_record \<or> (\<exists>q \<in> set ps. r = record_of q)"
proof (induction ps rule: rev_induct)
  case Nil
  then show ?case by (simp add: track_all_def track_static_def no_record_def)
next
  case (snoc p ps)
  obtain sender sbits psize where p: "p = (sender, sbits, psize)" by (rule prod_cases3)
  have "saved (track_all (ps @ [p])) =
      (saved (track_all ps))[length ps mod saved_addresses := record_of p]"
    using ring_slots(1) [OF ring_track_all [of ps], of sender sbits psize] p by (simp add: track_all_def)
  with snoc show ?case by (auto dest: set_update_subset_insert [THEN subsetD])
qed

section \<open>The share of a source\<close>

definition counted :: "u8 list \<Rightarrow> u32 \<Rightarrow> rate_record \<Rightarrow> nat" where
  "counted sender sbits r =
     (if matches sender (unat sbits) (address r) (unat (num_bits r)) \<noteq> 0 then unat (packet_size r) else 0)"

definition small_record :: "rate_record \<Rightarrow> bool" where
  "small_record r \<longleftrightarrow> unat (packet_size r) \<le> 2 ^ 24"

lemma counted_le: "counted sender sbits r \<le> unat (packet_size r)"
  by (simp add: counted_def)

lemma unat_add32: "unat (a :: u32) + unat b < 2 ^ 32 \<Longrightarrow> unat (a + b) = unat a + unat b"
  using unat_add_lem [of a b] by simp

lemma count_records:
  assumes "\<forall>r \<in> set rs. small_record r" and "unat bytes + length rs * 2 ^ 24 < 2 ^ 32"
    and "unat nmatches \<le> unat bytes"
  shows "\<exists>n b. fold (count_record sender sbits) rs (nmatches, bytes) = (n, b) \<and>
    unat b = unat bytes + sum_list (map (\<lambda>r. unat (packet_size r)) rs) \<and>
    unat n = unat nmatches + sum_list (map (counted sender sbits) rs) \<and> unat n \<le> unat b"
  using assms
proof (induction rs arbitrary: nmatches bytes)
  case (Cons r rs)
  have small: "unat (packet_size r) \<le> 2 ^ 24" using Cons.prems(1) by (simp add: small_record_def)
  then have "unat (bytes + packet_size r) = unat bytes + unat (packet_size r)"
    "unat (nmatches + packet_size r) = unat nmatches + unat (packet_size r)"
    using Cons.prems(2,3) by (intro unat_add32; simp)+
  then have step: "\<exists>n b. count_record sender sbits r (nmatches, bytes) = (n, b) \<and>
      unat b = unat bytes + unat (packet_size r) \<and> unat n = unat nmatches + counted sender sbits r"
    by (auto simp: count_record_def counted_def word_gt_0)
  then obtain n b where nb: "count_record sender sbits r (nmatches, bytes) = (n, b)"
    "unat b = unat bytes + unat (packet_size r)" "unat n = unat nmatches + counted sender sbits r" by blast
  have "unat b + length rs * 2 ^ 24 < 2 ^ 32" "unat n \<le> unat b"
    using Cons.prems(2,3) nb small counted_le [of sender sbits r] by simp_all
  from Cons.IH [OF _ this] Cons.prems(1) nb show ?case by (auto simp: add.assoc)
qed simp

lemma sum_list_le_length:
  "\<forall>x \<in> set xs. f x \<le> c \<Longrightarrow> sum_list (map f xs) \<le> length xs * c" for f :: "'a \<Rightarrow> nat"
  by (induction xs) auto

lemma share_bound:
  fixes m b n :: nat
  assumes "n \<le> b"
  shows "m div b * n \<le> m"
proof -
  have "m div b * n \<le> m div b * b" using assms by (intro mult_le_mono2)
  also have "\<dots> \<le> m" by simp
  finally show ?thesis .
qed

lemma unat_priority_max: "unat allnet_priority_max = 2 ^ 30"
  by (simp add: allnet_priority_max_def)

lemma track_rate_value:
  assumes "\<forall>q \<in> set ps. unat (snd (snd q)) \<le> 2 ^ 24" and "unat psize \<le> 2 ^ 24"
  shows "let window = drop (length ps - saved_addresses) ps;
      bytes = (\<Sum>q \<leftarrow> window. unat (snd (snd q))) + unat psize;
      mine = (\<Sum>q \<leftarrow> window. counted sender sbits (record_of q)) + unat psize
    in unat (fst (track_rate sender sbits psize (track_all ps))) =
        (if bytes = 0 then 2 ^ 30 - 1 else 2 ^ 30 div bytes * mine) \<and> mine \<le> bytes"
proof -
  let ?s = "track_all ps" and ?window = "drop (length ps - saved_addresses) ps"
  let ?bytes = "\<Sum>q \<leftarrow> ?window. unat (snd (snd q))"
  let ?mine = "\<Sum>q \<leftarrow> ?window. counted sender sbits (record_of q)"
  have ring: "ring ps ?s" by (rule ring_track_all)
  have "next_slot ?s < 0 \<Longrightarrow> map (\<lambda>_. no_record) (saved ?s) = saved ?s"
    using ring by (auto simp: ring_def intro!: nth_equalityI split: if_splits)
  then have same: "(if next_slot ?s < 0 then ?s\<lparr>saved := map (\<lambda>_. no_record) (saved ?s), next_slot := 0\<rparr> else ?s) =
      ?s\<lparr>next_slot := (if next_slot ?s < 0 then 0 else next_slot ?s)\<rparr>"
    by simp
  have "\<forall>r \<in> set (saved ?s). small_record r"
    using saved_records [of _ ps] assms(1)
    by (fastforce simp: small_record_def no_record_def record_of_def split: prod.splits)
  moreover have len: "length (saved ?s) = 128" using ring by (simp add: ring_def saved_addresses_def)
  ultimately obtain n b where nb: "fold (count_record sender sbits) (saved ?s) (0, 0) = (n, b)"
    "unat b = sum_list (map (\<lambda>r. unat (packet_size r)) (saved ?s))"
    "unat n = sum_list (map (counted sender sbits) (saved ?s))" "unat n \<le> unat b"
    using count_records [of "saved ?s" 0 0 sender sbits] by auto
  have sums: "unat b = ?bytes" "unat n = ?mine"
    unfolding nb(2,3)
    by (subst ring_sum; simp add: no_record_def counted_def record_of_def case_prod_beta)+
  have "sum_list (map (\<lambda>r. unat (packet_size r)) (saved ?s)) \<le> length (saved ?s) * 2 ^ 24"
    using \<open>\<forall>r \<in> set (saved ?s). small_record r\<close>
    by (intro sum_list_le_length) (simp add: small_record_def)
  then have small: "unat b + unat psize < 2 ^ 32" using nb(2) len assms(2) by simp
  have add: "unat (b + psize) = unat b + unat psize" "unat (n + psize) = unat n + unat psize"
    using small nb(4) by (intro unat_add32; simp)+
  have rate: "fst (track_rate sender sbits psize ?s) =
      (if b + psize = 0 then default_max else allnet_priority_max div (b + psize) * (n + psize))"
    unfolding track_rate_def Let_def no_record_def [symmetric] same by (simp add: nb(1))
  have bound: "2 ^ 30 div (unat b + unat psize) * (unat n + unat psize) \<le> 2 ^ 30"
    using nb(4) by (intro share_bound) simp
  have "unat (allnet_priority_max div (b + psize) * (n + psize)) =
      2 ^ 30 div (unat b + unat psize) * (unat n + unat psize)"
  proof -
    have "unat n + unat psize < 2 ^ 32" using small nb(4) by simp
    then show ?thesis using bound small
      by (simp add: unat_div unat_priority_max unat_word_ariths)
  qed
  moreover have "b + psize = 0 \<longleftrightarrow> unat b + unat psize = 0" using add by (metis unat_eq_0)
  moreover have "unat default_max = 2 ^ 30 - 1"
    by (simp add: default_max_def allnet_priority_max_def)
  ultimately show ?thesis unfolding Let_def rate using sums nb(4) by simp
qed

section \<open>Properties\<close>

text \<open>
  C13: a packet that comes back, with any hop count, is recognised: its age in seconds, at least 1, is
  reported, and no more than the time since it was recorded, as long as the packets received in
  between leave its slot alone in at least one of the two tables.
\<close>

theorem duplicates_are_detected:
  assumes "allnet_header_size \<le> length p" and "length p' = length p" and "drop hops_offset p' = drop hops_offset p"
    and "t \<noteq> 0" and "now - t < 2 ^ 32"
    and "(\<forall>(u, q) \<in> set later. allnet_header_size \<le> length q \<longrightarrow>
        left_index (packet_hash q) \<noteq> left_index (packet_hash p)) \<or>
      (\<forall>(u, q) \<in> set later. allnet_header_size \<le> length q \<longrightarrow>
        right_index (packet_hash q) \<noteq> right_index (packet_hash p))"
  shows "1 \<le> uint (fst (record_packet now (Some p') (receive later (snd (record_packet t (Some p) s))))) \<and>
    uint (fst (record_packet now (Some p') (receive later (snd (record_packet t (Some p) s))))) \<le> max 1 (now - t)"
proof -
  let ?s1 = "snd (record_packet t (Some p) s)"
  have same: "packet_hash p' = packet_hash p" using assms(2,3) by (simp add: packet_hash_def)
  have init: "initialized ?s1" by simp
  note stores = record_stores [OF assms(1), of t s]
  have long: "allnet_header_size \<le> length p'" using assms(1,2) by simp
  from assms(6) show ?thesis
  proof
    assume "\<forall>(u, q) \<in> set later. allnet_header_size \<le> length q \<longrightarrow>
        left_index (packet_hash q) \<noteq> left_index (packet_hash p)"
    from receive_keeps_left [OF init this] stores(1) same
    show ?thesis by (intro detected [OF long assms(4,5)]) simp_all
  next
    assume "\<forall>(u, q) \<in> set later. allnet_header_size \<le> length q \<longrightarrow>
        right_index (packet_hash q) \<noteq> right_index (packet_hash p)"
    from receive_keeps_right [OF init this] stores(2) same
    show ?thesis by (intro detected [OF long assms(4,5)]) simp_all
  qed
qed

theorem duplicates_are_detected_witness:
  "1 \<le> uint (fst (record_packet 1003 (Some ([3, 1, 4] @ replicate 21 7))
     (receive [(1001, [9, 9])] (snd (record_packet 1000 (Some ([3, 1, 2] @ replicate 21 7))
     \<lparr>hash1 = (\<lambda>_. \<lparr>last_seen = 3, hash = 4\<rparr>), hash2 = (\<lambda>_. \<lparr>last_seen = 5, hash = 6\<rparr>),
      initialized = False\<rparr>)))))"
proof -
  have "allnet_header_size \<le> length ([3, 1, 2 :: u8] @ replicate 21 7)" by (simp add: allnet_header_size_def)
  from duplicates_are_detected [OF this, of "[3, 1, 4] @ replicate 21 7" 1000 1003 "[(1001, [9, 9])]"
      "\<lparr>hash1 = (\<lambda>_. \<lparr>last_seen = 3, hash = 4\<rparr>), hash2 = (\<lambda>_. \<lparr>last_seen = 5, hash = 6\<rparr>),
      initialized = False\<rparr>"]
  show ?thesis by (simp add: hops_offset_def allnet_header_size_def)
qed

text \<open>
  C38: the share reported for a source is the part of the bytes that came from matching sources, this
  packet included, of all the bytes of this packet and the last 128 before it: it is a fraction of
  \<open>ALLNET_PRIORITY_MAX\<close> and never exceeds it.
\<close>

theorem track_rate_is_share:
  assumes "\<forall>q \<in> set ps. unat (snd (snd q)) \<le> 2 ^ 24" and "unat psize \<le> 2 ^ 24"
  shows "let window = drop (length ps - saved_addresses) ps;
      bytes = (\<Sum>q \<leftarrow> window. unat (snd (snd q))) + unat psize;
      mine = (\<Sum>q \<leftarrow> window. counted sender sbits (record_of q)) + unat psize
    in unat (fst (track_rate sender sbits psize (track_all ps))) =
        (if bytes = 0 then 2 ^ 30 - 1 else 2 ^ 30 div bytes * mine) \<and>
      unat (fst (track_rate sender sbits psize (track_all ps))) \<le> 2 ^ 30"
  using track_rate_value [OF assms, of sender sbits] by (auto simp: Let_def intro: share_bound)

theorem track_rate_is_share_witness:
  "unat (fst (track_rate [1, 2, 3, 4, 5, 6, 7, 8] 16 100
     (track_all [([1, 2, 0, 0, 0, 0, 0, 0], 16, 100), ([5, 5, 5, 5, 5, 5, 5, 5], 64, 200)]))) =
   2 ^ 30 div 400 * 200"
proof -
  have "counted [1, 2, 3, 4, 5, 6, 7, 8] 16 (record_of ([1, 2, 0, 0, 0, 0, 0, 0], 16, 100)) = 100"
    "counted [1, 2, 3, 4, 5, 6, 7, 8] 16 (record_of ([5, 5, 5, 5, 5, 5, 5, 5], 64, 200)) = 0"
    by code_simp+
  with track_rate_is_share [of "[([1, 2, 0, 0, 0, 0, 0, 0], 16, 100), ([5, 5, 5, 5, 5, 5, 5, 5], 64, 200)]"
      100 "[1, 2, 3, 4, 5, 6, 7, 8]" 16]
  show ?thesis by (simp add: Let_def saved_addresses_def)
qed

end
