(* ===== verification/RsaMath.thy ===== *)
theory RsaMath
  imports WpMont
begin

text \<open>
  The number theory behind RSA: Fermat's little theorem, congruences modulo a product of distinct
  primes, and the modular inverse of \<open>lib/wp_rsa.c\<close>, a form of Euclid's algorithm over arrays of
  words.
\<close>

section \<open>Prime numbers\<close>

definition prime_number :: "nat \<Rightarrow> bool" where
  "prime_number p \<longleftrightarrow> 1 < p \<and> (\<forall>d \<in> {2..<p}. \<not> d dvd p)"

lemma prime_dvd_cases: "prime_number p \<Longrightarrow> d dvd p \<Longrightarrow> d = 1 \<or> d = p"
proof -
  assume p: "prime_number p" and d: "d dvd p"
  then have "d \<le> p" and "d \<noteq> 0" by (auto simp: prime_number_def intro!: dvd_imp_le Nat.gr0I)
  moreover have "d \<notin> {2..<p}" using p d by (auto simp: prime_number_def)
  ultimately show ?thesis by auto
qed

lemma prime_coprime: "prime_number p \<Longrightarrow> \<not> p dvd a \<Longrightarrow> coprime p a"
proof (rule coprimeI)
  fix c assume "prime_number p" "\<not> p dvd a" "c dvd p" "c dvd a"
  with prime_dvd_cases [of p c] show "is_unit c" by auto
qed

lemma prime_dvd_mult: "prime_number p \<Longrightarrow> p dvd a * b \<Longrightarrow> p dvd a \<or> p dvd b"
  using prime_coprime [of p a] by (metis coprime_dvd_mult_right_iff)

lemma prime_dvd_power: "prime_number p \<Longrightarrow> p dvd x ^ e \<Longrightarrow> p dvd x"
proof (induction e)
  case 0
  then show ?case by (auto simp: prime_number_def)
next
  case (Suc e)
  then show ?case using prime_dvd_mult [of p x "x ^ e"] by auto
qed

lemma distinct_primes_coprime:
  "prime_number p \<Longrightarrow> prime_number q \<Longrightarrow> p \<noteq> q \<Longrightarrow> coprime p q"
  using prime_coprime [of p q] prime_dvd_cases [of q p] by (auto simp: prime_number_def)

lemma prime_dvd_choose:
  assumes "prime_number p" and "0 < k" and "k < p"
  shows "p dvd p choose k"
proof -
  have "k * (p choose k) = p * ((p - 1) choose (k - 1))"
    using times_binomial_minus1_eq [OF assms(2), of p] by simp
  then have "p dvd k * (p choose k)" by simp
  moreover have "\<not> p dvd k" using assms(2,3) by (auto dest: dvd_imp_le)
  ultimately show ?thesis using prime_dvd_mult [OF assms(1)] by blast
qed

lemma fermat:
  assumes p: "prime_number p"
  shows "a ^ p mod p = a mod p"
proof (induction a)
  case 0
  then show ?case using p by (simp add: prime_number_def zero_power)
next
  case (Suc a)
  have "(a + 1) ^ p = (\<Sum>k \<le> p. (p choose k) * a ^ k)"
    using binomial [of a 1 p] by simp
  also have "\<dots> = a ^ p + (\<Sum>k < p. (p choose k) * a ^ k)"
    by (simp add: lessThan_Suc_atMost [symmetric])
  also have "(\<Sum>k < p. (p choose k) * a ^ k) = 1 + (\<Sum>k \<in> {1..<p}. (p choose k) * a ^ k)"
  proof -
    have "{..<p} = insert 0 {1..<p}" using p by (auto simp: prime_number_def)
    then show ?thesis by simp
  qed
  finally have "(a + 1) ^ p = (a ^ p + 1) + (\<Sum>k \<in> {1..<p}. (p choose k) * a ^ k)" by simp
  moreover have "p dvd (\<Sum>k \<in> {1..<p}. (p choose k) * a ^ k)"
    using prime_dvd_choose [OF p] by (intro dvd_sum) simp
  ultimately have "(a + 1) ^ p mod p = (a ^ p + 1) mod p"
    by (metis add_0_right dvd_imp_mod_0 mod_add_right_eq)
  also have "\<dots> = (a + 1) mod p" using Suc by (metis mod_add_left_eq)
  finally show ?case by simp
qed

lemma fermat_exponent:
  assumes "prime_number p" and "e mod (p - 1) = 1 mod (p - 1)" and "0 < e"
  shows "a ^ e mod p = a mod p"
proof -
  have step: "a ^ (1 + k * (p - 1)) mod p = a mod p" for k
  proof (induction k)
    case (Suc k)
    have "1 + Suc k * (p - 1) = k * (p - 1) + p"
      using assms(1) by (simp add: prime_number_def)
    then have "a ^ (1 + Suc k * (p - 1)) mod p = a ^ (k * (p - 1)) * a ^ p mod p"
      by (simp add: power_add mult.commute)
    also have "\<dots> = a ^ (k * (p - 1)) * a mod p"
      by (metis fermat [OF assms(1)] mod_mult_right_eq)
    finally show ?case using Suc by (simp add: mult.commute)
  qed simp
  have "p - 1 dvd e - 1"
    using assms(2,3) mod_eq_dvd_iff_nat [of 1 e "p - 1"] by simp
  then obtain k where "e - 1 = k * (p - 1)" by (metis dvdE mult.commute)
  with assms(3) have "e = 1 + k * (p - 1)" by simp
  with step [of k] show ?thesis by (simp only:)
qed

lemma fermat_exponents:
  assumes p: "prime_number p" and "x mod (p - 1) = y mod (p - 1)" and "0 < x" and "0 < y"
  shows "a ^ x mod p = a ^ y mod p"
proof -
  have step: "a ^ (z + k * (p - 1)) mod p = a ^ z mod p" if z: "0 < z" for z k
  proof -
    have "z + k * (p - 1) = (z - 1) + (1 + k * (p - 1))" using z by simp
    then have "a ^ (z + k * (p - 1)) mod p = a ^ (z - 1) * (a ^ (1 + k * (p - 1)) mod p) mod p"
      by (simp only: power_add mod_mult_right_eq)
    also have "a ^ (1 + k * (p - 1)) mod p = a mod p"
      by (rule fermat_exponent [OF p mod_mult_self1]) simp
    also have "a ^ (z - 1) * (a mod p) mod p = a ^ z mod p"
      using z by (simp add: mod_mult_right_eq flip: power_Suc2)
    finally show ?thesis .
  qed
  have "a ^ x mod p = a ^ y mod p" if "x \<le> y" "x mod (p - 1) = y mod (p - 1)" "0 < x" for x y
  proof -
    have "p - 1 dvd y - x" using that mod_eq_dvd_iff_nat [of x y "p - 1"] by simp
    then obtain k where "y - x = k * (p - 1)" by (metis dvdE mult.commute)
    then have "y = x + k * (p - 1)" using that(1) by simp
    with step [OF that(3), of k] show ?thesis by simp
  qed
  note ordered = this
  show ?thesis
  proof (cases "x \<le> y")
    case True
    then show ?thesis by (rule ordered [OF _ assms(2,3)])
  next
    case False
    then have "a ^ y mod p = a ^ x mod p" by (intro ordered [OF _ assms(2) [symmetric] assms(4)]) simp
    then show ?thesis by (rule sym)
  qed
qed

lemma eq_mod_product:
  assumes "coprime p q" and "a mod p = b mod p" and "a mod q = b mod q"
  shows "a mod (p * q) = b mod (p * q :: nat)"
proof -
  have "a mod (p * q) = b mod (p * q)" if "b \<le> a" "a mod p = b mod p" "a mod q = b mod q" for a b
    using that assms(1) by (simp add: mod_eq_dvd_iff_nat divides_mult)
  from this [of b a] this [of a b] assms(2,3) show ?thesis by (cases "b \<le> a") auto
qed

text \<open>
  A modulus may be a product of distinct primes: what holds modulo every one of them holds modulo the
  product. A prime is the product of itself alone.
\<close>

definition distinct_primes :: "nat list \<Rightarrow> nat \<Rightarrow> bool" where
  "distinct_primes ps m \<longleftrightarrow> distinct ps \<and> (\<forall>p \<in> set ps. prime_number p) \<and> prod_list ps = m"

lemma distinct_primes_Nil [simp]: "distinct_primes [] m \<longleftrightarrow> m = 1"
  by (auto simp: distinct_primes_def)

lemma distinct_primes_single: "prime_number p \<Longrightarrow> distinct_primes [p] p"
  by (simp add: distinct_primes_def)

lemma prime_dvd_prod_list: "prime_number p \<Longrightarrow> p dvd prod_list ps \<Longrightarrow> \<exists>q \<in> set ps. p dvd q"
proof (induction ps)
  case Nil
  then show ?case by (auto simp: prime_number_def)
next
  case (Cons q ps)
  then show ?case using prime_dvd_mult [of p q "prod_list ps"] by auto
qed

lemma distinct_primes_Cons:
  assumes "distinct_primes (p # ps) m"
  shows "\<exists>m'. m = p * m' \<and> prime_number p \<and> coprime p m' \<and> distinct_primes ps m'"
proof -
  have pr: "prime_number p" "\<forall>q \<in> set ps. prime_number q" "p \<notin> set ps"
    using assms by (auto simp: distinct_primes_def)
  have "\<not> p dvd prod_list ps"
  proof
    assume "p dvd prod_list ps"
    then obtain q where q: "q \<in> set ps" "p dvd q" using prime_dvd_prod_list [OF pr(1)] by blast
    then have "p = 1 \<or> p = q" using pr(2) prime_dvd_cases by blast
    with pr q(1) show False by (auto simp: prime_number_def)
  qed
  then have "coprime p (prod_list ps)" by (rule prime_coprime [OF pr(1)])
  with assms show ?thesis by (auto simp: distinct_primes_def)
qed

lemma primes_eq_mod:
  "distinct_primes ps m \<Longrightarrow> \<forall>p \<in> set ps. a mod p = b mod p \<Longrightarrow> a mod m = b mod m"
proof (induction ps arbitrary: m)
  case (Cons p ps)
  then obtain m' where "m = p * m'" "coprime p m'" "distinct_primes ps m'"
    using distinct_primes_Cons by blast
  with Cons show ?case by (auto intro: eq_mod_product)
qed simp

lemma primes_power:
  assumes "distinct_primes ps m" and "\<forall>p \<in> set ps. x mod (p - 1) = y mod (p - 1)" and "0 < x" and "0 < y"
  shows "a ^ x mod m = a ^ y mod m"
  using assms
  by (intro primes_eq_mod [OF assms(1)]) (auto simp: distinct_primes_def intro: fermat_exponents)

lemma primes_good_base:
  assumes "distinct_primes ps m"
  shows "good_base x m"
  unfolding good_base_def
proof (intro allI impI)
  fix e assume "m dvd x ^ e"
  have "p dvd x" if p: "p \<in> set ps" for p
  proof -
    have pr: "prime_number p" using p assms by (simp add: distinct_primes_def)
    have "p dvd m"
      using assms p by (auto simp: distinct_primes_def in_set_conv_decomp)
    then have "p dvd x ^ e" using \<open>m dvd x ^ e\<close> by (rule dvd_trans)
    then show ?thesis by (rule prime_dvd_power [OF pr])
  qed
  then have "x mod m = 0 mod m" by (intro primes_eq_mod [OF assms]) simp
  then show "m dvd x" by (simp add: mod_eq_0_iff_dvd)
qed

lemma primes_append:
  assumes "distinct_primes ps m" and "distinct_primes qs k" and "coprime m k"
  shows "distinct_primes (ps @ qs) (m * k)"
proof -
  have "p dvd m" "p dvd k" if "p \<in> set ps" "p \<in> set qs" for p
    using that assms(1,2) by (auto simp: distinct_primes_def in_set_conv_decomp)
  then have "is_unit p" if "p \<in> set ps" "p \<in> set qs" for p
    using that assms(3) by (meson coprime_common_divisor)
  then have "set ps \<inter> set qs = {}"
    using assms(1) by (force simp: distinct_primes_def prime_number_def)
  then show ?thesis using assms(1,2) by (auto simp: distinct_primes_def)
qed

lemma primes_odd:
  assumes "distinct_primes ps m" and "\<forall>p \<in> set ps. p \<noteq> 2"
  shows "odd m"
  using assms
proof (induction ps arbitrary: m)
  case (Cons p ps)
  then obtain m' where m': "m = p * m'" "prime_number p" "distinct_primes ps m'"
    using distinct_primes_Cons by blast
  have "odd p" using prime_dvd_cases [OF m'(2), of 2] Cons.prems(2) by auto
  with m' Cons show ?case by simp
qed simp

section \<open>The modular inverse\<close>

text \<open>
  One turn of the loop of \<open>inverse_mod\<close>, and the loop; \<open>None\<close> is a failed assertion of a called
  function, or a loop that does not end. The warning printed when \<open>r\<close> is not above \<open>newr\<close> has no
  effect on the result.
\<close>

definition inverse_step ::
  "u64 list \<Rightarrow> u64 list \<times> u64 list \<times> u64 list \<times> u64 list \<Rightarrow>
   (u64 list \<times> u64 list \<times> u64 list \<times> u64 list) option" where
  "inverse_step m st = (case st of (t, newt, r, newr) \<Rightarrow>
     let n = length m; ndouble = 2 * n in do {
       div_arg \<leftarrow> wp_extend ndouble r;
       div_arg \<leftarrow> wp_div div_arg newr;
       let qp = drop n div_arg;
       let product1 = wp_multiply qp newt;
       product1 \<leftarrow> wp_div product1 m;
       let pm = take n product1;
       let x = fst (wp_sub t t pm);
       let x = (if wp_compare t pm < 0 then fst (wp_add x x m) else x);
       let product2 = wp_multiply qp newr;
       rfull \<leftarrow> wp_extend ndouble r;
       let y = fst (wp_sub rfull rfull product2);
       newr' \<leftarrow> wp_shrink n y;
       Some (newt, x, newr, newr')
     })"

partial_function (option) inverse_loop ::
  "u64 list \<Rightarrow> u64 list \<times> u64 list \<times> u64 list \<times> u64 list \<Rightarrow>
   (u64 list \<times> u64 list \<times> u64 list \<times> u64 list) option" where
  "inverse_loop m st =
     (if wp_is_zero (snd (snd (snd st))) then Some st
      else do { st' \<leftarrow> inverse_step m st; inverse_loop m st' })"

text \<open>The inner \<open>None\<close> is the result 0 of \<open>inverse_mod\<close>: there is no inverse.\<close>

definition inverse_mod :: "u64 list \<Rightarrow> u64 list \<Rightarrow> u64 list option option" where
  "inverse_mod val m = do {
     let n = length m;
     moddouble \<leftarrow> wp_extend (2 * n) m;
     (t, newt, r, newr) \<leftarrow> inverse_loop m (wp_init n 0, wp_init n 1, m, val);
     if wp_compare r (wp_init n 1) > 0 then Some None
     else Some (Some (if wp_compare t m > 0 then fst (wp_add t t m) else t))
   }"

definition mod_is_zero :: "u64 list \<Rightarrow> u64 list \<Rightarrow> bool option" where
  "mod_is_zero a b = do {
     acopy \<leftarrow> wp_extend (2 * length a) a;
     bcopy \<leftarrow> wp_extend (2 * length b) b;
     acopy \<leftarrow> wp_div acopy bcopy;
     Some (wp_is_zero (take (2 * length b) acopy))
   }"

text \<open>\<open>rsa_mod\<close> reduces \<open>n\<close>; its intermediate array holds \<open>n\<close> in the low half.\<close>

definition rsa_mod :: "u64 list \<Rightarrow> u64 list \<Rightarrow> u64 list option" where
  "rsa_mod n m =
     (if wp_compare n m \<ge> 0 then do {
        let result = replicate (length n) 0 @ n;
        result \<leftarrow> wp_div result m;
        Some (take (length n) result)
      } else Some n)"

text \<open>What the loop maintains, over the values of the arrays.\<close>

definition inverse_inv ::
  "nat \<Rightarrow> u64 list \<Rightarrow> u64 list \<times> u64 list \<times> u64 list \<times> u64 list \<Rightarrow> bool" where
  "inverse_inv v m st = (case st of (t, newt, r, newr) \<Rightarrow>
     length t = length m \<and> length newt = length m \<and> length r = length m \<and> length newr = length m \<and>
     wval t < wval m \<and> wval newt < wval m \<and> wval newr < wval r \<and> wval r \<le> wval m \<and>
     wval r mod wval m = wval t * v mod wval m \<and> wval newr mod wval m = wval newt * v mod wval m \<and>
     gcd (wval r) (wval newr) = gcd (wval m) v)"

lemma wp_extend_double:
  "0 < length a \<Longrightarrow> wp_extend (2 * length a) a = Some (replicate (length a) 0 @ a)"
  by (simp add: wp_extend_def)

lemma wval_extended [simp]: "wval (replicate k 0 @ a) = wval a"
  by (simp add: wval_append)

lemma wp_div_small:
  assumes "length r = length d" and "0 < wval d" 
  shows "\<exists>a. wp_div (replicate (length r) 0 @ r) d = Some a \<and> length a = 2 * length d \<and>
    wval (take (length d) a) = wval r mod wval d \<and> wval (drop (length d) a) = wval r div wval d"
  using wp_div_value [of "replicate (length r) 0 @ r" d] assms by auto

lemma wp_shrink_small:
  assumes "length y = 2 * n" and "0 < n" and "2 * wval y < wbase ^ n"
  shows "wp_shrink n y = Some (drop n y) \<and> wval (drop n y) = wval y"
proof -
  have split: "wval y = wval (take n y) * wbase ^ n + wval (drop n y)"
    using wval_split [of n y] assms(1) by simp
  have "wval (take n y) = 0"
  proof (rule ccontr)
    assume "wval (take n y) \<noteq> 0"
    then have "1 * wbase ^ n \<le> wval (take n y) * wbase ^ n" by (intro mult_le_mono1) simp
    with split assms(3) show False by linarith
  qed
  then have low: "\<forall>w \<in> set (take n y). w = 0" and val: "wval (drop n y) = wval y"
    using split by (simp_all add: wval_eq_0_iff)
  have "length (drop n y) = n" using assms(1) by simp
  moreover from this assms(2) obtain w ws where d: "drop n y = w # ws" by (cases "drop n y") auto
  ultimately have ws: "length ws = n - 1" by simp
  have "unat w * wbase ^ (n - 1) \<le> wval y"
    using val by (simp add: d wval_Cons ws)
  moreover have "wbase ^ n = wbase * wbase ^ (n - 1)"
    using assms(2) by (simp flip: power_Suc)
  ultimately have "2 * (unat w * wbase ^ (n - 1)) < wbase * wbase ^ (n - 1)"
    using assms(3) by linarith
  then have "(2 * unat w) * wbase ^ (n - 1) < wbase * wbase ^ (n - 1)" by (simp only: mult.assoc)
  then have "2 * unat w < wbase" by simp
  then have "\<not> 2 ^ 63 \<le> unat w" by (simp add: wbase_def)
  then have "drop_bit 63 w = 0" using high_bit_iff [of w] by simp
  moreover have "y ! n = w" using d assms(1,2) by (metis Cons_nth_drop_Suc list.inject drop_Nil drop_eq_Nil length_drop linorder_not_less list.distinct(1))
  ultimately show ?thesis using assms(1,2) low val by (simp add: wp_shrink_def)
qed

lemma nat_mod_add_cancel: "(a + c) mod m = (b + c) mod m \<Longrightarrow> a mod m = b mod (m :: nat)"
proof -
  assume "(a + c) mod m = (b + c) mod m"
  then have "int (a + c) mod int m = int (b + c) mod int m" by (simp only: flip: zmod_int)
  then have "int a mod int m = int b mod int m" by (simp add: mod_eq_dvd_iff)
  then show ?thesis by (simp flip: zmod_int)
qed

lemma sub_mod_value:
  assumes "length t = length m" and "length pm = length m" and "wval t < wval m" and "wval pm < wval m"
    and "x = fst (wp_sub t t pm)" and "x' = (if wp_compare t pm < 0 then fst (wp_add x x m) else x)"
  shows "length x' = length m \<and> wval x' < wval m \<and> (wval x' + wval pm) mod wval m = wval t mod wval m"
proof -
  obtain c where s: "wp_sub t t pm = (x, c)" using assms(5) by (cases "wp_sub t t pm") auto
  note sub = wp_sub_value [OF s refl, unfolded assms(1), OF assms(2)]
  have lt: "wp_compare t pm < 0 \<longleftrightarrow> wval t < wval pm" using assms(1,2) by (simp add: wp_compare_lt)
  have bound: "wval x < wbase ^ length m" "wval m < wbase ^ length m"
    using wval_bound [of x] wval_bound [of m] sub(1) by simp_all
  show ?thesis
  proof (cases "wval t < wval pm")
    case False
    with sub(2) bound assms(3,4) have "wval x + wval pm = wval t" by (cases c) auto
    then show ?thesis using False lt assms(3,6) sub(1) by simp
  next
    case True
    with sub(2) have x: "wval x + wval pm = wval t + wbase ^ length m" by (cases c) auto
    obtain y d where a: "wp_add x x m = (y, d)" by (cases "wp_add x x m")
    note add = wp_add_value [OF a refl, unfolded sub(1), OF refl]
    have "wval y < wbase ^ length m" using wval_bound [of y] add(1) by simp
    with add(2) x assms(4) True have "wval y + wval pm = wval t + wval m" by (cases d) auto
    then show ?thesis using True lt assms(4,6) add(1) a by simp
  qed
qed

lemma remainder_half: "0 < b \<Longrightarrow> b \<le> a \<Longrightarrow> 2 * (a mod b) < (a :: nat)"
proof -
  assume b: "0 < b" "b \<le> a"
  have "a = b * (a div b) + a mod b" by simp
  moreover have "b * 1 \<le> b * (a div b)" using b by (intro mult_le_mono2) (simp add: div_greater_zero_iff Suc_le_eq)
  moreover have "a mod b < b" using b by simp
  ultimately show ?thesis by linarith
qed

lemma inverse_step_run:
  assumes inv: "inverse_inv v m st" and m: "1 < wval m" and go: "\<not> wp_is_zero (snd (snd (snd st)))"
  shows "\<exists>st'. inverse_step m st = Some st' \<and> inverse_inv v m st' \<and>
    wval (snd (snd (snd st'))) < wval (snd (snd (snd st)))"
proof -
  obtain t newt r newr where st: "st = (t, newt, r, newr)" by (rule prod_cases4)
  let ?n = "length m" and ?B = "wbase ^ length m"
  from inv have lens: "length t = ?n" "length newt = ?n" "length r = ?n" "length newr = ?n"
    and small: "wval t < wval m" "wval newt < wval m" "wval newr < wval r" "wval r \<le> wval m"
    and cong: "wval r mod wval m = wval t * v mod wval m" "wval newr mod wval m = wval newt * v mod wval m"
    and gcd: "gcd (wval r) (wval newr) = gcd (wval m) v"
    by (simp_all add: inverse_inv_def st)
  have pos: "0 < wval newr" using go by (simp add: st wp_is_zero_iff)
  have n: "0 < ?n" using m by (cases m) auto
  have B: "wval m < ?B" "wval r < ?B" using wval_bound [of m] wval_bound [of r] lens by simp_all
  define q where "q = wval r div wval newr"
  define r' where "r' = wval r mod wval newr"
  have qr: "wval r = q * wval newr + r'" by (simp add: q_def r'_def)
  have q: "q \<le> wval m" using small(4) by (auto simp: q_def intro: order_trans [OF div_le_dividend])
  have ext: "wp_extend (2 * ?n) r = Some (replicate ?n 0 @ r)"
    using wp_extend_double [of r] lens n by simp
  obtain a where a: "wp_div (replicate ?n 0 @ r) newr = Some a" "length a = 2 * ?n" "wval (drop ?n a) = q"
    using wp_div_small [of r newr] lens pos by (auto simp: q_def)
  let ?qp = "drop ?n a"
  have lqp: "length ?qp = ?n" using a(2) by simp
  let ?p1 = "wp_multiply ?qp newt"
  have p1: "length ?p1 = 2 * ?n" "wval ?p1 = q * wval newt"
    using wp_multiply_value [of newt ?qp] lqp lens a(3) by simp_all
  have top: "wval (take ?n ?p1) < wval m"
  proof -
    have "wval (take ?n ?p1) * ?B \<le> q * wval newt"
      using wval_split [of ?n ?p1] p1 by simp
    also have "\<dots> \<le> wval m * wval newt" using q by simp
    also have "\<dots> < wval m * ?B" using small(2) B(1) m by simp
    finally show ?thesis by simp
  qed
  obtain b where b: "wp_div ?p1 m = Some b" "length b = 2 * ?n" "wval (take ?n b) = q * wval newt mod wval m"
    using wp_div_value [of ?p1 m] p1 top by auto
  let ?pm = "take ?n b"
  define x where "x = fst (wp_sub t t ?pm)"
  define x' where "x' = (if wp_compare t ?pm < 0 then fst (wp_add x x m) else x)"
  have lpm: "length ?pm = ?n" using b(2) by simp
  have "wval ?pm < wval m" using b(3) m by simp
  from sub_mod_value [OF lens(1) lpm small(1) this x_def x'_def]
  have x': "length x' = ?n" "wval x' < wval m" "(wval x' + q * wval newt) mod wval m = wval t mod wval m"
    by (simp_all add: b(3) mod_add_right_eq)
  let ?p2 = "wp_multiply ?qp newr" and ?rf = "replicate ?n 0 @ r"
  have p2: "length ?p2 = 2 * ?n" "wval ?p2 = q * wval newr"
    using wp_multiply_value [of newr ?qp] lqp lens a(3) by simp_all
  obtain y c where y: "wp_sub ?rf ?rf ?p2 = (y, c)" by (cases "wp_sub ?rf ?rf ?p2")
  have ysub: "length y = 2 * ?n" "wval y + wval ?p2 = wval r + of_bool c * wbase ^ (2 * ?n)"
    using wp_sub_value [OF y refl] p2(1) lens by simp_all
  have "\<not> c"
  proof
    assume c
    with ysub(2) p2(2) qr have "wbase ^ (2 * ?n) \<le> wval y" by simp
    with wval_bound [of y] ysub(1) show False by simp
  qed
  with ysub(2) p2(2) qr have yv: "wval y = r'" by simp
  have "2 * wval y < ?B"
    using remainder_half [of "wval newr" "wval r"] pos small(3) B(2) yv by (simp add: r'_def)
  from wp_shrink_small [OF ysub(1) n this]
  have shrink: "wp_shrink ?n y = Some (drop ?n y)" "wval (drop ?n y) = r'" using yv by simp_all
  have step: "inverse_step m st = Some (newt, x', newr, drop ?n y)"
    unfolding st inverse_step_def prod.case Let_def ext bind.simps a(1) b(1) fst_conv y
      x_def [symmetric] x'_def [symmetric] shrink(1) by (rule refl)
  have "(r' + q * wval newr) mod wval m = (wval x' * v + q * wval newr) mod wval m"
  proof -
    have "(r' + q * wval newr) mod wval m = wval t * v mod wval m"
      using cong(1) qr by (simp add: add.commute)
    also have "\<dots> = (wval x' + q * wval newt) * v mod wval m"
      by (metis x'(3) mod_mult_left_eq)
    also have "\<dots> = (wval x' * v + q * (wval newt * v)) mod wval m" by (simp add: algebra_simps)
    also have "\<dots> = (wval x' * v + q * wval newr) mod wval m"
      by (metis cong(2) mod_add_right_eq mod_mult_right_eq)
    finally show ?thesis .
  qed
  then have "r' mod wval m = wval x' * v mod wval m" by (rule nat_mod_add_cancel)
  moreover have "gcd (wval newr) r' = gcd (wval m) v"
    using gcd by (metis gcd_red_nat r'_def)
  moreover have "r' < wval newr" using pos by (simp add: r'_def)
  ultimately have "inverse_inv v m (newt, x', newr, drop ?n y)"
    using lens x' small cong shrink(2) ysub(1) by (simp add: inverse_inv_def)
  with step shrink(2) \<open>r' < wval newr\<close> show ?thesis by (simp add: st)
qed

lemma inverse_loop_run:
  assumes "inverse_inv v m st" and "1 < wval m"
  shows "\<exists>st'. inverse_loop m st = Some st' \<and> inverse_inv v m st' \<and> wp_is_zero (snd (snd (snd st')))"
  using assms(1)
proof (induction st rule: measure_induct_rule [of "\<lambda>st. wval (snd (snd (snd st)))"])
  case (less st)
  show ?case
  proof (cases "wp_is_zero (snd (snd (snd st)))")
    case True
    with less.prems show ?thesis by (subst inverse_loop.simps) simp
  next
    case False
    from inverse_step_run [OF less.prems assms(2) False] obtain st' where
      "inverse_step m st = Some st'" "inverse_inv v m st'"
      "wval (snd (snd (snd st'))) < wval (snd (snd (snd st)))" by blast
    with less.IH [of st'] False show ?thesis by (subst inverse_loop.simps) simp
  qed
qed

lemma inverse_mod_run:
  assumes len: "length v = length m" and m: "1 < wval m" and v: "wval v < wval m"
  shows "if coprime (wval v) (wval m)
    then \<exists>t. inverse_mod v m = Some (Some t) \<and> length t = length m \<and> wval t < wval m \<and>
      wval t * wval v mod wval m = 1
    else inverse_mod v m = Some None"
proof -
  let ?n = "length m"
  have n: "0 < ?n" using m by (cases m) auto
  have one: "wval (wp_init ?n 1) = 1" "length (wp_init ?n 1) = ?n"
    using n by (simp_all add: wval_wp_init)
  have "inverse_inv (wval v) m (wp_init ?n 0, wp_init ?n 1, m, v)"
    using len m v one by (simp add: inverse_inv_def)
  from inverse_loop_run [OF this m] obtain t newt r newr where
    loop: "inverse_loop m (wp_init ?n 0, wp_init ?n 1, m, v) = Some (t, newt, r, newr)"
    and inv: "inverse_inv (wval v) m (t, newt, r, newr)" and "wp_is_zero newr" by fastforce
  then have newr: "wval newr = 0" by (simp add: wp_is_zero_iff)
  from inv have lens: "length t = ?n" "length r = ?n" and t: "wval t < wval m"
    and cong: "wval r mod wval m = wval t * wval v mod wval m"
    by (simp_all add: inverse_inv_def)
  from inv newr have gcd: "wval r = gcd (wval m) (wval v)" by (simp add: inverse_inv_def)
  have cmp: "wp_compare r (wp_init ?n 1) > 0 \<longleftrightarrow> 1 < wval r" "\<not> wp_compare t m > 0"
    using lens one t wp_compare_val [of r "wp_init ?n 1"] wp_compare_val [of t m] by auto
  have "wval r \<noteq> 0" using gcd m by simp
  then have coprime: "coprime (wval v) (wval m) \<longleftrightarrow> \<not> 1 < wval r"
    by (metis gcd coprime_iff_gcd_eq_1 gcd.commute less_one nat_neq_iff)
  have run: "inverse_mod v m = (if 1 < wval r then Some None else Some (Some t))"
    unfolding inverse_mod_def Let_def wp_extend_double [OF n] bind.simps loop prod.case cmp(1) if_not_P [OF cmp(2)]
    by (rule refl)
  show ?thesis
  proof (cases "1 < wval r")
    case False
    with \<open>wval r \<noteq> 0\<close> have "wval r = 1" by simp
    with cong m have "wval t * wval v mod wval m = 1" by simp
    with False run lens t coprime show ?thesis by simp
  qed (use run coprime in simp)
qed

lemma mod_is_zero_run:
  assumes "length a = 2 * length b" and "0 < wval b"
  shows "mod_is_zero a b = Some (wval b dvd wval a)"
proof -
  have n: "0 < length b" using assms(2) by (cases b) auto
  let ?b = "replicate (length b) 0 @ b"
  have "\<exists>r. wp_div (replicate (length a) 0 @ a) ?b = Some r \<and> length r = 2 * length ?b \<and>
      wval (take (length ?b) r) = wval a mod wval ?b \<and> wval (drop (length ?b) r) = wval a div wval ?b"
    using assms by (intro wp_div_small) simp_all
  then obtain r where r: "wp_div (replicate (length a) 0 @ a) ?b = Some r"
    "wval (take (2 * length b) r) = wval a mod wval b" by (auto simp: mult_2)
  have "0 < length a" using n assms(1) by simp
  show ?thesis
    unfolding mod_is_zero_def wp_extend_double [OF n] wp_extend_double [OF \<open>0 < length a\<close>] bind.simps r(1)
    by (simp add: wp_is_zero_iff r(2) dvd_eq_mod_eq_0)
qed

lemma rsa_mod_run:
  assumes "length n = length m" and "0 < wval m"
  shows "\<exists>r. rsa_mod n m = Some r \<and> length r = length m \<and> wval r = wval n mod wval m"
proof (cases "wval n < wval m")
  case True
  then show ?thesis using assms by (simp add: rsa_mod_def wp_compare_ge)
next
  case False
  then have "\<not> wp_compare n m < 0" using assms by (simp add: wp_compare_lt)
  then show ?thesis
    using wp_div_small [OF assms] assms(1) by (auto simp: rsa_mod_def not_less)
qed

section \<open>Properties\<close>

text \<open>
  C15: \<open>inverse_mod\<close> returns, with no failed assertion, for every value below a modulus greater
  than 1: with the inverse of the value when the two are coprime, and with 0 otherwise.
\<close>

theorem inverse_mod_correct:
  assumes "length v = length m" and "1 < wval m" and "wval v < wval m"
  shows "if coprime (wval v) (wval m)
    then \<exists>t. inverse_mod v m = Some (Some t) \<and> length t = length m \<and> wval t < wval m \<and>
      wval t * wval v mod wval m = 1
    else inverse_mod v m = Some None"
  by (rule inverse_mod_run [OF assms])

theorem inverse_mod_correct_witness:
  "(\<exists>t. inverse_mod [7] [40] = Some (Some t) \<and> wval t * 7 mod 40 = 1) \<and> inverse_mod [8] [40] = Some None"
proof -
  have "coprime 7 (40 :: nat)" and "\<not> coprime 8 (40 :: nat)" by (simp_all add: coprime_iff_gcd_eq_1 gcd_non_0_nat)
  then show ?thesis
    using inverse_mod_correct [of "[7]" "[40]"] inverse_mod_correct [of "[8]" "[40]"] by (auto simp: wval_def)
qed

end
