(* ===== verification/RsaPad.thy ===== *)
theory RsaPad
  imports WpArith ShaHash UtilBytes
begin

text \<open>
  The paddings of \<open>lib/wp_rsa.c\<close>: \<open>rsa_pad\<close> and \<open>rsa_unpad\<close> (none, a length marker, and PKCS #1
  OAEP), the mask generation of OAEP, and \<open>sig_digest\<close>. An array of \<open>uint64_t\<close> is the list of its
  words, and its bytes in memory are those of a little-endian machine. A result \<open>None\<close> is a call of
  \<open>exit\<close>, or an access outside an array. The random seed of OAEP is an argument.
\<close>

section \<open>Words and bytes\<close>

definition sha1_size :: nat where "sha1_size = 20"
definition sha512_size :: nat where "sha512_size = 64"
definition wp_rsa_max_key_bits :: nat where "wp_rsa_max_key_bits = 4096"
definition wp_rsa_max_key_bytes :: nat where "wp_rsa_max_key_bytes = wp_rsa_max_key_bits div 8"
definition wp_rsa_padding_pkcs1_oaep_size :: nat where
  "wp_rsa_padding_pkcs1_oaep_size = 2 + sha1_size + sha1_size"

datatype padding = PADDING_NONE | PADDING_VANILLA | PADDING_PKCS1_OAEP
datatype sig_encoding = SIG_ENCODING_NONE | SIG_ENCODING_SHA512

definition bytes_to_uint64 :: "u8 list \<Rightarrow> u64" where
  "bytes_to_uint64 data =
     push_bit 56 (ucast (data ! 0)) OR push_bit 48 (ucast (data ! 1)) OR
     push_bit 40 (ucast (data ! 2)) OR push_bit 32 (ucast (data ! 3)) OR
     push_bit 24 (ucast (data ! 4)) OR push_bit 16 (ucast (data ! 5)) OR
     push_bit 8 (ucast (data ! 6)) OR ucast (data ! 7)"

definition uint64_to_bytes :: "u64 \<Rightarrow> u8 list" where
  "uint64_to_bytes data =
     [ucast (drop_bit 56 data AND 0xff), ucast (drop_bit 48 data AND 0xff),
      ucast (drop_bit 40 data AND 0xff), ucast (drop_bit 32 data AND 0xff),
      ucast (drop_bit 24 data AND 0xff), ucast (drop_bit 16 data AND 0xff),
      ucast (drop_bit 8 data AND 0xff), ucast (data AND 0xff)]"

text \<open>The words and the bytes of the number proper; the rest of the arrays is not touched.\<close>

definition rsa_int_from_bytes :: "nat \<Rightarrow> u64 list \<Rightarrow> u8 list \<Rightarrow> u64 list option" where
  "rsa_int_from_bytes nbits to_words data =
     (let nwords = nbits div 64
      in if 8 * nwords \<le> length data \<and> nwords \<le> length to_words
         then Some (map (\<lambda>i. bytes_to_uint64 (drop (8 * i) data)) [0..<nwords] @ drop nwords to_words)
         else None)"

definition rsa_int_to_bytes :: "nat \<Rightarrow> u8 list \<Rightarrow> u64 list \<Rightarrow> u8 list option" where
  "rsa_int_to_bytes nbits to_bytes ws =
     (let nwords = nbits div 64
      in if 8 * nwords \<le> length to_bytes \<and> nwords \<le> length ws
         then Some (memcpy to_bytes 0 (concat (map uint64_to_bytes (take nwords ws))))
         else None)"

definition set_byte :: "nat \<Rightarrow> u64 list \<Rightarrow> nat \<Rightarrow> u8 \<Rightarrow> u64 list option" where
  "set_byte nbits dest offset val =
     (let word = offset div 8; shift = 56 - (offset mod 8) * 8
      in if nbits div 64 \<le> word then None
         else Some (dest[word := dest ! word AND NOT (push_bit shift 0xff) OR push_bit shift (ucast val)]))"

text \<open>An array of words seen as an array of bytes, and back.\<close>

definition memory_of :: "u64 list \<Rightarrow> u8 list" where
  "memory_of ws = concat (map (\<lambda>w. rev (uint64_to_bytes w)) ws)"

section \<open>The mask of OAEP\<close>

definition mask_block :: "u8 list \<Rightarrow> nat \<Rightarrow> nat \<Rightarrow> u8 list option \<Rightarrow> u8 list option" where
  "mask_block seed rsize i st = do {
     result \<leftarrow> st;
     let conc = seed @ [of_nat (i div 2 ^ 24), of_nat (i div 2 ^ 16), of_nat (i div 2 ^ 8), of_nat i];
     sha_result \<leftarrow> sha1 conc (int (length seed) + 4);
     let copy_size = (if rsize < (i + 1) * sha1_size
                      then (if rsize > i * sha1_size then rsize - i * sha1_size else 0)
                      else sha1_size);
     Some (if copy_size > 0 then memcpy result (i * sha1_size) (take copy_size sha_result) else result)
   }"

definition mgf1_sha1_mask :: "u8 list \<Rightarrow> nat \<Rightarrow> u8 list option" where
  "mgf1_sha1_mask seed rsize =
     (if length seed > wp_rsa_max_key_bytes then None
      else
        let floor = rsize div sha1_size;
            limit = (if rsize mod sha1_size = 0 then floor else floor + 1)
        in fold (mask_block seed rsize) [0..<limit] (Some (replicate rsize 0)))"

definition default_sha1 :: "u8 list" where
  "default_sha1 =
     [218, 57, 163, 238, 94, 107, 75, 13, 50, 85,
      191, 239, 149, 96, 24, 144, 175, 216, 7, 9]"

definition xor_at :: "u8 list \<Rightarrow> nat \<Rightarrow> u8 list \<Rightarrow> u8 list" where
  "xor_at rb off msk = memcpy rb off (map2 (XOR) (take (length msk) (drop off rb)) msk)"

section \<open>Padding\<close>

text \<open>Returns the size and the padded number; a size of 0 is a refusal.\<close>

definition pad_vanilla :: "nat \<Rightarrow> u64 list \<Rightarrow> u8 list \<Rightarrow> (nat \<times> u64 list) option" where
  "pad_vanilla nbits result data =
     (let nbytes = nbits div 8; dsize = length data
      in if dsize \<ge> nbytes then Some (0, result)
         else do {
           let r = wp_copy (nbits div 64) result (wp_init (nbits div 64) 0);
           let byte_offset = nbytes - dsize;
           r \<leftarrow> set_byte nbits r (byte_offset - 1) 1;
           r \<leftarrow> fold (\<lambda>i st. do { r \<leftarrow> st; set_byte nbits r (byte_offset + i) (data ! i) }) [0..<dsize] (Some r);
           Some (nbytes, r)
         })"

definition pad_oaep :: "nat \<Rightarrow> u64 list \<Rightarrow> u8 list \<Rightarrow> u8 list \<Rightarrow> (nat \<times> u64 list) option" where
  "pad_oaep nbits result data seed =
     (let nbytes = nbits div 8; dsize = length data
      in if dsize + wp_rsa_padding_pkcs1_oaep_size > nbytes then Some (0, result)
         else if wp_rsa_max_key_bytes < sha1_size \<or> wp_rsa_max_key_bytes < nbytes then Some (0, result)
         else do {
           let rb = memcpy (memory_of result) 0 (replicate nbytes 0);
           let db_offset = sha1_size + 1;
           let db_size = nbytes - db_offset;
           let rb = memcpy rb db_offset default_sha1;
           let data_index = nbytes - dsize;
           let rb = rb[data_index - 1 := 1];
           let rb = memcpy rb data_index data;
           let rb = memcpy rb 1 seed;
           msk \<leftarrow> mgf1_sha1_mask (take sha1_size (drop 1 rb)) db_size;
           let rb = xor_at rb db_offset msk;
           msk \<leftarrow> mgf1_sha1_mask (take db_size (drop db_offset rb)) sha1_size;
           let rb = xor_at rb 1 msk;
           Some (nbytes, map (\<lambda>i. bytes_to_uint64 (drop (8 * i) rb)) [0..<length result])
         })"

definition rsa_pad :: "nat \<Rightarrow> u64 list \<Rightarrow> u8 list \<Rightarrow> padding \<Rightarrow> u8 list \<Rightarrow> (nat \<times> u64 list) option" where
  "rsa_pad nbits result data pad seed =
     (let nbytes = nbits div 8; rsize = 8 * length result
      in if nbytes > rsize then Some (0, result)
         else (case pad of
            PADDING_NONE \<Rightarrow>
              if nbytes \<noteq> length data then Some (0, result)
              else do { r \<leftarrow> rsa_int_from_bytes nbits result data; Some (length data, r) }
          | PADDING_VANILLA \<Rightarrow> pad_vanilla nbits result data
          | PADDING_PKCS1_OAEP \<Rightarrow> pad_oaep nbits result data seed))"

section \<open>Unpadding\<close>

text \<open>
  Returns the size of the payload, -1 for an error, and the buffer. In the branch for OAEP the loop
  that fills the result with \<open>get_byte\<close> is followed by a \<open>memcpy\<close> to the same bytes, which alone
  is modelled.
\<close>

definition unpad_vanilla :: "nat \<Rightarrow> u8 list \<Rightarrow> u64 list \<Rightarrow> (int \<times> u8 list) option" where
  "unpad_vanilla nbits result data =
     (let nbytes = nbits div 8; rsize = length result
      in if nbytes > rsize + 1 then Some (- 1, result)
         else do {
           result \<leftarrow> rsa_int_to_bytes nbits result data;
           let i = length (takeWhile (\<lambda>b. b = 0) (take nbytes result));
           if i = nbytes then Some (0, result)
           else if result ! i \<noteq> 1 then Some (- 1, result)
           else do {
             let data_start = i + 1;
             let bytes_in_payload = nbytes - data_start;
             let result = memcpy result 0 (take bytes_in_payload (drop data_start result));
             let result = memcpy result bytes_in_payload (replicate (rsize - bytes_in_payload) 0);
             Some (int bytes_in_payload, result)
           }
         })"

definition unpad_oaep :: "nat \<Rightarrow> u8 list \<Rightarrow> u64 list \<Rightarrow> (int \<times> u8 list) option" where
  "unpad_oaep nbits result data =
     (let nbytes = nbits div 8; rsize = length result
      in if nbytes > rsize + wp_rsa_padding_pkcs1_oaep_size then Some (- 1, result)
         else if rsize div 8 > length data then None
         else do {
           let result = replicate rsize 0;
           let datab = memcpy (memory_of data) 0 (concat (map uint64_to_bytes (take (rsize div 8) data)));
           let bad_first = (datab ! 0 \<noteq> 0);
           let db_offset = sha1_size + 1;
           db_size \<leftarrow> (if nbytes < db_offset then None else Some (nbytes - db_offset));
           msk \<leftarrow> mgf1_sha1_mask (take db_size (drop db_offset datab)) sha1_size;
           let datab = xor_at datab 1 msk;
           msk \<leftarrow> mgf1_sha1_mask (take sha1_size (drop 1 datab)) db_size;
           let datab = xor_at datab db_offset msk;
           let bad_hash = (take sha1_size (drop db_offset datab) \<noteq> default_sha1);
           let ps = db_offset + sha1_size;
           let ps = ps + length (takeWhile (\<lambda>b. b = 0) (take (nbytes - ps) (drop ps datab)));
           let bad_one = (ps > nbytes \<or> datab ! ps \<noteq> 1);
           let ps = ps + 1;
           result \<leftarrow> (if ps > nbytes then None
                     else Some (memcpy result 0 (take (nbytes - ps) (drop ps datab))));
           if bad_first \<or> bad_hash \<or> bad_one then Some (- 1, result)
           else Some (int (nbytes - ps), result)
         })"

definition rsa_unpad :: "nat \<Rightarrow> u8 list \<Rightarrow> u64 list \<Rightarrow> nat \<Rightarrow> padding \<Rightarrow> (int \<times> u8 list) option" where
  "rsa_unpad nbits result data dsize pad =
     (let nbytes = nbits div 8
      in if dsize \<noteq> nbytes then Some (- 1, result)
         else (case pad of
            PADDING_NONE \<Rightarrow>
              if length result < dsize then Some (- 1, result)
              else do { result \<leftarrow> rsa_int_to_bytes nbits result data; Some (int dsize, result) }
          | PADDING_VANILLA \<Rightarrow> unpad_vanilla nbits result data
          | PADDING_PKCS1_OAEP \<Rightarrow> unpad_oaep nbits result data))"

section \<open>The digest that is signed\<close>

definition sha512_der_prefix :: "u8 list" where
  "sha512_der_prefix =
     [48, 81, 48, 13, 6, 9, 96, 134, 72, 1,
      101, 3, 4, 2, 3, 5, 0, 4, 64]"

definition sig_digest :: "nat \<Rightarrow> u8 list \<Rightarrow> u64 list \<Rightarrow> sig_encoding \<Rightarrow> u64 list option" where
  "sig_digest nbits hash digest enc =
     (case enc of
        SIG_ENCODING_NONE \<Rightarrow>
          if length hash \<noteq> nbits div 8 then None else rsa_int_from_bytes nbits digest hash
      | SIG_ENCODING_SHA512 \<Rightarrow>
          (let nbytes = nbits div 8;
               t_size = sha512_size + length sha512_der_prefix;
               needed = t_size + 11
           in if wp_rsa_max_key_bytes < needed \<or> nbytes < 3 + t_size \<or>
                 nbytes - sha512_size + length hash > 8 * length digest then None
              else
                let db = memory_of digest;
                    db = db[0 := 0, 1 := 1];
                    db = memcpy db 2 (replicate (nbytes - 3 - t_size) 0xff);
                    db = db[nbytes - t_size - 1 := 0];
                    db = memcpy db (nbytes - t_size) sha512_der_prefix;
                    db = memcpy db (nbytes - sha512_size) hash
                in rsa_int_from_bytes nbits digest db))"

section \<open>Words are bytes\<close>

lemma upt8: "[0..<8] = [0, 1, 2, 3, 4, 5, 6, 7 :: nat]" by (simp add: upt_rec)

lemma mask_byte: "(w AND 0xff :: u64) = take_bit 8 w"
proof -
  have "(0xff :: u64) = mask 8" by (simp add: mask_eq_exp_minus_1)
  then show ?thesis by (simp only: take_bit_eq_mask)
qed

lemma uint64_to_bytes_word: "uint64_to_bytes w = word_bytes w"
  by (simp add: uint64_to_bytes_def word_bytes_def upt8)

lemma word_bytes_of_bytes:
  "word_bytes (bytes_to_uint64 [a, b, c, d, e, f, g, h]) = [a, b, c, d, e, f, g, h]"
  unfolding word_bytes_def upt8 bytes_to_uint64_def mask_byte list.map list.inject
  by (intro conjI refl; rule bit_word_eqI; auto simp: bit_simps nth_Cons' dest: bit_imp_le_length)

definition bytes_of :: "u64 list \<Rightarrow> u8 list" where
  "bytes_of ws = concat (map word_bytes ws)"

definition words_of :: "nat \<Rightarrow> u8 list \<Rightarrow> u64 list" where
  "words_of n data = map (\<lambda>i. bytes_to_uint64 (drop (8 * i) data)) [0..<n]"

lemma bytes_of_simps [simp]:
  "bytes_of [] = []" "bytes_of (w # ws) = word_bytes w @ bytes_of ws"
  "bytes_of (xs @ ys) = bytes_of xs @ bytes_of ys" "length (bytes_of ws) = 8 * length ws"
  by (simp_all add: bytes_of_def)

lemma bval_bytes_of: "bval (bytes_of ws) = wval ws"
  by (simp add: bytes_of_def bval_concat_word_bytes)

lemma bytes_of_inj: "bytes_of xs = bytes_of ys \<Longrightarrow> xs = ys"
  using bval_bytes_of [of xs] bval_bytes_of [of ys] bytes_of_simps(4) [of xs] bytes_of_simps(4) [of ys]
  by (intro wval_inj) simp_all

lemma length_words_of [simp]: "length (words_of n data) = n"
  by (simp add: words_of_def)

lemma word_bytes_drop:
  assumes "i + 8 \<le> length data"
  shows "word_bytes (bytes_to_uint64 (drop i data)) = take 8 (drop i data)"
proof -
  have "8 \<le> length (drop i data)" using assms by simp
  then obtain a b c d e f g h r where "drop i data = a # b # c # d # e # f # g # h # r"
    using list_prefix_nth(4) by blast
  moreover have "bytes_to_uint64 (a # b # c # d # e # f # g # h # r) = bytes_to_uint64 [a, b, c, d, e, f, g, h]"
    by (simp add: bytes_to_uint64_def)
  ultimately show ?thesis by (simp add: word_bytes_of_bytes)
qed

lemma bytes_of_words_of: "8 * n \<le> length data \<Longrightarrow> bytes_of (words_of n data) = take (8 * n) data"
proof (induction n)
  case (Suc n)
  have "words_of (Suc n) data = words_of n data @ [bytes_to_uint64 (drop (8 * n) data)]"
    by (simp add: words_of_def)
  moreover have "take (8 * Suc n) data = take (8 * n) data @ take 8 (drop (8 * n) data)"
    using take_add [of "8 * n" 8 data] by (simp add: add.commute)
  ultimately show ?case using Suc word_bytes_drop [of "8 * n" data] by simp
qed (simp add: words_of_def)

lemma words_of_bytes_of: "words_of (length ws) (bytes_of ws @ rest) = ws"
  using bytes_of_words_of [of "length ws" "bytes_of ws @ rest"] by (intro bytes_of_inj) simp

lemma words_of_take: "8 * n \<le> m \<Longrightarrow> m \<le> length data \<Longrightarrow> words_of n (take m data) = words_of n data"
  using bytes_of_words_of [of n "take m data"] bytes_of_words_of [of n data]
  by (intro bytes_of_inj) (simp add: min_absorb1)

lemma concat_uint64: "concat (map uint64_to_bytes ws) = bytes_of ws"
  by (simp add: bytes_of_def uint64_to_bytes_word cong: map_cong)

lemma rsa_int_from_bytes_run:
  "8 * (nbits div 64) \<le> length data \<Longrightarrow> nbits div 64 \<le> length to_words \<Longrightarrow>
    rsa_int_from_bytes nbits to_words data =
      Some (words_of (nbits div 64) data @ drop (nbits div 64) to_words)"
  by (simp add: rsa_int_from_bytes_def words_of_def Let_def)

lemma rsa_int_to_bytes_run:
  "8 * (nbits div 64) \<le> length to_bytes \<Longrightarrow> nbits div 64 \<le> length ws \<Longrightarrow>
    rsa_int_to_bytes nbits to_bytes ws =
      Some (bytes_of (take (nbits div 64) ws) @ drop (8 * (nbits div 64)) to_bytes)"
  by (simp add: rsa_int_to_bytes_def memcpy_def concat_uint64 min_absorb1 Let_def)

lemma length_memory_of [simp]: "length (memory_of ws) = 8 * length ws"
  by (induction ws) (simp_all add: memory_of_def uint64_to_bytes_word)

section \<open>The mask is MGF1 of RFC 3447\<close>

definition sha1_digest :: "u8 list \<Rightarrow> u8 list" where
  "sha1_digest m = concat (map bytes_of32 (sha1_spec m))"

definition be32 :: "nat \<Rightarrow> u8 list" where
  "be32 i = [of_nat (i div 2 ^ 24), of_nat (i div 2 ^ 16), of_nat (i div 2 ^ 8), of_nat i]"

definition mgf1 :: "u8 list \<Rightarrow> nat \<Rightarrow> u8 list" where
  "mgf1 seed rsize = take rsize (concat (map (\<lambda>i. sha1_digest (seed @ be32 i)) [0..<(rsize + 19) div 20]))"

lemma sha1_digest_run:
  "8 * length m < 2 ^ 31 \<Longrightarrow> sha1 m (int (length m)) = Some (sha1_digest m) \<and> length (sha1_digest m) = 20"
  using sha1_run [of m] by (simp add: sha1_digest_def length_concat comp_def bytes_of32_def sum_list_triv)

lemma mask_blocks:
  assumes seed: "length seed \<le> 512" and k: "k \<le> (rsize + 19) div 20"
  shows "\<exists>H. H = concat (map (\<lambda>i. sha1_digest (seed @ be32 i)) [0..<k]) \<and> length H = 20 * k \<and>
    fold (mask_block seed rsize) [0..<k] (Some (replicate rsize 0)) =
      Some (take rsize H @ replicate (rsize - 20 * k) 0)"
  using k
proof (induction k)
  case 0
  then show ?case by simp
next
  case (Suc k)
  then obtain H where H: "H = concat (map (\<lambda>i. sha1_digest (seed @ be32 i)) [0..<k])" "length H = 20 * k"
    and run: "fold (mask_block seed rsize) [0..<k] (Some (replicate rsize 0)) =
      Some (take rsize H @ replicate (rsize - 20 * k) 0)" by auto
  let ?h = "sha1_digest (seed @ be32 k)" and ?c = "if rsize < (k + 1) * 20 then rsize - k * 20 else 20"
  have lb: "length (be32 k) = 4" by (simp add: be32_def)
  have h: "sha1 (seed @ be32 k) (int (length seed) + 4) = Some ?h" "length ?h = 20"
    using sha1_digest_run [of "seed @ be32 k"] seed lb by simp_all
  have k: "20 * k < rsize" using Suc.prems by auto
  then have "(if rsize < (k + 1) * sha1_size then (if rsize > k * sha1_size then rsize - k * sha1_size else 0)
      else sha1_size) = ?c" and c: "0 < ?c"
    by (auto simp: sha1_size_def)
  then have step: "mask_block seed rsize k (Some x) = Some (memcpy x (k * 20) (take ?c ?h))" for x
    unfolding mask_block_def bind.simps Let_def be32_def [symmetric] h(1) by (simp add: sha1_size_def)
  have "memcpy (take rsize H @ replicate (rsize - 20 * k) 0) (k * 20) (take ?c ?h) =
      take rsize (H @ ?h) @ replicate (rsize - 20 * Suc k) 0"
    using H(2) h(2) k by (auto simp: memcpy_def mult.commute min_def)
  then show ?case
    using run H h(2) by (intro exI [of _ "H @ ?h"]) (simp add: step)
qed

lemma blocks_needed: "(if r mod 20 = 0 then r div 20 else r div 20 + 1) = (r + 19) div (20 :: nat)"
proof -
  define q s where "q = r div 20" and "s = r mod 20"
  then have r: "r = s + q * 20" and s: "s < 20" by simp_all
  have "(r + 19) div 20 = q + (s + 19) div 20" unfolding r by simp
  moreover have "(s + 19) div 20 = (if s = 0 then 0 else 1)"
    using s div_nat_eqI [of 20 1 "s + 19"] by auto
  ultimately show ?thesis by (simp flip: q_def s_def)
qed

lemma mgf1_sha1_mask_run:
  assumes "length seed \<le> 512"
  shows "mgf1_sha1_mask seed rsize = Some (mgf1 seed rsize) \<and> length (mgf1 seed rsize) = rsize"
proof -
  let ?k = "(rsize + 19) div 20"
  have limit: "(if rsize mod sha1_size = 0 then rsize div sha1_size else rsize div sha1_size + 1) = ?k"
    unfolding sha1_size_def by (rule blocks_needed)
  have enough: "rsize \<le> 20 * ?k" by presburger
  obtain H where H: "H = concat (map (\<lambda>i. sha1_digest (seed @ be32 i)) [0..<?k])" "length H = 20 * ?k"
    "fold (mask_block seed rsize) [0..<?k] (Some (replicate rsize 0)) =
      Some (take rsize H @ replicate (rsize - 20 * ?k) 0)"
    using mask_blocks [OF assms order_refl] by blast
  have "mgf1_sha1_mask seed rsize = Some (take rsize H)"
    unfolding mgf1_sha1_mask_def Let_def limit H(3)
    using assms enough by (simp add: wp_rsa_max_key_bytes_def wp_rsa_max_key_bits_def)
  then show ?thesis using H(1,2) enough by (simp add: mgf1_def)
qed

section \<open>OAEP\<close>

lemma memcpy_middle:
  "off = length a \<Longrightarrow> length old = length src \<Longrightarrow> memcpy (a @ old @ rest) off src = a @ src @ rest"
  by (simp add: memcpy_def)

lemma xor_at_middle:
  "off = length a \<Longrightarrow> length old = length m \<Longrightarrow>
    xor_at (a @ old @ rest) off m = a @ map2 (XOR) old m @ rest"
  by (simp add: xor_at_def memcpy_def)

lemma xor_twice: "length a = length m \<Longrightarrow> map2 (XOR) (map2 (XOR) a m) m = (a :: u8 list)"
  by (rule nth_equalityI) (simp_all add: xor.assoc)

lemma takeWhile_zeros: "takeWhile (\<lambda>b. b = 0) (replicate k 0 @ [1] @ xs) = replicate k (0 :: u8)"
  by (induction k) simp_all

definition data_block :: "nat \<Rightarrow> u8 list \<Rightarrow> u8 list" where
  "data_block nbytes data = default_sha1 @ replicate (nbytes - length data - 42) 0 @ [1] @ data"

definition masked_block :: "nat \<Rightarrow> u8 list \<Rightarrow> u8 list \<Rightarrow> u8 list" where
  "masked_block nbytes data seed = map2 (XOR) (data_block nbytes data) (mgf1 seed (nbytes - 21))"

definition oaep_block :: "nat \<Rightarrow> u8 list \<Rightarrow> u8 list \<Rightarrow> u8 list" where
  "oaep_block nbytes data seed =
     0 # map2 (XOR) seed (mgf1 (masked_block nbytes data seed) 20) @ masked_block nbytes data seed"

lemma length_default_sha1 [simp]: "length default_sha1 = 20"
  by (simp add: default_sha1_def)

lemma length_data_block: "length data + 42 \<le> nbytes \<Longrightarrow> length (data_block nbytes data) = nbytes - 21"
  by (simp add: data_block_def)

lemma length_mgf1: "length seed \<le> 512 \<Longrightarrow> length (mgf1 seed k) = k"
  using mgf1_sha1_mask_run by simp

lemma length_masked_block:
  "length data + 42 \<le> nbytes \<Longrightarrow> length seed = 20 \<Longrightarrow> length (masked_block nbytes data seed) = nbytes - 21"
  by (simp add: masked_block_def length_data_block length_mgf1)

lemma length_oaep_block:
  "length data + 42 \<le> nbytes \<Longrightarrow> nbytes \<le> 512 \<Longrightarrow> length seed = 20 \<Longrightarrow>
    length (oaep_block nbytes data seed) = nbytes"
  by (simp add: oaep_block_def length_masked_block length_mgf1)

lemma pad_oaep_run:
  assumes nbits: "nbits = 64 * n" "n \<le> 64" "n \<le> length result"
    and data: "length data + 42 \<le> 8 * n" and seed: "length seed = 20"
  shows "\<exists>rest. pad_oaep nbits result data seed =
    Some (8 * n, words_of (length result) (oaep_block (8 * n) data seed @ rest)) \<and>
    length rest = 8 * (length result - n)"
proof -
  define nb where "nb = 8 * n"
  define rest where "rest = drop nb (memory_of result)"
  let ?DB = "data_block nb data"
  let ?mdb = "masked_block nb data seed"
  let ?ms = "map2 (XOR) seed (mgf1 ?mdb 20)"
  have nb: "nbits div 8 = nb" "nb \<le> 512" "length data + 42 \<le> nb" "nb \<le> 8 * length result"
    using nbits data by (simp_all add: nb_def)
  have lr: "length rest = 8 * (length result - n)" by (simp add: rest_def nb_def)
  have fits: "\<not> length data + wp_rsa_padding_pkcs1_oaep_size > nb"
    "\<not> (wp_rsa_max_key_bytes < 20 \<or> wp_rsa_max_key_bytes < nb)"
    using nb by (simp_all add: wp_rsa_padding_pkcs1_oaep_size_def sha1_size_def wp_rsa_max_key_bytes_def
        wp_rsa_max_key_bits_def)
  have "nb = 21 + 20 + (nb - length data - 42) + 1 + length data" using nb by simp
  then have zeros: "replicate nb (0 :: u8) = replicate 21 0 @ replicate 20 0 @
      replicate (nb - length data - 42) 0 @ [0] @ replicate (length data) 0"
    by (metis (no_types) append_assoc replicate_add replicate_Suc replicate_0 One_nat_def)
  have cleared: "memcpy (memory_of result) 0 (replicate nb 0) = replicate nb 0 @ rest"
    by (simp add: memcpy_def rest_def)
  have 1: "memcpy (memory_of result) 0 (replicate nb 0) = replicate 21 0 @ replicate 20 0 @
      replicate (nb - length data - 42) 0 @ [0] @ replicate (length data) 0 @ rest"
    unfolding cleared unfolding zeros by (simp only: append_assoc)
  have 2: "memcpy (replicate 21 0 @ replicate 20 0 @ replicate (nb - length data - 42) 0 @ [0] @
      replicate (length data) 0 @ rest) 21 default_sha1 =
      replicate 21 0 @ default_sha1 @ replicate (nb - length data - 42) 0 @ [0] @ replicate (length data) 0 @ rest"
    by (rule memcpy_middle) simp_all
  let ?pre = "replicate 21 0 @ default_sha1 @ replicate (nb - length data - 42) 0"
  have lpre: "length ?pre = nb - length data - 1" using nb(3) by simp
  have 3: "(replicate 21 0 @ default_sha1 @ replicate (nb - length data - 42) 0 @ [0] @
      replicate (length data) 0 @ rest)[nb - length data - 1 := 1] =
      (?pre @ [1]) @ replicate (length data) 0 @ rest"
    unfolding lpre [symmetric] using list_update_length [of ?pre 0 _ 1] by simp
  have 4: "memcpy ((?pre @ [1]) @ replicate (length data) 0 @ rest) (nb - length data) data =
      (?pre @ [1]) @ data @ rest"
    using lpre nb(3) by (intro memcpy_middle) (simp_all only: length_append length_replicate, simp)
  have "replicate 21 (0 :: u8) = [0] @ replicate 20 0" by (simp add: numeral_eq_Suc)
  then have 5: "(?pre @ [1]) @ data @ rest = [0] @ replicate 20 0 @ ?DB @ rest"
    by (simp add: data_block_def)
  have 6: "memcpy ([0] @ replicate 20 0 @ ?DB @ rest) 1 seed = [0] @ seed @ ?DB @ rest"
    using seed by (intro memcpy_middle) simp_all
  have 7: "take 20 (drop 1 ([0] @ seed @ ?DB @ rest)) = seed" using seed by simp
  have lmdb: "length ?mdb = nb - 21" using length_masked_block nb(3) seed by blast
  have 8: "xor_at ([0] @ seed @ ?DB @ rest) 21 (mgf1 seed (nb - 21)) = ([0] @ seed) @ ?mdb @ rest"
    using xor_at_middle [of 21 "[0] @ seed" ?DB "mgf1 seed (nb - 21)" rest] seed nb(3)
    by (simp add: length_data_block length_mgf1 masked_block_def)
  have 9: "take (nb - 21) (drop 21 (([0] @ seed) @ ?mdb @ rest)) = ?mdb"
    using seed lmdb by simp
  have 10: "xor_at (([0] @ seed) @ ?mdb @ rest) 1 (mgf1 ?mdb 20) = [0] @ ?ms @ ?mdb @ rest"
    using xor_at_middle [of 1 "[0]" seed "mgf1 ?mdb 20" "?mdb @ rest"] seed lmdb nb(2)
    by (simp add: length_mgf1)
  have m: "mgf1_sha1_mask seed (nb - 21) = Some (mgf1 seed (nb - 21))"
    "mgf1_sha1_mask ?mdb 20 = Some (mgf1 ?mdb 20)"
    using mgf1_sha1_mask_run [of seed "nb - 21"] mgf1_sha1_mask_run [of ?mdb 20] seed lmdb nb(2) by simp_all
  have size: "sha1_size = 20" "(20 :: nat) + 1 = 21" by (simp_all add: sha1_size_def)
  have "pad_oaep nbits result data seed = Some (nb, words_of (length result) ([0] @ ?ms @ ?mdb @ rest))"
    unfolding pad_oaep_def Let_def nb(1) if_not_P [OF fits(1)] if_not_P [OF fits(2)] size
      1 2 3 4 5 6 7 m(1) bind.simps 8 9 m(2) 10 words_of_def by (rule refl)
  then show ?thesis
    using lr by (intro exI [of _ rest]) (simp add: oaep_block_def nb_def)
qed

lemma nth_from_drop:
  assumes "drop i xs = drop j ys @ rest" and "j < length ys"
  shows "xs ! i = ys ! j"
proof -
  have "drop i xs \<noteq> []" using assms by simp
  then have "i < length xs" by simp
  then have "xs ! i = hd (drop i xs)" by (simp add: hd_drop_conv_nth)
  also have "\<dots> = ys ! j" using assms by (simp add: hd_append hd_drop_conv_nth)
  finally show ?thesis .
qed

text \<open>What \<open>rsa_unpad\<close> makes of a block of first byte, masked seed and masked data block.\<close>

definition unmasked :: "u8 list \<Rightarrow> u8 list \<Rightarrow> u8 list" where
  "unmasked ms mdb = map2 (XOR) mdb (mgf1 (map2 (XOR) ms (mgf1 mdb 20)) (length mdb))"

definition zeros_in :: "u8 list \<Rightarrow> nat" where
  "zeros_in db = length (takeWhile (\<lambda>b. b = 0) (drop 20 db))"

lemma unpad_oaep_run:
  assumes nbits: "nbits = 64 * n" "n \<le> 64" "6 \<le> n"
    and fits: "n \<le> length data" "8 * n \<le> length result" "length result div 8 \<le> length data"
    and block: "bytes_of (take n data) = b # ms @ mdb" "length ms = 20"
  shows "unpad_oaep nbits result data =
    (let db = unmasked ms mdb; z = zeros_in db; payload = drop (21 + z) db;
         result' = payload @ replicate (length result - length payload) 0
     in if 20 + z = length db then None
        else if b = 0 \<and> take 20 db = default_sha1 \<and> db ! (20 + z) = 1
        then Some (int (length payload), result') else Some (- 1, result'))"
proof -
  define nb where "nb = 8 * n"
  define k where "k = length result div 8"
  have nb: "nbits div 8 = nb" "nb \<le> 512" "48 \<le> nb" "nb \<le> length result"
    using nbits fits by (simp_all add: nb_def)
  have k: "n \<le> k" "k \<le> length data" using fits by (simp_all add: k_def)
  have "length (bytes_of (take n data)) = nb" using fits(1) by (simp add: nb_def)
  with block have lmdb: "length mdb = nb - 21" using nb(3) by simp
  define rest where "rest = bytes_of (take (k - n) (drop n data)) @ drop (8 * k) (memory_of data)"
  have "take k data = take n data @ take (k - n) (drop n data)"
    using k(1) take_add [of n "k - n" data] by simp
  then have words: "bytes_of (take k data) = (b # ms @ mdb) @ bytes_of (take (k - n) (drop n data))"
    using block(1) by simp
  have "memcpy (memory_of data) 0 (bytes_of (take k data)) = bytes_of (take k data) @ drop (8 * k) (memory_of data)"
    using k(2) by (simp add: memcpy_def min_absorb1)
  then have 1: "memcpy (memory_of data) 0 (concat (map uint64_to_bytes (take k data))) = [b] @ ms @ mdb @ rest"
    unfolding concat_uint64 by (simp add: words rest_def)
  let ?seed = "map2 (XOR) ms (mgf1 mdb 20)"
  let ?db = "unmasked ms mdb"
  have ls: "length ?seed = 20" using block(2) lmdb nb(2) by (simp add: length_mgf1)
  have ldb: "length ?db = nb - 21" using ls lmdb by (simp add: unmasked_def length_mgf1)
  have 2: "take (nb - 21) (drop 21 ([b] @ ms @ mdb @ rest)) = mdb" using block(2) lmdb by simp
  have 3: "xor_at ([b] @ ms @ mdb @ rest) 1 (mgf1 mdb 20) = [b] @ ?seed @ mdb @ rest"
    using xor_at_middle [of 1 "[b]" ms "mgf1 mdb 20" "mdb @ rest"] block(2) lmdb nb(2) by (simp add: length_mgf1)
  have 4: "take 20 (drop 1 ([b] @ ?seed @ mdb @ rest)) = ?seed" using ls by simp
  have 5: "xor_at ([b] @ ?seed @ mdb @ rest) 21 (mgf1 ?seed (nb - 21)) = ([b] @ ?seed) @ ?db @ rest"
    using xor_at_middle [of 21 "[b] @ ?seed" mdb "mgf1 ?seed (nb - 21)" rest] ls lmdb
    by (simp add: length_mgf1 unmasked_def)
  have m: "mgf1_sha1_mask mdb 20 = Some (mgf1 mdb 20)" "mgf1_sha1_mask ?seed (nb - 21) = Some (mgf1 ?seed (nb - 21))"
    using mgf1_sha1_mask_run [of mdb 20] mgf1_sha1_mask_run [of ?seed "nb - 21"] ls lmdb nb(2) by simp_all
  let ?D = "([b] @ ?seed) @ ?db @ rest"
  have drop21: "drop 21 ?D = ?db @ rest" using ls by simp
  have 6: "take 20 (drop 21 ?D) = take 20 ?db" unfolding drop21 using ldb nb(3) by simp
  have drop41: "drop (21 + j) ?D = drop j ?db @ rest" if "j \<le> length ?db" for j
    using drop_drop [of j 21 ?D] that unfolding drop21 by (simp add: add.commute)
  have "take (nb - 41) (drop 41 ?D) = drop 20 ?db" using drop41 [of 20] ldb nb(3) by simp
  then have z: "length (takeWhile (\<lambda>b. b = 0) (take (nb - 41) (drop 41 ?D))) = zeros_in ?db"
    by (simp add: zeros_in_def)
  let ?z = "zeros_in ?db"
  have zle: "?z \<le> nb - 41"
    using length_takeWhile_le [of "\<lambda>b. b = 0" "drop 20 ?db"] ldb by (simp add: zeros_in_def)
  have size: "sha1_size = 20" "(20 :: nat) + 1 = 21" "(21 :: nat) + 20 = 41" by (simp_all add: sha1_size_def)
  have small: "\<not> nb > length result + wp_rsa_padding_pkcs1_oaep_size" "\<not> k > length data" "\<not> nb < 21"
    using nb k by simp_all
  have run: "unpad_oaep nbits result data = do {
      result' \<leftarrow> (if 41 + ?z + 1 > nb then None
        else Some (memcpy (replicate (length result) 0) 0 (take (nb - (41 + ?z + 1)) (drop (41 + ?z + 1) ?D))));
      if ([b] @ ms @ mdb @ rest) ! 0 \<noteq> 0 \<or> take 20 ?db \<noteq> default_sha1 \<or> (41 + ?z > nb \<or> ?D ! (41 + ?z) \<noteq> 1)
      then Some (- 1, result') else Some (int (nb - (41 + ?z + 1)), result') }"
    unfolding unpad_oaep_def Let_def nb(1) if_not_P [OF small(1)] k_def [symmetric] if_not_P [OF small(2)]
      size 1 bind.simps if_not_P [OF small(3)] 2 m(1) 3 4 m(2) 5 6 z by (rule refl)
  show ?thesis
  proof (cases "20 + ?z = length ?db")
    case True
    then have "41 + ?z + 1 > nb" using ldb nb(3) by simp
    then show ?thesis unfolding run Let_def using True by simp
  next
    case False
    then have lt: "20 + ?z < length ?db" using ldb nb(3) zle by simp
    have inside: "\<not> 41 + ?z + 1 > nb" using lt ldb by simp
    have "drop (41 + ?z + 1) ?D = drop (21 + ?z) ?db @ rest"
      using drop41 [of "21 + ?z"] lt by (simp add: add.commute add.left_commute)
    then have payload: "take (nb - (41 + ?z + 1)) (drop (41 + ?z + 1) ?D) = drop (21 + ?z) ?db"
      using ldb lt by simp
    have "drop (41 + ?z) ?D = drop (20 + ?z) ?db @ rest"
      using drop41 [of "20 + ?z"] lt by (simp add: add.commute add.left_commute)
    then have "?D ! (41 + ?z) = ?db ! (20 + ?z)"
      using lt by (rule nth_from_drop)
    moreover have "memcpy (replicate (length result) 0) 0 (drop (21 + ?z) ?db) =
        drop (21 + ?z) ?db @ replicate (length result - length (drop (21 + ?z) ?db)) 0"
      using ldb nb(4) by (intro memcpy_start) simp
    moreover have "nb - (41 + ?z + 1) = length (drop (21 + ?z) ?db)" using ldb by simp
    moreover have "\<not> 41 + ?z > nb" using inside by simp
    ultimately show ?thesis
      unfolding run payload if_not_P [OF inside] bind.simps Let_def if_not_P [OF False] by auto
  qed
qed

lemma unmasked_masked:
  assumes "length db \<le> 512" and "length seed = 20" and mdb: "mdb = map2 (XOR) db (mgf1 seed (length db))"
  shows "unmasked (map2 (XOR) seed (mgf1 mdb 20)) mdb = db"
proof -
  have l: "length mdb = length db" using assms by (simp add: length_mgf1)
  have "map2 (XOR) (map2 (XOR) seed (mgf1 mdb 20)) (mgf1 mdb 20) = seed"
    using l assms(1,2) by (intro xor_twice) (simp add: length_mgf1)
  then have "unmasked (map2 (XOR) seed (mgf1 mdb 20)) mdb = map2 (XOR) mdb (mgf1 seed (length db))"
    unfolding unmasked_def l by simp
  also have "\<dots> = db" unfolding mdb using assms(2) by (intro xor_twice) (simp add: length_mgf1)
  finally show ?thesis .
qed

lemma unmasked_oaep:
  assumes "length data + 42 \<le> nbytes" and "nbytes \<le> 512" and "length seed = 20"
  shows "unmasked (map2 (XOR) seed (mgf1 (masked_block nbytes data seed) 20)) (masked_block nbytes data seed) =
    data_block nbytes data"
  using assms by (intro unmasked_masked) (simp_all add: length_data_block masked_block_def)

lemma zeros_in_data_block: "zeros_in (data_block nbytes data) = nbytes - length data - 42"
  using takeWhile_zeros [of "nbytes - length data - 42" data]
  by (simp add: zeros_in_def data_block_def)

lemma oaep_roundtrip:
  assumes nbits: "nbits = 64 * n" "n \<le> 64" "n \<le> length result"
    and data: "length data + 42 \<le> 8 * n" and seed: "length seed = 20"
    and fits: "n \<le> length d" "8 * n \<le> length buf" "length buf div 8 \<le> length d"
  shows "\<exists>r. pad_oaep nbits result data seed = Some (8 * n, r) \<and> length r = length result \<and>
    bytes_of (take n r) = oaep_block (8 * n) data seed \<and>
    (take n d = take n r \<longrightarrow> unpad_oaep nbits buf d =
      Some (int (length data), data @ replicate (length buf - length data) 0))"
proof -
  obtain rest where pad: "pad_oaep nbits result data seed =
      Some (8 * n, words_of (length result) (oaep_block (8 * n) data seed @ rest))"
    and lr: "length rest = 8 * (length result - n)"
    using pad_oaep_run [OF nbits data seed] by blast
  let ?b = "oaep_block (8 * n) data seed"
  let ?r = "words_of (length result) (?b @ rest)"
  have n: "8 * n \<le> 512" "6 \<le> n" using nbits data by simp_all
  have lb: "length ?b = 8 * n" using length_oaep_block data n seed by blast
  have "bytes_of ?r = ?b @ rest"
    using bytes_of_words_of [of "length result" "?b @ rest"] lb lr nbits(3) by simp
  moreover have "bytes_of ?r = bytes_of (take n ?r) @ bytes_of (drop n ?r)"
    by (simp flip: bytes_of_simps(3))
  ultimately have br: "bytes_of (take n ?r) = ?b"
    using lb nbits(3) by (simp add: append_eq_append_conv)
  let ?mdb = "masked_block (8 * n) data seed" and ?ms = "map2 (XOR) seed (mgf1 (masked_block (8 * n) data seed) 20)"
  have lms: "length ?ms = 20" using seed data n by (simp add: length_mgf1 length_masked_block)
  have "unpad_oaep nbits buf d = Some (int (length data), data @ replicate (length buf - length data) 0)"
    if "take n d = take n ?r"
  proof -
    have "bytes_of (take n d) = 0 # ?ms @ ?mdb" using that br by (simp add: oaep_block_def)
    note run = unpad_oaep_run [OF nbits(1,2) n(2) fits this lms]
    have z: "zeros_in (data_block (8 * n) data) = 8 * n - length data - 42" by (rule zeros_in_data_block)
    have len: "length (data_block (8 * n) data) = 8 * n - 21" using data by (simp add: length_data_block)
    have "drop (21 + (8 * n - length data - 42)) (data_block (8 * n) data) = data"
      and "take 20 (data_block (8 * n) data) = default_sha1"
      and "20 + (8 * n - length data - 42) \<noteq> length (data_block (8 * n) data)"
      using data len by (simp_all add: data_block_def)
    moreover have "data_block (8 * n) data ! (20 + (8 * n - length data - 42)) = 1"
      using nth_append_length [of "default_sha1 @ replicate (8 * n - length data - 42) 0" 1 data]
      by (simp add: data_block_def)
    ultimately show ?thesis
      unfolding run Let_def unmasked_oaep [OF data n(1) seed] z by simp
  qed
  then show ?thesis using pad br by (intro exI [of _ ?r]) simp
qed

section \<open>The padding with a marker\<close>

lemma set_byte_word:
  assumes "k < 8"
  shows "word_bytes (w AND NOT (push_bit (56 - k * 8) 0xff) OR push_bit (56 - k * 8) (ucast v)) = (word_bytes w)[k := v]"
proof (rule nth_equalityI)
  fix i assume "i < length (word_bytes (w AND NOT (push_bit (56 - k * 8) 0xff) OR push_bit (56 - k * 8) (ucast v)))"
  then have i: "i < 8" by simp
  have nth: "word_bytes x ! i = ucast (take_bit 8 (drop_bit (56 - i * 8) x))" for x
    using i by (simp add: word_bytes_def mask_byte)
  have m: "(0xff :: u64) = mask 8" by (simp add: mask_eq_exp_minus_1)
  have "(ucast (take_bit 8 (drop_bit (56 - i * 8)
      (w AND NOT (push_bit (56 - k * 8) 0xff) OR push_bit (56 - k * 8) (ucast v)))) :: u8) =
    (if i = k then v else ucast (take_bit 8 (drop_bit (56 - i * 8) w)))" (is "?l = ?r")
  proof (rule bit_word_eqI)
    fix j assume "j < LENGTH(8)"
    then have j: "j < 8" by simp
    show "bit ?l j = bit ?r j"
    proof (cases "i = k")
      case True
      with j assms show ?thesis unfolding m by (auto simp: bit_simps)
    next
      case False
      then have "\<not> (56 - k * 8 \<le> 56 - i * 8 + j \<and> 56 - i * 8 + j - (56 - k * 8) < 8)"
        using i assms j by arith
      moreover have "bit v (56 - i * 8 + j - (56 - k * 8)) \<Longrightarrow> 56 - i * 8 + j - (56 - k * 8) < 8"
        using bit_imp_le_length [of v] by simp
      ultimately show ?thesis using False j unfolding m by (auto simp: bit_simps)
    qed
  qed
  then show "word_bytes (w AND NOT (push_bit (56 - k * 8) 0xff) OR push_bit (56 - k * 8) (ucast v)) ! i =
      (word_bytes w)[k := v] ! i"
    using i assms by (simp add: nth nth_list_update)
qed simp

lemma bytes_of_update:
  "i < length ws \<Longrightarrow> k < 8 \<Longrightarrow> word_bytes w = (word_bytes (ws ! i))[k := v] \<Longrightarrow>
    bytes_of (ws[i := w]) = (bytes_of ws)[8 * i + k := v]"
proof (induction ws arbitrary: i)
  case (Cons x ws)
  show ?case
  proof (cases i)
    case (Suc j)
    have "(word_bytes x @ bytes_of ws)[8 * i + k := v] = word_bytes x @ (bytes_of ws)[8 * j + k := v]"
      using Suc by (simp add: list_update_append)
    then show ?thesis using Cons Suc by simp
  qed (use Cons.prems in \<open>simp add: list_update_append\<close>)
qed simp

lemma set_byte_run:
  assumes "offset < 8 * (nbits div 64)" and "nbits div 64 \<le> length ws"
  shows "\<exists>ws'. set_byte nbits ws offset v = Some ws' \<and> length ws' = length ws \<and>
    bytes_of ws' = (bytes_of ws)[offset := v]"
proof -
  have i: "offset div 8 < nbits div 64" using assms(1) by (simp add: less_mult_imp_div_less mult.commute)
  let ?s = "56 - (offset mod 8) * 8" and ?i = "offset div 8"
  let ?w = "ws ! ?i AND NOT (push_bit ?s 0xff) OR push_bit ?s (ucast v)"
  have "bytes_of (ws[?i := ?w]) = (bytes_of ws)[8 * ?i + offset mod 8 := v]"
    using i assms(2) by (intro bytes_of_update set_byte_word) simp_all
  then show ?thesis using i by (simp add: set_byte_def Let_def)
qed

lemma bytes_of_take: "bytes_of (take n ws) = take (8 * n) (bytes_of ws)"
proof (cases "n \<le> length ws")
  case True
  have "bytes_of ws = bytes_of (take n ws) @ bytes_of (drop n ws)" by (simp flip: bytes_of_simps(3))
  then show ?thesis using True by simp
qed simp

lemma bytes_of_zeros: "bytes_of (replicate n 0) = replicate (8 * n) 0"
proof (induction n)
  case (Suc n)
  have "word_bytes 0 = replicate 8 0" by (simp add: word_bytes_def upt8 numeral_eq_Suc)
  then show ?case using Suc by (simp flip: replicate_add)
qed simp

lemma set_bytes_run:
  assumes "off + length data \<le> 8 * (nbits div 64)" and "nbits div 64 \<le> length ws" and "k \<le> length data"
  shows "\<exists>ws'. fold (\<lambda>i st. do { r \<leftarrow> st; set_byte nbits r (off + i) (data ! i) }) [0..<k] (Some ws) = Some ws' \<and>
    length ws' = length ws \<and> bytes_of ws' = take off (bytes_of ws) @ take k data @ drop (off + k) (bytes_of ws)"
  using assms(3)
proof (induction k)
  case 0
  then show ?case by simp
next
  case (Suc k)
  then obtain ws' where ws': "fold (\<lambda>i st. do { r \<leftarrow> st; set_byte nbits r (off + i) (data ! i) }) [0..<k] (Some ws) = Some ws'"
    "length ws' = length ws" "bytes_of ws' = take off (bytes_of ws) @ take k data @ drop (off + k) (bytes_of ws)"
    by auto
  let ?b = "bytes_of ws"
  have lb: "off + Suc k \<le> length ?b" using assms Suc.prems by simp
  obtain ws'' where ws'': "set_byte nbits ws' (off + k) (data ! k) = Some ws''" "length ws'' = length ws"
    "bytes_of ws'' = (bytes_of ws')[off + k := data ! k]"
    using set_byte_run [of "off + k" nbits ws' "data ! k"] assms ws'(2) Suc.prems by auto
  have "drop (off + k) ?b = ?b ! (off + k) # drop (off + Suc k) ?b"
    using lb by (simp add: Cons_nth_drop_Suc)
  then have "bytes_of ws'' = take off ?b @ take k data @ data ! k # drop (off + Suc k) ?b"
    unfolding ws''(3) ws'(3) using lb Suc.prems by (simp add: list_update_append)
  moreover have "take (Suc k) data = take k data @ [data ! k]"
    using Suc.prems by (simp add: take_Suc_conv_app_nth)
  ultimately show ?case using ws'(1) ws'' by simp
qed

lemma pad_vanilla_run:
  assumes nbits: "nbits = 64 * n" "n \<le> length result" and data: "length data < 8 * n"
  shows "\<exists>r. pad_vanilla nbits result data = Some (8 * n, r) \<and> length r = length result \<and>
    bytes_of (take n r) = replicate (8 * n - length data - 1) 0 @ 1 # data"
proof -
  define off where "off = 8 * n - length data"
  have off: "0 < off" "off + length data = 8 * n" using data by (simp_all add: off_def)
  have div: "nbits div 8 = 8 * n" "nbits div 64 = n" using nbits(1) by simp_all
  let ?r0 = "wp_copy n result (wp_init n 0)"
  have "wp_init n 0 = replicate n 0" by (rule nth_equalityI) (simp_all add: wp_init_def nth_list_update)
  then have r0: "length ?r0 = length result" "bytes_of ?r0 = replicate (8 * n) 0 @ bytes_of (drop n result)"
    using nbits(2) by (simp_all add: wp_copy_def bytes_of_zeros)
  have "off - 1 < 8 * (nbits div 64)" "nbits div 64 \<le> length ?r0"
    using off nbits(2) r0(1) by (simp_all add: div(2))
  from set_byte_run [OF this, of 1] obtain r1 where r1: "set_byte nbits ?r0 (off - 1) 1 = Some r1"
    "length r1 = length result" "bytes_of r1 = (bytes_of ?r0)[off - 1 := 1]"
    using r0(1) by metis
  obtain r2 where r2: "fold (\<lambda>i st. do { r \<leftarrow> st; set_byte nbits r (off + i) (data ! i) }) [0..<length data] (Some r1) = Some r2"
    "length r2 = length result"
    "bytes_of r2 = take off (bytes_of r1) @ data @ drop (8 * n) (bytes_of r1)"
    using set_bytes_run [of off data nbits r1 "length data"] off nbits(2) div(2) r1(2) by auto
  have "replicate (8 * n) (0 :: u8) = replicate (off - 1) 0 @ 0 # replicate (length data) 0"
    using off by (simp flip: replicate_Suc replicate_add)
  then have "take off (bytes_of r1) = replicate (off - 1) 0 @ [1]"
    unfolding r1(3) r0(2) using off by (simp add: list_update_append)
  then have "bytes_of (take n r2) = replicate (off - 1) 0 @ 1 # data"
    unfolding bytes_of_take r2(3) using off by (simp add: Suc_diff_le [symmetric]) (simp add: off(2) [symmetric])
  moreover have "pad_vanilla nbits result data = Some (8 * n, r2)"
    using data r1(1) r2(1) by (simp add: pad_vanilla_def Let_def div off_def)
  ultimately show ?thesis using r2(2) by (simp add: off_def)
qed

lemma unpad_vanilla_run:
  assumes nbits: "nbits = 64 * n" and fits: "n \<le> length d" "8 * n \<le> length buf"
    and block: "bytes_of (take n d) = replicate k 0 @ 1 # data"
  shows "unpad_vanilla nbits buf d = Some (int (length data), data @ replicate (length buf - length data) 0)"
proof -
  have div: "nbits div 8 = 8 * n" "nbits div 64 = n" using nbits by simp_all
  have "8 * n = length (bytes_of (take n d))" using fits(1) by simp
  also have "\<dots> = k + 1 + length data" unfolding block by simp
  finally have k: "8 * n = k + 1 + length data" .
  let ?r = "(replicate k 0 @ [1] @ data) @ drop (8 * n) buf"
  have "rsa_int_to_bytes nbits buf d = Some ?r"
    using rsa_int_to_bytes_run [of nbits buf d] fits div block by simp
  moreover have "take (8 * n) ?r = replicate k 0 @ [1] @ data" using k by simp
  then have "length (takeWhile (\<lambda>b. b = 0) (take (8 * n) ?r)) = k"
    by (simp only: takeWhile_zeros length_replicate)
  moreover have "?r ! k = 1" using nth_append_length [of "replicate k 0" 1] by simp
  moreover have "memcpy ?r 0 (take (length data) (drop (k + 1) ?r)) = data @ drop (length data) ?r"
    by (simp add: memcpy_def)
  moreover have "memcpy (data @ drop (length data) ?r) (length data) (replicate (length buf - length data) 0) =
      data @ replicate (length buf - length data) 0"
    using k fits(2) by (simp add: memcpy_def)
  moreover have "8 * n - (k + 1) = length data" "k \<noteq> 8 * n" using k by simp_all
  ultimately show ?thesis
    using fits(2) unfolding unpad_vanilla_def Let_def div by simp
qed

section \<open>Properties\<close>

definition pad_fits :: "nat \<Rightarrow> padding \<Rightarrow> nat \<Rightarrow> bool" where
  "pad_fits nbytes pad dsize = (case pad of
     PADDING_NONE \<Rightarrow> dsize = nbytes
   | PADDING_VANILLA \<Rightarrow> dsize < nbytes
   | PADDING_PKCS1_OAEP \<Rightarrow> dsize + 42 \<le> nbytes)"

lemma length_takeWhile_all: "length (takeWhile P xs) = length xs \<longleftrightarrow> (\<forall>x \<in> set xs. P x)"
  by (induction xs) auto

text \<open>A number whose first byte is at most 1.\<close>

lemma wval_first_byte:
  assumes "bytes_of ws = b # bs"
  shows "wval ws < (unat b + 1) * 256 ^ (8 * length ws - 1)"
proof -
  have "length bs = 8 * length ws - 1" using assms bytes_of_simps(4) [of ws] by simp
  then show ?thesis
    using bval_bytes_of [of ws] bval_bound [of bs] unfolding assms by (simp add: bval_Cons)
qed

lemma rsa_pad_run:
  assumes nbits: "nbits = 64 * n" "n \<le> 64" "n \<le> length result"
    and data: "pad_fits (8 * n) pad (length data)" and seed: "length seed = 20"
    and fits: "n \<le> length d" "8 * n \<le> length buf" "length buf div 8 \<le> length d"
  shows "\<exists>r. rsa_pad nbits result data pad seed = Some (8 * n, r) \<and> length r = length result \<and>
    (pad = PADDING_NONE \<longrightarrow> bytes_of (take n r) = data) \<and>
    (pad \<noteq> PADDING_NONE \<longrightarrow> wval (take n r) < 2 * 256 ^ (8 * n - 1)) \<and>
    (take n d = take n r \<longrightarrow> (\<exists>buf'. rsa_unpad nbits buf d (8 * n) pad = Some (int (length data), buf') \<and>
       length buf' = length buf \<and> take (length data) buf' = data))"
proof -
  have div: "nbits div 8 = 8 * n" "nbits div 64 = n" using nbits(1) by simp_all
  have room: "\<not> 8 * n > 8 * length result" using nbits(3) by simp
  note def = rsa_pad_def [of nbits, unfolded Let_def div] rsa_unpad_def [of nbits, unfolded Let_def div]
  show ?thesis
  proof (cases pad)
    case PADDING_NONE
    then have len: "length data = 8 * n" using data by (simp add: pad_fits_def)
    let ?r = "words_of n data @ drop n result"
    have "rsa_int_from_bytes nbits result data = Some ?r"
      using rsa_int_from_bytes_run [of nbits data result] len nbits(3) div by simp
    then have pad_run: "rsa_pad nbits result data pad seed = Some (8 * n, ?r)"
      using PADDING_NONE room len by (simp add: def)
    have b: "bytes_of (take n ?r) = data" using bytes_of_words_of [of n data] len by simp
    have "rsa_unpad nbits buf d (8 * n) pad = Some (int (length data), data @ drop (8 * n) buf)"
      if "take n d = take n ?r"
      using rsa_int_to_bytes_run [of nbits buf d] fits div PADDING_NONE len that b by (simp add: def)
    then show ?thesis
      using pad_run b PADDING_NONE nbits(3) fits(2) len by (intro exI [of _ ?r]) simp
  next
    case PADDING_VANILLA
    then have len: "length data < 8 * n" using data by (simp add: pad_fits_def)
    obtain r where r: "pad_vanilla nbits result data = Some (8 * n, r)" "length r = length result"
      "bytes_of (take n r) = replicate (8 * n - length data - 1) 0 @ 1 # data"
      using pad_vanilla_run [OF nbits(1,3) len] by blast
    have "wval (take n r) < 2 * 256 ^ (8 * n - 1)"
    proof (cases "8 * n - length data - 1")
      case 0
      then have "bytes_of (take n r) = 1 # data" using r(3) by simp
      from wval_first_byte [OF this] r(2) nbits(3) show ?thesis by (simp add: min_absorb2)
    next
      case (Suc k)
      then have "bytes_of (take n r) = 0 # replicate k 0 @ 1 # data" using r(3) by simp
      from wval_first_byte [OF this] r(2) nbits(3) show ?thesis by (simp add: min_absorb2)
    qed
    moreover have "rsa_unpad nbits buf d (8 * n) pad =
        Some (int (length data), data @ replicate (length buf - length data) 0)"
      if "take n d = take n r"
      using unpad_vanilla_run [OF nbits(1) fits(1,2), of "8 * n - length data - 1" data] that r(3) PADDING_VANILLA
      by (simp add: def)
    ultimately show ?thesis
      using r(1,2) PADDING_VANILLA room len fits(2) by (intro exI [of _ r]) (simp add: def)
  next
    case PADDING_PKCS1_OAEP
    then have len: "length data + 42 \<le> 8 * n" using data by (simp add: pad_fits_def)
    obtain r where r: "pad_oaep nbits result data seed = Some (8 * n, r)" "length r = length result"
      "bytes_of (take n r) = oaep_block (8 * n) data seed"
      "take n d = take n r \<Longrightarrow> unpad_oaep nbits buf d =
        Some (int (length data), data @ replicate (length buf - length data) 0)"
      using oaep_roundtrip [OF nbits len seed fits] by blast
    have "wval (take n r) < 256 ^ (8 * n - 1)"
      using wval_first_byte [OF r(3) [unfolded oaep_block_def]] r(2) nbits(3) by (simp add: min_absorb2)
    then have "wval (take n r) < 2 * 256 ^ (8 * n - 1)" by simp
    moreover have "rsa_unpad nbits buf d (8 * n) pad =
        Some (int (length data), data @ replicate (length buf - length data) 0)"
      if "take n d = take n r"
      using r(4) [OF that] PADDING_PKCS1_OAEP by (simp add: def)
    ultimately show ?thesis
      using r(1,2) PADDING_PKCS1_OAEP room len fits(2) by (intro exI [of _ r]) (simp add: def)
  qed
qed

text \<open>
  C30: Removing the padding of PKCS #1 OAEP from a block of the right size fails to return exactly when
  all bytes after the hash in the unmasked data block are zero: the scan for the byte 1 then
  stops at the end of the block, one more is added, and the payload has size -1, which the
  final \<open>memcpy\<close> takes for a very large number.
\<close>

theorem rsa_unpad_crashes_iff:
  assumes "nbits = 64 * n" and "n \<le> 64" and "6 \<le> n"
    and "n \<le> length data" and "8 * n \<le> length result" and "length result div 8 \<le> length data"
    and "bytes_of (take n data) = b # ms @ mdb" and "length ms = 20"
  shows "rsa_unpad nbits result data (8 * n) PADDING_PKCS1_OAEP = None \<longleftrightarrow>
    (\<forall>x \<in> set (drop 20 (unmasked ms mdb)). x = 0)"
proof -
  let ?db = "unmasked ms mdb"
  have "length (bytes_of (take n data)) = 8 * n" using assms(4) by simp
  then have lm: "length mdb = 8 * n - 21" using assms(3,7,8) by simp
  then have len: "20 \<le> length ?db"
    using assms(2,3,8) by (simp add: unmasked_def length_mgf1)
  then have "20 + zeros_in ?db = length ?db \<longleftrightarrow>
      length (takeWhile (\<lambda>b. b = 0) (drop 20 ?db)) = length (drop 20 ?db)"
    by (auto simp: zeros_in_def)
  then have zeros: "20 + zeros_in ?db = length ?db \<longleftrightarrow> (\<forall>x \<in> set (drop 20 ?db). x = 0)"
    unfolding length_takeWhile_all .
  have "rsa_unpad nbits result data (8 * n) PADDING_PKCS1_OAEP = unpad_oaep nbits result data"
    by (simp add: rsa_unpad_def assms(1))
  moreover have "(if z then None else if c then Some x else Some y) = None \<longleftrightarrow> z"
    for z c and x y :: "int \<times> u8 list" by simp
  ultimately show ?thesis
    unfolding unpad_oaep_run [OF assms] Let_def zeros by (simp only:)
qed

theorem rsa_unpad_crashes_iff_witness:
  "\<exists>data. rsa_unpad 384 (replicate 48 0) data 48 PADDING_PKCS1_OAEP = None"
proof -
  let ?seed = "replicate 20 (5 :: u8)" and ?db = "default_sha1 @ replicate 7 0"
  define mdb where "mdb = map2 (XOR) ?db (mgf1 ?seed (length ?db))"
  define ms where "ms = map2 (XOR) ?seed (mgf1 mdb 20)"
  define data where "data = words_of 6 (0 # ms @ mdb)"
  have l: "length mdb = 27" "length ms = 20" by (simp_all add: mdb_def ms_def length_mgf1)
  have "bytes_of (take 6 data) = 0 # ms @ mdb"
    using bytes_of_words_of [of 6 "0 # ms @ mdb"] l by (simp add: data_def)
  moreover have "unmasked ms mdb = ?db"
    unfolding ms_def by (rule unmasked_masked) (simp_all add: mdb_def)
  ultimately have "rsa_unpad 384 (replicate 48 0) data (8 * 6) PADDING_PKCS1_OAEP = None"
    using rsa_unpad_crashes_iff [of 384 6 data "replicate 48 0" 0 ms mdb] l by (simp add: data_def)
  then show ?thesis by auto
qed

end
