(* ===== verification/RsaCrypt.thy ===== *)
theory RsaCrypt
  imports RsaMath RsaPad
begin

text \<open>
  RSA itself, from \<open>lib/wp_rsa.c\<close>: encryption, the slow and the fast decryption, signatures, and
  the functions of \<open>lib/crypt_sel.c\<close> that call them when the program is built without OpenSSL.
  Local arrays that the code does not initialise are arguments (\<open>junk\<close>): the results do not depend
  on them. The random seed of the padding is an argument too.
\<close>

section \<open>Keys\<close>

text \<open>
  The numbers of a key are the arrays of the words in use: \<open>nbits\<close> bits for \<open>n\<close> and \<open>d\<close>, half as many
  for the others. A key pair starts with the fields of a public key, so that one can be cast to
  the other.
\<close>

record wp_rsa_key =
  key_nbits :: nat
  key_n :: "u64 list"
  key_e :: u64

record wp_rsa_key_pair = wp_rsa_key +
  key_d :: "u64 list"
  key_p :: "u64 list"
  key_q :: "u64 list"
  key_dp :: "u64 list"
  key_dq :: "u64 list"
  key_qinv :: "u64 list"

definition wp_rsa_get_public_key :: "wp_rsa_key_pair \<Rightarrow> wp_rsa_key" where
  "wp_rsa_get_public_key key = wp_rsa_key.truncate key"

section \<open>Encryption\<close>

text \<open>The exponent is converted to an \<open>int\<close>; \<open>wp_init\<close> asserts that it is not negative.\<close>

definition rsa_do_encrypt :: "'a wp_rsa_key_scheme \<Rightarrow> u64 list \<Rightarrow> u8 list \<Rightarrow> u8 list option" where
  "rsa_do_encrypt key data result =
     (let eint = sint (ucast (key_e key) :: u32)
      in if eint < 0 then None
         else do {
           let efull = wp_init (key_nbits key div 64) (nat eint);
           ri \<leftarrow> wp_exp_mod_montgomery data efull (key_n key);
           rsa_int_to_bytes (key_nbits key) result ri
         })"

definition wp_rsa_encrypt ::
  "u64 list \<Rightarrow> 'a wp_rsa_key_scheme \<Rightarrow> u8 list \<Rightarrow> u8 list \<Rightarrow> padding \<Rightarrow> u8 list \<Rightarrow> (int \<times> u8 list) option" where
  "wp_rsa_encrypt junk key data result pad seed =
     (let kbytes = key_nbits key div 8
      in if length result < kbytes then Some (- 1, result)
         else do {
           (esize, padded) \<leftarrow> rsa_pad (key_nbits key) junk data pad seed;
           if esize \<noteq> kbytes then Some (- 1, result)
           else do {
             result \<leftarrow> rsa_do_encrypt key (take (key_nbits key div 64) padded) result;
             Some (int kbytes, result)
           }
         })"

section \<open>Decryption\<close>

definition rsa_decrypt_slow :: "wp_rsa_key_pair \<Rightarrow> u64 list \<Rightarrow> u64 list option" where
  "rsa_decrypt_slow key data = wp_exp_mod_montgomery data (key_d key) (key_n key)"

definition rsa_decrypt_fast :: "wp_rsa_key_pair \<Rightarrow> u64 list \<Rightarrow> u64 list option" where
  "rsa_decrypt_fast key data = do {
     let nwords = key_nbits key div 64;
     let nhalf = key_nbits key div 2 div 64;
     pfull \<leftarrow> wp_extend nwords (key_p key);
     qfull \<leftarrow> wp_extend nwords (key_q key);
     data_copy1 \<leftarrow> wp_div data (key_p key);
     data_copy2 \<leftarrow> wp_div data (key_q key);
     m1 \<leftarrow> wp_exp_mod_montgomery (take nhalf data_copy1) (key_dp key) (key_p key);
     m2 \<leftarrow> wp_exp_mod_montgomery (take nhalf data_copy2) (key_dq key) (key_q key);
     let diff = fst (wp_sub m1 m1 m2);
     let diff = (if wp_compare m1 m2 < 0 then fst (wp_add diff diff (key_p key)) else diff);
     let h = wp_multiply_mod (key_qinv key) diff (key_p key);
     let product = wp_multiply h (key_q key);
     m2full \<leftarrow> wp_extend nwords m2;
     Some (fst (wp_add m2full m2full product))
   }"

definition rsa_choose_decrypt :: "wp_rsa_key_pair \<Rightarrow> u64 list \<Rightarrow> u64 list option" where
  "rsa_choose_decrypt key data =
     (if wp_is_zero (key_p key) \<or> wp_is_zero (key_q key) \<or> wp_is_zero (key_dp key) \<or>
         wp_is_zero (key_dq key) \<or> wp_is_zero (key_qinv key)
      then rsa_decrypt_slow key data else rsa_decrypt_fast key data)"

definition wp_rsa_decrypt ::
  "u64 list \<Rightarrow> wp_rsa_key_pair \<Rightarrow> u8 list \<Rightarrow> u8 list \<Rightarrow> padding \<Rightarrow> (int \<times> u8 list) option" where
  "wp_rsa_decrypt junk key data result pad =
     (let kbytes = key_nbits key div 8; nwords = key_nbits key div 64
      in if length data \<noteq> kbytes \<or> length result < kbytes \<or> kbytes * 8 \<noteq> key_nbits key
         then Some (- 1, result)
         else do {
           rdata \<leftarrow> rsa_int_from_bytes (key_nbits key) junk data;
           if wp_rsa_max_key_bytes < kbytes then None
           else do {
             decrypted \<leftarrow> rsa_choose_decrypt key (take nwords rdata);
             rsa_unpad (key_nbits key) result (wp_copy nwords junk decrypted) kbytes pad
           }
         })"

section \<open>Signatures\<close>

definition wp_rsa_sign ::
  "u64 list \<Rightarrow> wp_rsa_key_pair \<Rightarrow> u8 list \<Rightarrow> u8 list \<Rightarrow> sig_encoding \<Rightarrow> (int \<times> u8 list) option" where
  "wp_rsa_sign junk key hash sig enc =
     (if length sig < key_nbits key div 8 \<or> key_nbits key > wp_rsa_max_key_bits then Some (0, sig)
      else do {
        to_be_signed \<leftarrow> sig_digest (key_nbits key) hash junk enc;
        isig \<leftarrow> rsa_choose_decrypt key (take (key_nbits key div 64) to_be_signed);
        sig \<leftarrow> rsa_int_to_bytes (key_nbits key) sig isig;
        Some (1, sig)
      })"

definition wp_rsa_verify ::
  "u64 list \<Rightarrow> 'a wp_rsa_key_scheme \<Rightarrow> u8 list \<Rightarrow> u8 list \<Rightarrow> sig_encoding \<Rightarrow> int option" where
  "wp_rsa_verify junk key hash sig enc =
     (let nsig = length sig; nwords = key_nbits key div 64
      in if nsig \<noteq> key_nbits key div 8 \<or> key_nbits key > wp_rsa_max_key_bits then Some 0
         else do {
           digest \<leftarrow> sig_digest (key_nbits key) hash junk enc;
           digestb \<leftarrow> rsa_int_to_bytes (key_nbits key) (memory_of junk) digest;
           enc_words \<leftarrow> rsa_int_from_bytes (key_nbits key) junk sig;
           encrypted \<leftarrow> rsa_do_encrypt key (take nwords enc_words) (memory_of junk);
           Some (if take nsig encrypted = take nsig digestb then 1 else 0)
         })"

section \<open>The functions of crypt\_sel.c\<close>

text \<open>The value of a computation in \<open>int\<close>, 32 bits that wrap around.\<close>

definition c_int :: "int \<Rightarrow> int" where
  "c_int x = sint (word_of_int x :: 32 word)"

definition allnet_rsa_encrypt ::
  "u64 list \<Rightarrow> wp_rsa_key \<Rightarrow> u8 list \<Rightarrow> u8 list \<Rightarrow> int \<Rightarrow> u8 list \<Rightarrow> (int \<times> u8 list) option" where
  "allnet_rsa_encrypt junk rsa data result pad seed =
     (if pad > 1 \<or> pad < 0 then Some (0, result)
      else if c_int (int (length result) * 8) < int (key_nbits rsa) then Some (0, result)
      else wp_rsa_encrypt junk rsa data result
             (if pad = 0 then PADDING_NONE else PADDING_PKCS1_OAEP) seed)"

definition allnet_rsa_decrypt ::
  "u64 list \<Rightarrow> wp_rsa_key_pair \<Rightarrow> u8 list \<Rightarrow> u8 list \<Rightarrow> int \<Rightarrow> (int \<times> u8 list) option" where
  "allnet_rsa_decrypt junk rsa data result pad =
     (if pad > 1 \<or> pad < 0 then Some (- 1, result)
      else
        let rsa_size = key_nbits rsa div 8; rsize = int (length result)
        in if length data < rsa_size then Some (- 1, result)
           else
             let data = take rsa_size data
             in if rsize < int rsa_size - 41 \<or> pad = 0 \<and> rsize < int rsa_size then Some (- 1, result)
                else wp_rsa_decrypt junk rsa data result
                       (if pad = 0 then PADDING_NONE else PADDING_PKCS1_OAEP))"

definition allnet_rsa_sign ::
  "u64 list \<Rightarrow> wp_rsa_key_pair \<Rightarrow> u8 list \<Rightarrow> u8 list \<Rightarrow> (int \<times> u8 list) option" where
  "allnet_rsa_sign junk rsa hash sig =
     (if length hash < 64 \<or> length sig < key_nbits rsa div 8 then Some (0, sig)
      else wp_rsa_sign junk rsa hash sig SIG_ENCODING_SHA512)"

definition allnet_rsa_verify :: "u64 list \<Rightarrow> wp_rsa_key \<Rightarrow> u8 list \<Rightarrow> u8 list \<Rightarrow> int option" where
  "allnet_rsa_verify junk rsa hash sig =
     (if length hash < 64 \<or> length sig < key_nbits rsa div 8 then Some 0
      else wp_rsa_verify junk rsa hash sig SIG_ENCODING_SHA512)"

section \<open>Correct keys\<close>

text \<open>
  The numbers of a key fit together. The code makes keys with two primes; the functions work as well
  when \<open>p\<close> and \<open>q\<close> are products of distinct primes, as in the keys with several primes of PKCS #1.
\<close>

definition rsa_key_ok :: "wp_rsa_key_pair \<Rightarrow> bool" where
  "rsa_key_ok k \<longleftrightarrow>
     (let h = length (key_p k); p = wval (key_p k); q = wval (key_q k); e = unat (key_e k); d = wval (key_d k)
      in key_nbits k = 128 * h \<and> h \<le> 32 \<and>
         length (key_n k) = 2 * h \<and> length (key_d k) = 2 * h \<and> length (key_q k) = h \<and>
         length (key_dp k) = h \<and> length (key_dq k) = h \<and> length (key_qinv k) = h \<and>
         1 < q \<and> q < p \<and> wval (key_n k) = p * q \<and> 0 < e \<and> e < 2 ^ 31 \<and>
         (\<exists>ps. distinct_primes ps p \<and>
            (\<forall>r \<in> set ps. e * d mod (r - 1) = 1 \<and> wval (key_dp k) mod (r - 1) = d mod (r - 1))) \<and>
         (\<exists>qs. distinct_primes qs q \<and>
            (\<forall>r \<in> set qs. e * d mod (r - 1) = 1 \<and> wval (key_dq k) mod (r - 1) = d mod (r - 1))) \<and>
         wval (key_qinv k) * q mod p = 1 \<and> wval (key_qinv k) < p)"

text \<open>In a key with two primes, the exponents of the fast decryption are those of PKCS #1.\<close>

lemma rsa_key_ok_primes:
  assumes "key_nbits k = 128 * length (key_p k)" and "length (key_p k) \<le> 32"
    and "length (key_n k) = 2 * length (key_p k)" and "length (key_d k) = 2 * length (key_p k)"
    and "length (key_q k) = length (key_p k)" and "length (key_dp k) = length (key_p k)"
    and "length (key_dq k) = length (key_p k)" and "length (key_qinv k) = length (key_p k)"
    and "prime_number (wval (key_p k))" and "prime_number (wval (key_q k))" and "wval (key_q k) < wval (key_p k)"
    and "wval (key_n k) = wval (key_p k) * wval (key_q k)" and "0 < unat (key_e k)" and "unat (key_e k) < 2 ^ 31"
    and "unat (key_e k) * wval (key_d k) mod (wval (key_p k) - 1) = 1"
    and "unat (key_e k) * wval (key_d k) mod (wval (key_q k) - 1) = 1"
    and "wval (key_dp k) = wval (key_d k) mod (wval (key_p k) - 1)"
    and "wval (key_dq k) = wval (key_d k) mod (wval (key_q k) - 1)"
    and "wval (key_qinv k) * wval (key_q k) mod wval (key_p k) = 1" and "wval (key_qinv k) < wval (key_p k)"
  shows "rsa_key_ok k"
proof -
  have "1 < wval (key_q k)" using assms(10) by (simp add: prime_number_def)
  moreover have "distinct_primes [wval (key_p k)] (wval (key_p k))" "distinct_primes [wval (key_q k)] (wval (key_q k))"
    using assms(9,10) by (simp_all add: distinct_primes_single)
  ultimately show ?thesis
    unfolding rsa_key_ok_def Let_def using assms
    by (intro conjI exI [of _ "[wval (key_p k)]"] exI [of _ "[wval (key_q k)]"]) simp_all
qed

lemma wval_take_div:
  assumes "length c = 2 * h" and "wval c < p * q" and "q \<le> wbase ^ h"
  shows "wval (take h c) < p"
proof -
  have "wval (take h c) * wbase ^ h \<le> wval c" using wval_split [of h c] assms(1) by simp
  also have "\<dots> < p * q" by (rule assms(2))
  also have "\<dots> \<le> p * wbase ^ h" using assms(3) by simp
  finally show ?thesis by simp
qed

lemma half_power:
  assumes len: "length c = 2 * length m" "length dm = length m" and ps: "distinct_primes ps (wval m)" "1 < wval m"
    and top: "wval (take (length m) c) < wval m"
    and dm: "\<forall>r \<in> set ps. e * d mod (r - 1) = 1 \<and> wval dm mod (r - 1) = d mod (r - 1)"
  shows "odd (wval m)" and "\<exists>a r. wp_div c m = Some a \<and> wp_exp_mod_montgomery (take (length m) a) dm m = Some r \<and>
    length r = length m \<and> wval r = wval c ^ d mod wval m"
proof -
  have two: "r \<noteq> 2" if "r \<in> set ps" for r using dm that by auto
  then show odd: "odd (wval m)" using primes_odd [OF ps(1)] by blast
  obtain a where a: "wp_div c m = Some a" "length a = length c" "wval (take (length m) a) = wval c mod wval m"
    using wp_div_value [OF len(1) top] by blast
  have pos: "0 < wval dm" "0 < d"
  proof -
    have "ps \<noteq> []" using ps by auto
    then obtain r where r: "r \<in> set ps" by (meson list.set_sel(1))
    have "d mod (r - 1) \<noteq> 0"
    proof
      assume "d mod (r - 1) = 0"
      then have "e * d mod (r - 1) = 0" by (metis mod_mult_right_eq mult_0_right mod_0)
      with dm r show False by simp
    qed
    then show "0 < d" and "0 < wval dm" using dm r by (auto intro!: Nat.gr0I)
  qed
  obtain r where r: "wp_exp_mod_montgomery (take (length m) a) dm m = Some r" "length r = length m"
    "wval r = (wval c mod wval m) ^ wval dm mod wval m"
    using wp_exp_mod_montgomery_power [OF odd, of "take (length m) a" dm] a(2,3) len pos(1)
      primes_good_base [OF ps(1)] by auto
  have "(wval c mod wval m) ^ wval dm mod wval m = wval c ^ wval dm mod wval m"
    by (simp add: power_mod)
  also have "\<dots> = wval c ^ d mod wval m"
    using dm pos by (intro primes_power [OF ps(1)]) simp_all
  finally show "\<exists>a r. wp_div c m = Some a \<and> wp_exp_mod_montgomery (take (length m) a) dm m = Some r \<and>
    length r = length m \<and> wval r = wval c ^ d mod wval m"
    using a(1) r by auto
qed

lemma inverse_coprime: "z * q mod p = 1 \<Longrightarrow> coprime p (q :: nat)"
  by (metis coprime_iff_gcd_eq_1 gcd.commute gcd_red_nat coprime_mod_left_iff coprime_1_left coprime_commute coprime_mult_left_iff)

lemma crt_value:
  fixes m1 m2 diff x p q :: nat
  assumes "coprime p q" and "(diff + m2) mod p = m1 mod p" and "qinv * q mod p = 1"
    and "m1 mod p = x mod p" and "m2 mod q = x mod q" and "m2 < q" and "0 < p"
  shows "m2 + (qinv * diff mod p) * q < p * q \<and> m2 + (qinv * diff mod p) * q = x mod (p * q)"
proof -
  let ?h = "qinv * diff mod p"
  have "?h < p" using assms(7) by simp
  then have "Suc ?h * q \<le> p * q" by (intro mult_le_mono1) simp
  then have "?h * q + q \<le> p * q" by simp
  with assms(6) have less: "m2 + ?h * q < p * q" by linarith
  have "?h * q mod p = qinv * diff * q mod p" by (rule mod_mult_left_eq)
  also have "\<dots> = diff * (qinv * q mod p) mod p"
    by (simp add: mod_mult_right_eq mult.commute mult.left_commute)
  also have "\<dots> = diff mod p" by (simp add: assms(3))
  finally have "(m2 + ?h * q) mod p = (m2 + diff) mod p" by (rule mod_add_cong [OF refl])
  also have "\<dots> = x mod p" using assms(2,4) by (simp add: add.commute)
  finally have "(m2 + ?h * q) mod p = x mod p" .
  moreover have "(m2 + ?h * q) mod q = x mod q" using assms(5) by simp
  ultimately have "(m2 + ?h * q) mod (p * q) = x mod (p * q)"
    using assms(1) by (intro eq_mod_product)
  with less show ?thesis by simp
qed

lemma rsa_decrypt_fast_run:
  assumes ok: "rsa_key_ok k" and c: "length c = length (key_n k)" "wval c < wval (key_n k)"
  shows "\<exists>r. rsa_decrypt_fast k c = Some r \<and> length r = length (key_n k) \<and>
    wval r = wval c ^ wval (key_d k) mod wval (key_n k)"
proof -
  define h p q where "h = length (key_p k)" and "p = wval (key_p k)" and "q = wval (key_q k)"
  note ok' = ok [unfolded rsa_key_ok_def Let_def, folded h_def p_def q_def]
  have lens: "key_nbits k div 64 = 2 * h" "key_nbits k div 2 div 64 = h" "length (key_n k) = 2 * h"
    "length (key_q k) = h" "length (key_dp k) = h" "length (key_dq k) = h" "length (key_qinv k) = h"
    using ok' by simp_all
  have pr: "1 < q" "q < p" "wval (key_n k) = p * q"
    and qinv: "wval (key_qinv k) * q mod p = 1" "wval (key_qinv k) < p"
    using ok' by simp_all
  obtain ps where ps: "distinct_primes ps p"
    "\<forall>r \<in> set ps. unat (key_e k) * wval (key_d k) mod (r - 1) = 1 \<and> wval (key_dp k) mod (r - 1) = wval (key_d k) mod (r - 1)"
    using ok' by blast
  obtain qs where qs: "distinct_primes qs q"
    "\<forall>r \<in> set qs. unat (key_e k) * wval (key_d k) mod (r - 1) = 1 \<and> wval (key_dq k) mod (r - 1) = wval (key_d k) mod (r - 1)"
    using ok' by blast
  have "2 < p" using pr by simp
  have bounds: "p < wbase ^ h" "q < wbase ^ h"
    using wval_bound [of "key_p k"] wval_bound [of "key_q k"] lens by (simp_all add: p_def q_def h_def)
  have h: "0 < h" using \<open>2 < p\<close> by (auto simp: p_def h_def)
  have lc: "length c = 2 * h" "wval c < p * q" using c lens pr by simp_all
  have top: "wval (take h c) < p" "wval (take h c) < q"
    using wval_take_div [OF lc(1), of p q] wval_take_div [OF lc(1), of q p] lc(2) bounds
    by (simp_all add: mult.commute)
  let ?x = "wval c ^ wval (key_d k)"
  obtain a m1 where a: "wp_div c (key_p k) = Some a"
    and m1: "wp_exp_mod_montgomery (take h a) (key_dp k) (key_p k) = Some m1" "length m1 = h" "wval m1 = ?x mod p"
    using half_power(2) [of c "key_p k" "key_dp k" ps "unat (key_e k)" "wval (key_d k)"] lc lens pr ps top
    by (auto simp: h_def p_def)
  obtain b m2 where b: "wp_div c (key_q k) = Some b"
    and m2: "wp_exp_mod_montgomery (take h b) (key_dq k) (key_q k) = Some m2" "length m2 = h" "wval m2 = ?x mod q"
    using half_power(2) [of c "key_q k" "key_dq k" qs "unat (key_e k)" "wval (key_d k)"] lc lens pr qs top
    by (auto simp: q_def)
  define d0 where "d0 = fst (wp_sub m1 m1 m2)"
  define diff where "diff = (if wp_compare m1 m2 < 0 then fst (wp_add d0 d0 (key_p k)) else d0)"
  have m2q: "wval m2 < q" using m2(3) pr(1) by simp
  have "wval m1 < wval (key_p k)" "wval m2 < wval (key_p k)"
    using m1(3) m2q pr by (simp_all add: p_def [symmetric])
  with sub_mod_value [of m1 "key_p k" m2 d0 diff] m1(2) m2(2) h_def
  have diff: "length diff = h" "(wval diff + wval m2) mod p = wval m1 mod p"
    by (simp_all add: d0_def diff_def p_def)
  let ?h = "wp_multiply_mod (key_qinv k) diff (key_p k)"
  have hv: "length ?h = h" "wval ?h = wval (key_qinv k) * wval diff mod p"
    using wp_multiply_mod_value [of "key_qinv k" "key_p k" diff] qinv(2) lens by (simp_all add: h_def p_def)
  let ?prod = "wp_multiply ?h (key_q k)"
  have prod: "length ?prod = 2 * h" "wval ?prod = wval ?h * q"
    using wp_multiply_value [of "key_q k" ?h] hv(1) lens by (simp_all add: q_def)
  have ext: "wp_extend (2 * h) x = Some (replicate h 0 @ x)" if "length x = h" for x
    using wp_extend_double [of x] that h by simp
  let ?m2 = "replicate h 0 @ m2"
  obtain r carry where r: "wp_add ?m2 ?m2 ?prod = (r, carry)" by (cases "wp_add ?m2 ?m2 ?prod")
  have add: "length r = 2 * h" "wval r + of_bool carry * wbase ^ (2 * h) = wval m2 + wval ?h * q"
    using wp_add_value [OF r refl] prod m2(2) by (simp_all add: mult_2)
  have "coprime p q" by (rule inverse_coprime [OF qinv(1)])
  then have crt: "wval m2 + wval ?h * q < p * q \<and> wval m2 + wval ?h * q = ?x mod (p * q)"
    unfolding hv(2) using diff(2) qinv(1) m1(3) m2(3) m2q \<open>2 < p\<close> by (intro crt_value [where ?m1.0 = "wval m1"]) simp_all
  have "p * q \<le> wbase ^ h * wbase ^ h" using bounds by (intro mult_le_mono) simp_all
  then have "wval m2 + wval ?h * q < wbase ^ (2 * h)" using crt by (simp add: mult_2 power_add)
  with add(2) have "\<not> carry" by auto
  with add crt have "wval r = ?x mod (p * q)" by simp
  moreover have "rsa_decrypt_fast k c = Some r"
    unfolding rsa_decrypt_fast_def Let_def lens(1,2) ext [OF h_def [symmetric]] ext [OF lens(4)] ext [OF m2(2)] bind.simps
      a b m1(1) m2(1) d0_def [symmetric] diff_def [symmetric] r fst_conv by (rule refl)
  ultimately show ?thesis using add(1) lens(3) pr(3) by auto
qed

section \<open>Encryption and decryption of numbers\<close>

lemma key_facts:
  assumes "rsa_key_ok k"
  shows "key_nbits k = 64 * length (key_n k)" and "length (key_n k) \<le> 64" and "0 < length (key_n k)"
    and "odd (wval (key_n k))" and "1 < wval (key_n k)" and "good_base x (wval (key_n k))"
    and "0 < wval (key_d k)" and "0 < unat (key_e k)" and "unat (key_e k) < 2 ^ 31"
    and "x ^ (unat (key_e k) * wval (key_d k)) mod wval (key_n k) = x mod wval (key_n k)"
proof -
  define h p q where "h = length (key_p k)" and "p = wval (key_p k)" and "q = wval (key_q k)"
  note ok = assms [unfolded rsa_key_ok_def Let_def, folded h_def p_def q_def]
  have pr: "1 < q" "q < p" "wval (key_n k) = p * q"
    and qinv: "wval (key_qinv k) * q mod p = 1"
    and len: "length (key_n k) = 2 * h" "key_nbits k = 128 * h" "h \<le> 32"
    using ok by simp_all
  let ?ed = "unat (key_e k) * wval (key_d k)"
  obtain ps qs where ps: "distinct_primes ps p" "\<forall>r \<in> set ps. ?ed mod (r - 1) = 1"
    and qs: "distinct_primes qs q" "\<forall>r \<in> set qs. ?ed mod (r - 1) = 1"
    using ok by blast
  have rs: "distinct_primes (ps @ qs) (p * q)" "\<forall>r \<in> set (ps @ qs). ?ed mod (r - 1) = 1"
    using primes_append [OF ps(1) qs(1) inverse_coprime [OF qinv]] ps(2) qs(2) by auto
  have two: "\<forall>r \<in> set (ps @ qs). r \<noteq> 2"
  proof
    fix r assume "r \<in> set (ps @ qs)"
    with rs(2) have "?ed mod (r - 1) = 1" by blast
    then show "r \<noteq> 2" by (intro notI) simp
  qed
  have "0 < h" using pr by (auto simp: p_def h_def)
  then show "key_nbits k = 64 * length (key_n k)" "length (key_n k) \<le> 64" "0 < length (key_n k)"
    using len by simp_all
  show "odd (wval (key_n k))" unfolding pr(3) by (rule primes_odd [OF rs(1) two])
  show "1 < wval (key_n k)" using less_1_mult [of p q] pr by simp
  show "good_base x (wval (key_n k))" unfolding pr(3) by (rule primes_good_base [OF rs(1)])
  have "ps @ qs \<noteq> []" using rs(1) pr by auto
  then obtain r where "r \<in> set (ps @ qs)" by (meson list.set_sel(1))
  then have pos: "0 < ?ed" using rs(2) by (intro Nat.gr0I) auto
  then show "0 < wval (key_d k)" by simp
  show "0 < unat (key_e k)" "unat (key_e k) < 2 ^ 31" using ok by simp_all
  have one: "1 mod (r - 1) = (1 :: nat)" if "z mod (r - 1) = 1" for z r :: nat
    using that by (metis mod_mod_trivial)
  have "x ^ ?ed mod (p * q) = x ^ 1 mod (p * q)"
  proof (rule primes_power [OF rs(1) _ pos])
    show "\<forall>r \<in> set (ps @ qs). ?ed mod (r - 1) = 1 mod (r - 1)"
    proof
      fix r assume "r \<in> set (ps @ qs)"
      with rs(2) have "?ed mod (r - 1) = 1" by blast
      then show "?ed mod (r - 1) = 1 mod (r - 1)" using one by metis
    qed
  qed simp
  then show "x ^ ?ed mod wval (key_n k) = x mod wval (key_n k)" unfolding pr(3) by simp
qed

lemma rsa_decrypt_slow_run:
  assumes ok: "rsa_key_ok k" and c: "length c = length (key_n k)"
  shows "\<exists>r. rsa_decrypt_slow k c = Some r \<and> length r = length (key_n k) \<and>
    wval r = wval c ^ wval (key_d k) mod wval (key_n k)"
  unfolding rsa_decrypt_slow_def
  using key_facts(4,6,7) [OF ok] c by (intro wp_exp_mod_montgomery_power) simp_all

lemma rsa_decrypt_run:
  assumes ok: "rsa_key_ok k" and c: "length c = length (key_n k)" "wval c < wval (key_n k)"
  shows "\<exists>r. rsa_choose_decrypt k c = Some r \<and> rsa_decrypt_fast k c = Some r \<and> rsa_decrypt_slow k c = Some r \<and>
    length r = length (key_n k) \<and> wval r = wval c ^ wval (key_d k) mod wval (key_n k)"
proof -
  obtain r where r: "rsa_decrypt_fast k c = Some r" "length r = length (key_n k)"
    "wval r = wval c ^ wval (key_d k) mod wval (key_n k)"
    using rsa_decrypt_fast_run [OF ok c] by blast
  obtain s where s: "rsa_decrypt_slow k c = Some s" "length s = length (key_n k)"
    "wval s = wval c ^ wval (key_d k) mod wval (key_n k)"
    using rsa_decrypt_slow_run [OF ok c(1)] by blast
  have "r = s" using r s by (intro wval_inj) simp_all
  then show ?thesis using r s by (auto simp: rsa_choose_decrypt_def)
qed

lemma sint_ucast_small: "unat (x :: u64) < 2 ^ 31 \<Longrightarrow> sint (ucast x :: u32) = int (unat x)"
proof -
  assume "unat x < 2 ^ 31"
  then have "int (unat x) < int (2 ^ 31)" by (simp only: of_nat_less_iff)
  then have x: "uint x < 2 ^ 31" by simp
  then have "uint (ucast x :: u32) = uint x" by (simp add: unsigned_ucast_eq take_bit_int_eq_self)
  moreover have "signed_take_bit 31 (uint x) = uint x"
  proof (rule signed_take_bit_int_eq_self)
    show "- (2 ^ 31) \<le> uint x" by (rule order_trans [of _ 0]) simp_all
  qed (rule x)
  ultimately show ?thesis by (simp add: sint_uint)
qed

lemma rsa_do_encrypt_run:
  assumes ok: "rsa_key_ok k" and x: "length x = length (key_n k)"
    and key: "key_nbits pub = key_nbits k" "key_n pub = key_n k" "key_e pub = key_e k"
    and res: "8 * length (key_n k) \<le> length result"
  shows "\<exists>r. rsa_do_encrypt pub x result = Some (bytes_of r @ drop (8 * length (key_n k)) result) \<and>
    length r = length (key_n k) \<and> wval r = wval x ^ unat (key_e k) mod wval (key_n k)"
proof -
  note facts = key_facts [OF ok]
  let ?w = "length (key_n k)" and ?e = "unat (key_e k)"
  have w: "key_nbits k div 64 = ?w" using facts(1) by simp
  have e: "sint (ucast (key_e k) :: u32) = int ?e" by (rule sint_ucast_small [OF facts(9)])
  have "?e < wbase" by (rule unat_lt_wbase)
  then have ev: "wval (wp_init ?w ?e) = ?e" using facts(3) by (intro wval_wp_init)
  obtain r where r: "wp_exp_mod_montgomery x (wp_init ?w ?e) (key_n k) = Some r" "length r = ?w"
    "wval r = wval x ^ ?e mod wval (key_n k)"
    using wp_exp_mod_montgomery_power [OF facts(4) x, of "wp_init ?w ?e"] facts(6,8) ev by auto
  have "rsa_int_to_bytes (key_nbits k) result r = Some (bytes_of r @ drop (8 * ?w) result)"
    using rsa_int_to_bytes_run [of "key_nbits k" result r] r(2) res w by simp
  then show ?thesis
    using r by (intro exI [of _ r]) (simp add: rsa_do_encrypt_def Let_def key e w)
qed

text \<open>Exponentiation with one exponent undoes the other.\<close>

lemma rsa_inverse:
  assumes ok: "rsa_key_ok k" and "x < wval (key_n k)"
  shows "(x ^ unat (key_e k) mod wval (key_n k)) ^ wval (key_d k) mod wval (key_n k) = x"
    and "(x ^ wval (key_d k) mod wval (key_n k)) ^ unat (key_e k) mod wval (key_n k) = x"
proof -
  let ?n = "wval (key_n k)" and ?e = "unat (key_e k)" and ?d = "wval (key_d k)"
  have "(x ^ ?e mod ?n) ^ ?d mod ?n = x ^ (?e * ?d) mod ?n"
    and "(x ^ ?d mod ?n) ^ ?e mod ?n = x ^ (?e * ?d) mod ?n"
    by (simp_all add: power_mod mult.commute flip: power_mult)
  then show "(x ^ ?e mod ?n) ^ ?d mod ?n = x" and "(x ^ ?d mod ?n) ^ ?e mod ?n = x"
    using key_facts(10) [OF ok, of x] assms(2) by simp_all
qed

lemma public_key [simp]:
  "key_nbits (wp_rsa_get_public_key k) = key_nbits k" "key_n (wp_rsa_get_public_key k) = key_n k"
  "key_e (wp_rsa_get_public_key k) = key_e k"
  by (simp_all add: wp_rsa_get_public_key_def wp_rsa_key.truncate_def)

lemma words_of_bytes_of_all [simp]: "words_of (length ws) (bytes_of ws) = ws"
  using words_of_bytes_of [of ws "[]"] by simp

lemma rsa_roundtrip:
  assumes ok: "rsa_key_ok k" and junk: "length junk = 64" "length junk' = 64" and seed: "length seed = 20"
    and data: "pad_fits (key_nbits k div 8) pad (length data)" "pad = PADDING_NONE \<Longrightarrow> bval data < wval (key_n k)"
      "pad \<noteq> PADDING_NONE \<Longrightarrow> 2 * 256 ^ (key_nbits k div 8 - 1) \<le> wval (key_n k)"
    and fits: "key_nbits k div 8 \<le> length result" "key_nbits k div 8 \<le> length buf" "length buf < 520"
  shows "\<exists>c out. wp_rsa_encrypt junk (wp_rsa_get_public_key k) data result pad seed =
      Some (int (key_nbits k div 8), c) \<and> length c = length result \<and>
    wp_rsa_decrypt junk' k (take (key_nbits k div 8) c) buf pad = Some (int (length data), out) \<and>
    length out = length buf \<and> take (length data) out = data"
proof -
  note facts = key_facts [OF ok]
  define w where "w = length (key_n k)"
  have w: "key_nbits k = 64 * w" "key_nbits k div 8 = 8 * w" "key_nbits k div 64 = w" "w \<le> 64" "0 < w"
    using facts(1,2,3) by (simp_all add: w_def)
  have sizes: "w \<le> length junk" "w \<le> length junk'" "8 * w \<le> length buf" "8 * w \<le> length result"
    "length buf div 8 \<le> length junk'"
    using w junk fits by simp_all
  have data': "pad_fits (8 * w) pad (length data)" using data(1) w by simp
  note pad_run = rsa_pad_run [OF w(1,4) sizes(1) data' seed]
  obtain r where r: "rsa_pad (key_nbits k) junk data pad seed = Some (8 * w, r)" "length r = length junk"
    "pad = PADDING_NONE \<longrightarrow> bytes_of (take w r) = data"
    "pad \<noteq> PADDING_NONE \<longrightarrow> wval (take w r) < 2 * 256 ^ (8 * w - 1)"
    using pad_run [OF sizes(2,3,5)] by blast
  let ?x = "take w r"
  have lx: "length ?x = length (key_n k)" using r(2) sizes(1) by (simp add: w_def)
  have x: "wval ?x < wval (key_n k)"
  proof (cases "pad = PADDING_NONE")
    case True
    then show ?thesis using r(3) data(2) bval_bytes_of [of ?x] by simp
  next
    case False
    then show ?thesis using r(4) data(3) w(2) by simp
  qed
  obtain c where c: "rsa_do_encrypt (wp_rsa_get_public_key k) ?x result = Some (bytes_of c @ drop (8 * w) result)"
    "length c = w" "wval c = wval ?x ^ unat (key_e k) mod wval (key_n k)"
    using rsa_do_encrypt_run [OF ok lx, of "wp_rsa_get_public_key k" result] sizes(4) by (auto simp: w_def)
  let ?c = "bytes_of c @ drop (8 * w) result"
  have enc: "wp_rsa_encrypt junk (wp_rsa_get_public_key k) data result pad seed = Some (int (8 * w), ?c)"
    using sizes(4) r(1) c(1) by (simp add: wp_rsa_encrypt_def Let_def w)
  have "wval c < wval (key_n k)" using c(3) facts(5) by simp
  then obtain m where m: "rsa_choose_decrypt k c = Some m" "length m = w"
    "wval m = wval c ^ wval (key_d k) mod wval (key_n k)"
    using rsa_decrypt_run [OF ok, of c] c(2) by (auto simp: w_def)
  have "wval m = wval ?x" unfolding m(3) c(3) by (rule rsa_inverse [OF ok x])
  then have mx: "m = ?x" using m(2) lx by (intro wval_inj) (simp_all add: w_def)
  let ?d = "wp_copy w junk' m"
  have ld: "length ?d = 64" "take w ?d = ?x"
    using m(2) sizes(2) junk(2) by (simp_all add: wp_copy_def mx)
  obtain r' out where "rsa_pad (key_nbits k) junk data pad seed = Some (8 * w, r')" and
    un: "take w ?d = take w r' \<longrightarrow> rsa_unpad (key_nbits k) buf ?d (8 * w) pad = Some (int (length data), out) \<and>
       length out = length buf \<and> take (length data) out = data"
    using pad_run [of ?d buf] sizes(3,5) ld(1) w(4) junk(2) by auto
  then have out: "rsa_unpad (key_nbits k) buf ?d (8 * w) pad = Some (int (length data), out)"
    "length out = length buf" "take (length data) out = data"
    using r(1) ld(2) by simp_all
  have from_bytes: "rsa_int_from_bytes (key_nbits k) junk' (bytes_of c) = Some (c @ drop w junk')"
    using rsa_int_from_bytes_run [of "key_nbits k" "bytes_of c" junk'] c(2) sizes(2) w(3)
      words_of_bytes_of_all [of c] by simp
  have "8 * w * 8 = key_nbits k" "\<not> wp_rsa_max_key_bytes < 8 * w"
    using w by (simp_all add: wp_rsa_max_key_bytes_def wp_rsa_max_key_bits_def)
  then have dec: "wp_rsa_decrypt junk' k (bytes_of c) buf pad = Some (int (length data), out)"
    using c(2) sizes(3) from_bytes m(1) out(1) by (simp add: wp_rsa_decrypt_def Let_def w)
  have parts: "take (8 * w) ?c = bytes_of c" "length ?c = length result" using c(2) sizes(4) by simp_all
  show ?thesis
    unfolding w(2) by (rule exI [of _ ?c], rule exI [of _ out]) (simp only: parts enc dec out simp_thms)
qed

section \<open>Signatures are unique\<close>

definition digest_bytes :: "nat \<Rightarrow> u8 list \<Rightarrow> sig_encoding \<Rightarrow> u8 list" where
  "digest_bytes nbytes hash enc = (case enc of
     SIG_ENCODING_NONE \<Rightarrow> hash
   | SIG_ENCODING_SHA512 \<Rightarrow> [0, 1] @ replicate (nbytes - 86) 0xff @ [0] @ sha512_der_prefix @ hash)"

definition digest_fits :: "nat \<Rightarrow> u8 list \<Rightarrow> sig_encoding \<Rightarrow> bool" where
  "digest_fits nbytes hash enc = (case enc of
     SIG_ENCODING_NONE \<Rightarrow> length hash = nbytes
   | SIG_ENCODING_SHA512 \<Rightarrow> length hash = 64 \<and> 86 \<le> nbytes)"

lemma length_digest_bytes: "digest_fits nbytes hash enc \<Longrightarrow> length (digest_bytes nbytes hash enc) = nbytes"
  by (auto simp: digest_fits_def digest_bytes_def sha512_der_prefix_def split: sig_encoding.splits)

lemma sig_digest_run:
  assumes nbits: "nbits = 64 * n" "n \<le> 64" and junk: "length junk = 64" and fits: "digest_fits (8 * n) hash enc"
  shows "sig_digest nbits hash junk enc = Some (words_of n (digest_bytes (8 * n) hash enc) @ drop n junk)"
proof (cases enc)
  case SIG_ENCODING_NONE
  then show ?thesis
    using rsa_int_from_bytes_run [of nbits hash junk] assms
    by (simp add: sig_digest_def digest_fits_def digest_bytes_def)
next
  case SIG_ENCODING_SHA512
  define nb where "nb = 8 * n"
  have nb: "nbits div 8 = nb" "86 \<le> nb" "nb \<le> 512" "length hash = 64"
    using fits nbits SIG_ENCODING_SHA512 by (simp_all add: digest_fits_def nb_def)
  define rest where "rest = drop nb (memory_of junk)"
  have lp: "length sha512_der_prefix = 19" by (simp add: sha512_der_prefix_def)
  have "length (memory_of junk) = 512" using junk by simp
  then have lm: "length (take nb (memory_of junk)) = nb" using nb(3) by simp
  define z where "z = take nb (memory_of junk)"
  obtain a b ff c pre hs where z: "z = a # b # ff @ [c] @ pre @ hs"
    and lz: "length ff = nb - 86" "length pre = 19" "length hs = 64"
  proof
    show "z = z ! 0 # z ! 1 # take (nb - 86) (drop 2 z) @ [z ! (nb - 84)] @ take 19 (drop (nb - 83) z) @ drop (nb - 64) z"
    proof (rule nth_equalityI)
      show "length z = length (z ! 0 # z ! 1 # take (nb - 86) (drop 2 z) @ [z ! (nb - 84)] @ take 19 (drop (nb - 83) z) @ drop (nb - 64) z)"
        using lm nb(2) by (simp add: z_def)
      fix i assume "i < length z"
      then show "z ! i = (z ! 0 # z ! 1 # take (nb - 86) (drop 2 z) @ [z ! (nb - 84)] @ take 19 (drop (nb - 83) z) @ drop (nb - 64) z) ! i"
        using lm nb(2) by (auto simp: z_def [symmetric] nth_Cons' nth_append Suc_diff_le
            intro!: arg_cong [where f = "(!) z"])
    qed
  qed (use lm nb(2) in \<open>simp_all add: z_def\<close>)
  let ?ff = "replicate (nb - 86) 0xff"
  have mem: "memory_of junk = a # b # ff @ [c] @ pre @ hs @ rest"
    using z by (simp add: z_def rest_def) (metis append_Cons append_assoc append_take_drop_id)
  have 1: "(memory_of junk)[0 := 0, 1 := 1] = [0, 1] @ ff @ [c] @ pre @ hs @ rest"
    unfolding mem by simp
  have 2: "memcpy ([0, 1] @ ff @ [c] @ pre @ hs @ rest) 2 ?ff = ([0, 1] @ ?ff) @ c # pre @ hs @ rest"
    using memcpy_middle [of 2 "[0, 1]" ff ?ff "[c] @ pre @ hs @ rest"] lz(1) by simp
  have l: "length ([0, 1] @ ?ff) = nb - 84" using nb(2) by simp
  have 3: "(([0, 1] @ ?ff) @ c # pre @ hs @ rest)[nb - 84 := 0] = ([0, 1] @ ?ff @ [0]) @ pre @ hs @ rest"
    using list_update_length [of "[0, 1] @ ?ff" c "pre @ hs @ rest" 0] unfolding l by simp
  have l4: "nb - 83 = length ([0, 1] @ ?ff @ [0])" using nb(2) by simp
  have l5: "nb - 64 = length ([0, 1] @ ?ff @ [0] @ sha512_der_prefix)" using nb(2) lp by simp
  have 4: "memcpy (([0, 1] @ ?ff @ [0]) @ pre @ hs @ rest) (nb - 83) sha512_der_prefix =
      ([0, 1] @ ?ff @ [0] @ sha512_der_prefix) @ hs @ rest"
    using memcpy_middle [OF l4, of pre sha512_der_prefix "hs @ rest"] lz(2) lp by simp
  have 5: "memcpy (([0, 1] @ ?ff @ [0] @ sha512_der_prefix) @ hs @ rest) (nb - 64) hash =
      digest_bytes nb hash enc @ rest"
    using memcpy_middle [OF l5, of hs hash rest] lz(3) nb(4) by (simp add: digest_bytes_def SIG_ENCODING_SHA512)
  have sizes: "sha512_size = 64" "64 + (19 :: nat) = 83" by (simp_all add: sha512_size_def)
  have no: "\<not> (wp_rsa_max_key_bytes < 83 + 11 \<or> nb < 3 + 83 \<or> 8 * length junk < nb - 64 + length hash)"
    using nb junk by (simp add: wp_rsa_max_key_bytes_def wp_rsa_max_key_bits_def)
  have sub: "nb - 3 - 83 = nb - 86" "nb - 83 - 1 = nb - 84" by simp_all
  have "sig_digest nbits hash junk enc = rsa_int_from_bytes nbits junk (digest_bytes nb hash enc @ rest)"
    unfolding sig_digest_def SIG_ENCODING_SHA512 sig_encoding.case Let_def nb(1) lp sizes if_not_P [OF no] sub 1 2 3 4
      5 [unfolded SIG_ENCODING_SHA512] by (rule refl)
  also have "\<dots> = Some (words_of n (digest_bytes nb hash enc @ rest) @ drop n junk)"
    using rsa_int_from_bytes_run [of nbits "digest_bytes nb hash enc @ rest" junk] nbits junk
      length_digest_bytes [OF fits] by (simp add: nb_def)
  also have "words_of n (digest_bytes nb hash enc @ rest) = words_of n (digest_bytes nb hash enc)"
    using words_of_take [of n nb "digest_bytes nb hash enc @ rest"] length_digest_bytes [OF fits]
    by (simp add: nb_def)
  finally show ?thesis by (simp add: nb_def)
qed

lemma bytes_eq_iff: "length b = 8 * length ws \<Longrightarrow> bytes_of ws = b \<longleftrightarrow> wval ws = bval b"
proof -
  assume len: "length b = 8 * length ws"
  have b: "bytes_of (words_of (length ws) b) = b" using bytes_of_words_of [of "length ws" b] len by simp
  show ?thesis
  proof
    assume "wval ws = bval b"
    then have "wval ws = wval (words_of (length ws) b)" using b by (metis bval_bytes_of)
    then have "ws = words_of (length ws) b" by (intro wval_inj) simp_all
    then show "bytes_of ws = b" using b by simp
  qed (use bval_bytes_of in metis)
qed

lemma wp_rsa_verify_run:
  assumes ok: "rsa_key_ok k" and junk: "length junk = 64" and fits: "digest_fits (key_nbits k div 8) hash enc"
    and s: "length s = key_nbits k div 8"
  shows "wp_rsa_verify junk (wp_rsa_get_public_key k) hash s enc =
    Some (if bval s ^ unat (key_e k) mod wval (key_n k) = bval (digest_bytes (key_nbits k div 8) hash enc) then 1 else 0)"
proof -
  note facts = key_facts [OF ok]
  define w where "w = length (key_n k)"
  have w: "key_nbits k = 64 * w" "key_nbits k div 8 = 8 * w" "key_nbits k div 64 = w" "w \<le> 64"
    using facts(1,2) by (simp_all add: w_def)
  let ?db = "digest_bytes (8 * w) hash enc"
  let ?dw = "words_of w ?db" and ?sw = "words_of w s"
  have ldb: "length ?db = 8 * w" using length_digest_bytes fits w(2) by metis
  have ls: "length s = 8 * w" using s w(2) by simp
  have b: "bytes_of ?dw = ?db" "bytes_of ?sw = s"
    using bytes_of_words_of [of w ?db] bytes_of_words_of [of w s] ldb ls by simp_all
  have digest: "sig_digest (key_nbits k) hash junk enc = Some (?dw @ drop w junk)"
    using sig_digest_run [OF w(1,4) junk] fits w(2) by metis
  have digestb: "rsa_int_to_bytes (key_nbits k) (memory_of junk) (?dw @ drop w junk) =
      Some (?db @ drop (8 * w) (memory_of junk))"
    using rsa_int_to_bytes_run [of "key_nbits k" "memory_of junk" "?dw @ drop w junk"] junk w b(1) by simp
  have sw: "rsa_int_from_bytes (key_nbits k) junk s = Some (?sw @ drop w junk)"
    using rsa_int_from_bytes_run [of "key_nbits k" s junk] ls junk w by simp
  have lsw: "length ?sw = length (key_n k)" and lm: "8 * length (key_n k) \<le> length (memory_of junk)"
    using junk w(4) by (simp_all add: w_def [symmetric])
  obtain r where r: "rsa_do_encrypt (wp_rsa_get_public_key k) ?sw (memory_of junk) =
      Some (bytes_of r @ drop (8 * w) (memory_of junk))" "length r = w"
    "wval r = wval ?sw ^ unat (key_e k) mod wval (key_n k)"
    using rsa_do_encrypt_run [OF ok lsw _ _ _ lm, of "wp_rsa_get_public_key k"] by (auto simp: w_def)
  have tk: "take w (?sw @ drop w junk) = ?sw" by simp
  have tb: "take (8 * w) (bytes_of r @ drop (8 * w) (memory_of junk)) = bytes_of r"
    "take (8 * w) (?db @ drop (8 * w) (memory_of junk)) = ?db"
    using r(2) ldb by simp_all
  have "wval ?sw = bval s" using bval_bytes_of [of ?sw] b(2) by simp
  then have eq: "bytes_of r = ?db \<longleftrightarrow> bval s ^ unat (key_e k) mod wval (key_n k) = bval ?db"
    using bytes_eq_iff [of ?db r] r(2,3) ldb by simp
  have "\<not> (length s \<noteq> key_nbits k div 8 \<or> key_nbits k > wp_rsa_max_key_bits)"
    using s w by (simp add: wp_rsa_max_key_bits_def)
  then show ?thesis
    unfolding wp_rsa_verify_def Let_def public_key w(2,3) ls digest digestb sw bind.simps tk r(1) tb eq
    by (simp add: w(2) ls)
qed

lemma wp_rsa_sign_run:
  assumes ok: "rsa_key_ok k" and junk: "length junk = 64" and fits: "digest_fits (key_nbits k div 8) hash enc"
    and small: "bval (digest_bytes (key_nbits k div 8) hash enc) < wval (key_n k)"
    and sig: "key_nbits k div 8 \<le> length sig"
  shows "\<exists>s. wp_rsa_sign junk k hash sig enc = Some (1, s) \<and> length s = length sig \<and>
    bval (take (key_nbits k div 8) s) =
      bval (digest_bytes (key_nbits k div 8) hash enc) ^ wval (key_d k) mod wval (key_n k)"
proof -
  note facts = key_facts [OF ok]
  define w where "w = length (key_n k)"
  have w: "key_nbits k = 64 * w" "key_nbits k div 8 = 8 * w" "key_nbits k div 64 = w" "w \<le> 64"
    using facts(1,2) by (simp_all add: w_def)
  let ?db = "digest_bytes (8 * w) hash enc"
  let ?dw = "words_of w ?db"
  have ldb: "length ?db = 8 * w" using length_digest_bytes fits w(2) by metis
  have b: "bytes_of ?dw = ?db" using bytes_of_words_of [of w ?db] ldb by simp
  have dv: "wval ?dw = bval ?db" using bval_bytes_of [of ?dw] b by simp
  have digest: "sig_digest (key_nbits k) hash junk enc = Some (?dw @ drop w junk)"
    using sig_digest_run [OF w(1,4) junk] fits w(2) by metis
  obtain r where r: "rsa_choose_decrypt k ?dw = Some r" "length r = w"
    "wval r = bval ?db ^ wval (key_d k) mod wval (key_n k)"
    using rsa_decrypt_run [OF ok, of ?dw] small dv w(2) by (auto simp: w_def)
  have out: "rsa_int_to_bytes (key_nbits k) sig r = Some (bytes_of r @ drop (8 * w) sig)"
    using rsa_int_to_bytes_run [of "key_nbits k" sig r] sig w r(2) by simp
  have guard: "\<not> (length sig < 8 * w \<or> key_nbits k > wp_rsa_max_key_bits)"
    using sig w by (simp add: wp_rsa_max_key_bits_def)
  have tk: "take w (?dw @ drop w junk) = ?dw" by simp
  have "wp_rsa_sign junk k hash sig enc = Some (1, bytes_of r @ drop (8 * w) sig)"
    unfolding wp_rsa_sign_def w(2,3) if_not_P [OF guard] digest bind.simps tk r(1) out by (rule refl)
  moreover have "bval (take (8 * w) (bytes_of r @ drop (8 * w) sig)) = wval r"
    using r(2) bval_bytes_of [of r] by simp
  ultimately show ?thesis using r(2,3) sig w(2) by simp
qed

lemma signature_unique:
  assumes ok: "rsa_key_ok k" and junk: "length junk = 64" "length junk' = 64"
    and fits: "digest_fits (key_nbits k div 8) hash enc"
    and small: "bval (digest_bytes (key_nbits k div 8) hash enc) < wval (key_n k)"
    and sig: "key_nbits k div 8 \<le> length sig"
  shows "\<exists>s. wp_rsa_sign junk k hash sig enc = Some (1, s) \<and> length s = length sig \<and>
    (\<forall>t. length t = key_nbits k div 8 \<and> bval t < wval (key_n k) \<longrightarrow>
       wp_rsa_verify junk' (wp_rsa_get_public_key k) hash t enc =
         Some (if t = take (key_nbits k div 8) s then 1 else 0)) \<and>
    bval (take (key_nbits k div 8) s) < wval (key_n k)"
proof -
  let ?kb = "key_nbits k div 8" and ?n = "wval (key_n k)" and ?e = "unat (key_e k)" and ?d = "wval (key_d k)"
  let ?D = "bval (digest_bytes ?kb hash enc)"
  obtain s where s: "wp_rsa_sign junk k hash sig enc = Some (1, s)" "length s = length sig"
    "bval (take ?kb s) = ?D ^ ?d mod ?n"
    using wp_rsa_sign_run [OF ok junk(1) fits small sig] by blast
  have "t ^ ?e mod ?n = ?D \<longleftrightarrow> t = ?D ^ ?d mod ?n" if "t < ?n" for t
    using rsa_inverse [OF ok that] rsa_inverse [OF ok small] by metis
  moreover have "bval t = bval (take ?kb s) \<longleftrightarrow> t = take ?kb s" if "length t = ?kb" for t
  proof
    assume eq: "bval t = bval (take ?kb s)"
    have kb: "?kb = 8 * length (key_n k)" using key_facts(1) [OF ok] by simp
    have "length (take ?kb s) = ?kb" using s(2) sig by simp
    then have "bytes_of (words_of (length (key_n k)) (take ?kb s)) = take ?kb s"
      and "bytes_of (words_of (length (key_n k)) t) = t"
      using that kb bytes_of_words_of [of "length (key_n k)"] by simp_all
    then show "t = take ?kb s"
      using eq bytes_eq_iff [of t "words_of (length (key_n k)) (take ?kb s)"] that kb
      by (metis bval_bytes_of length_words_of)
  qed simp
  ultimately have "wp_rsa_verify junk' (wp_rsa_get_public_key k) hash t enc = Some (if t = take ?kb s then 1 else 0)"
    if "length t = ?kb" "bval t < ?n" for t
    using that wp_rsa_verify_run [OF ok junk(2) fits that(1)] s(3) by simp
  moreover have "bval (take ?kb s) < ?n" using s(3) key_facts(5) [OF ok] by simp
  ultimately show ?thesis using s(1,2) by blast
qed

section \<open>Properties\<close>

text \<open>A key of 128 bits for the examples: 77 = 11 * 7, with the exponents 7 and 43.\<close>

definition example_key :: wp_rsa_key_pair where
  "example_key = \<lparr>key_nbits = 128, key_n = [0, 77], key_e = 7, key_d = [0, 43], key_p = [11], key_q = [7],
     key_dp = [3], key_dq = [1], key_qinv = [8]\<rparr>"

lemma wval_pair: "wval [0, x] = unat x" and wval_single: "wval [x] = unat x"
  by (simp_all add: wval_Cons)

lemma example_primes: "prime_number 7" "prime_number 11"
  by (simp_all add: prime_number_def atLeastLessThan_nat_numeral dvd_eq_mod_eq_0)

lemma example_key_ok: "rsa_key_ok example_key"
  by (rule rsa_key_ok_primes) (simp_all add: example_key_def wval_pair wval_single example_primes)

lemma example_key_fields [simp]:
  "key_nbits example_key = 128" "key_n example_key = [0, 77]" "key_d example_key = [0, 43]"
  by (simp_all add: example_key_def)

text \<open>
  C6: For a correct key pair and a number below the modulus, decryption through the two primes and
  decryption with the private exponent return the same array, and it holds the power of the number
  by the private exponent modulo \<open>n\<close>; so the choice made by \<open>rsa_choose_decrypt\<close> is not visible.
\<close>

theorem rsa_decrypt_equivalent:
  assumes "rsa_key_ok k" and "length c = length (key_n k)" and "wval c < wval (key_n k)"
  shows "\<exists>r. rsa_choose_decrypt k c = Some r \<and> rsa_decrypt_fast k c = Some r \<and> rsa_decrypt_slow k c = Some r \<and>
    length r = length (key_n k) \<and> wval r = wval c ^ wval (key_d k) mod wval (key_n k)"
  by (rule rsa_decrypt_run [OF assms])

theorem rsa_decrypt_equivalent_witness:
  "\<exists>r. rsa_choose_decrypt example_key [0, 30] = Some r \<and> rsa_decrypt_fast example_key [0, 30] = Some r \<and>
    wval r = 30 ^ 43 mod 77"
  using rsa_decrypt_equivalent [OF example_key_ok, of "[0, 30]"]
  by (auto simp: wval_pair)

text \<open>
  C5: What \<open>wp_rsa_encrypt\<close> encrypts with the public half of a correct key pair, \<open>wp_rsa_decrypt\<close> gives
  back, with its length, for every padding, every seed, and whatever the memory held before: the
  data must fit the padding, without padding it must be a number below \<open>n\<close>, and with padding the top
  bits of \<open>n\<close> must be set, as \<open>generate_prime\<close> sets them. Without padding the size of the result is
  \<open>nbits / 8\<close>, as the comment in \<open>wp_rsa.c\<close> has it; \<open>wp_rsa.h\<close> says \<open>nbits / 8 - 1\<close>.
\<close>

theorem rsa_encrypt_decrypt:
  assumes "rsa_key_ok k" and "length junk = 64" "length junk' = 64" and "length seed = 20"
    and "pad_fits (key_nbits k div 8) pad (length data)" "pad = PADDING_NONE \<Longrightarrow> bval data < wval (key_n k)"
      "pad \<noteq> PADDING_NONE \<Longrightarrow> 2 * 256 ^ (key_nbits k div 8 - 1) \<le> wval (key_n k)"
    and "key_nbits k div 8 \<le> length result" "key_nbits k div 8 \<le> length buf" "length buf < 520"
  shows "\<exists>c out. wp_rsa_encrypt junk (wp_rsa_get_public_key k) data result pad seed =
      Some (int (key_nbits k div 8), c) \<and> length c = length result \<and>
    wp_rsa_decrypt junk' k (take (key_nbits k div 8) c) buf pad = Some (int (length data), out) \<and>
    length out = length buf \<and> take (length data) out = data"
  by (rule rsa_roundtrip [OF assms])

lemma example_data [simp]: "bval (replicate n 0) = 0"
  by (induction n) (simp_all flip: replicate_append_same)

theorem rsa_encrypt_decrypt_witness:
  "\<exists>c out. wp_rsa_encrypt (replicate 64 0) (wp_rsa_get_public_key example_key) (replicate 15 0 @ [42])
      (replicate 16 0) PADDING_NONE (replicate 20 5) = Some (16, c) \<and>
    wp_rsa_decrypt (replicate 64 0) example_key (take 16 c) (replicate 16 0) PADDING_NONE = Some (16, out) \<and>
    take 16 out = replicate 15 0 @ [42]"
  using rsa_encrypt_decrypt [OF example_key_ok, of "replicate 64 0" "replicate 64 0" "replicate 20 5" PADDING_NONE
      "replicate 15 0 @ [42]" "replicate 16 0" "replicate 16 0"]
  by (auto simp: pad_fits_def wval_pair)

text \<open>
  C19: With a correct key pair \<open>wp_rsa_sign\<close> makes a signature below \<open>n\<close> that \<open>wp_rsa_verify\<close> accepts with
  the public half, and it accepts no other array of bytes that is below \<open>n\<close>. Without the restriction
  there may be others: \<open>wp_rsa_verify\<close> does not compare the signature with \<open>n\<close>.
\<close>

theorem signature_is_unique:
  assumes "rsa_key_ok k" and "length junk = 64" "length junk' = 64"
    and "digest_fits (key_nbits k div 8) hash enc"
    and "bval (digest_bytes (key_nbits k div 8) hash enc) < wval (key_n k)"
    and "key_nbits k div 8 \<le> length sig"
  shows "\<exists>s. wp_rsa_sign junk k hash sig enc = Some (1, s) \<and> length s = length sig \<and>
    (\<forall>t. length t = key_nbits k div 8 \<and> bval t < wval (key_n k) \<longrightarrow>
       wp_rsa_verify junk' (wp_rsa_get_public_key k) hash t enc =
         Some (if t = take (key_nbits k div 8) s then 1 else 0)) \<and>
    bval (take (key_nbits k div 8) s) < wval (key_n k)"
  by (rule signature_unique [OF assms])

theorem signature_is_unique_witness:
  "\<exists>s. wp_rsa_sign (replicate 64 0) example_key (replicate 15 0 @ [42]) (replicate 16 0) SIG_ENCODING_NONE = Some (1, s) \<and>
    wp_rsa_verify (replicate 64 0) (wp_rsa_get_public_key example_key) (replicate 15 0 @ [42]) s SIG_ENCODING_NONE = Some 1"
proof -
  let ?z = "replicate 64 0" and ?m = "replicate 15 0 @ [42]"
  obtain s where s: "wp_rsa_sign ?z example_key ?m (replicate 16 0) SIG_ENCODING_NONE = Some (1, s)" "length s = 16"
    "\<forall>t. length t = 16 \<and> bval t < 77 \<longrightarrow>
      wp_rsa_verify ?z (wp_rsa_get_public_key example_key) ?m t SIG_ENCODING_NONE = Some (if t = take 16 s then 1 else 0)"
    "bval (take 16 s) < 77"
    using signature_is_unique [OF example_key_ok, of ?z ?z ?m SIG_ENCODING_NONE "replicate 16 0"]
    by (auto simp: digest_fits_def digest_bytes_def wval_pair)
  then show ?thesis by (intro exI [of _ s]) simp
qed

end
