(* ===== verification/ExampleKey.thy ===== *)
theory ExampleKey
  imports RsaCrypt
begin

text \<open>
  A key of 896 bits for examples. Its numbers \<open>p\<close> and \<open>q\<close> are products of small primes, so that the
  simplifier can check that the key is correct; one is subtracted from every prime in a divisor of
  367567200, which keeps the private exponent small.
\<close>

definition example_primes_p :: "nat list" where
  "example_primes_p = [103, 109, 131, 137, 181, 199, 239, 281, 307, 331, 379, 401, 421, 443, 463, 547, 601, 617, 661,
     757, 859, 911, 953, 991, 1051, 1123, 1201, 1301, 1327, 1429, 1531, 1871, 1951, 2081, 2143,
     2341, 2381, 2521, 2801, 2861, 2971, 3169, 3301, 3511, 3673, 3697]"

definition example_primes_q :: "nat list" where
  "example_primes_q = [101, 113, 127, 151, 157, 211, 241, 271, 313, 337, 353, 397, 409, 433, 521, 541, 613, 631, 673,
     701, 881, 919, 937, 1009, 1021, 1093, 1171, 1249, 1321, 1361, 1801, 1873, 2003, 2017, 2161,
     2311, 2377, 2551, 2731, 2857, 3061, 3121, 3361, 3433, 3571, 3851]"

definition message_key :: wp_rsa_key_pair where
  "message_key = \<lparr>key_nbits = 896,
     key_n = [17308130311648960953, 3926880361831502272, 3818441287180554668, 12724344765327105226,
     13193970834975903679, 2361052982252398493, 12492374346705643105, 8059685972023442528,
     11601235642944350775, 18234352583660779974, 3565020074343566042, 17507332517644915702,
     12173578723822953330, 6758226968798612139],
     key_e = 65537,
     key_d = [0, 0, 0, 0, 0, 0, 0, 0, 0, 0, 0, 0, 0, 100735073],
     key_p = [17995128685356805663, 7831726327217837714, 3167225028775311702, 15427996821589866818,
     9190993816697572356, 12038708225747333930, 6113302715745525121],
     key_q = [17742504420833070530, 1166050154806821398, 4752920563237196256, 7618395638317762179,
     18092973766097493611, 912160766799367591, 6487946886243227179],
     key_dp = [0, 0, 0, 0, 0, 0, 100735073],
     key_dq = [0, 0, 0, 0, 0, 0, 100735073],
     key_qinv = [6440182438623298037, 244229324618855246, 9679066391828637085, 16348931904600716185,
     12499265188379794610, 8257875240500487812, 14737293207869624706]\<rparr>"

text \<open>Numbers below 4096 are tested with the primes below 64.\<close>

definition first_primes :: "nat list" where
  "first_primes = [2, 3, 5, 7, 11, 13, 17, 19, 23, 29, 31, 37, 41, 43, 47, 53, 59, 61]"

definition not_divided :: "nat \<Rightarrow> bool" where
  "not_divided p \<longleftrightarrow> list_all (\<lambda>d. p mod d \<noteq> 0 \<or> d = p) first_primes"

lemma first_divisor: "2 \<le> d \<Longrightarrow> d < 64 \<Longrightarrow> \<exists>s \<in> set first_primes. s dvd d"
proof -
  assume d: "2 \<le> d" "d < 64"
  have "list_all (\<lambda>d. list_ex (\<lambda>s. d mod s = 0) first_primes) [2..<64]" by code_simp
  moreover have "d \<in> set [2..<64]" unfolding set_upt using d by (simp only: atLeastLessThan_iff simp_thms)
  ultimately have "list_ex (\<lambda>s. d mod s = 0) first_primes" unfolding list_all_iff by (rule bspec)
  then show ?thesis unfolding list_ex_iff by (simp only: dvd_eq_mod_eq_0)
qed

lemma small_prime:
  assumes "1 < p" and "p < 4096" and "not_divided p"
  shows "prime_number p"
proof -
  have divisor: "d = p" if d: "2 \<le> d" "d < 64" "d dvd p" for d
  proof -
    obtain s where s: "s \<in> set first_primes" "s dvd d" using first_divisor [OF d(1,2)] by blast
    then have "s dvd p" using d(3) by (rule_tac dvd_trans)
    then have "s = p" using s(1) assms(3) by (auto simp: not_divided_def list_all_iff dvd_eq_mod_eq_0)
    then show ?thesis using s(2) d(3) by (simp add: dvd_antisym)
  qed
  have "\<not> d dvd p" if d: "2 \<le> d" "d < p" for d
  proof
    assume "d dvd p"
    then obtain c where c: "p = d * c" by (rule dvdE)
    show False
    proof (cases "d < 64")
      case True
      then show False using divisor [OF d(1) True \<open>d dvd p\<close>] d(2) by simp
    next
      case False
      have "c < 64"
      proof (rule ccontr)
        assume "\<not> c < 64"
        then have "64 * 64 \<le> d * c" using False by (intro mult_le_mono) simp_all
        then show False using assms(2) c by simp
      qed
      moreover have "2 \<le> c"
      proof (rule ccontr)
        assume "\<not> 2 \<le> c"
        then have "c = 0 \<or> c = 1" by linarith
        then show False using c d assms(1) by auto
      qed
      ultimately have "c = p" using divisor [of c] c by simp
      then show False using c d by simp
    qed
  qed
  then show ?thesis using assms(1) by (auto simp: prime_number_def)
qed

lemma example_primes_prime:
  "list_all (\<lambda>r. 1 < r \<and> r < 4096 \<and> not_divided r) (example_primes_p @ example_primes_q)"
  unfolding example_primes_p_def example_primes_q_def not_divided_def first_primes_def by simp

lemma example_exponents:
  "list_all (\<lambda>r. 65537 * 100735073 mod (r - 1) = 1) (example_primes_p @ example_primes_q)"
  unfolding example_primes_p_def example_primes_q_def by simp

lemma example_products:
  "prod_list example_primes_p = 709044171965344895409681864999054342762785960627470796816761277526540881588537226647580618055026918025654127628290542093370510342708609"
  "prod_list example_primes_q = 699090269129221085675043288150503533795896989128812690226461851348951805385565420213635191149700705233918792534270883523967521409537579"
  unfolding example_primes_p_def example_primes_q_def by simp_all

lemma example_values:
  "wval (key_p message_key) = 709044171965344895409681864999054342762785960627470796816761277526540881588537226647580618055026918025654127628290542093370510342708609"
  "wval (key_q message_key) = 699090269129221085675043288150503533795896989128812690226461851348951805385565420213635191149700705233918792534270883523967521409537579"
  "wval (key_n message_key) = 495685881003758679302655319278098689077193401682407532992315637959886424921911780122885723913121802101359140697502100346667401205281091762025316424961642905408057639222577837739637546093883995804901058248034343265694769392074514303835960896506498422188038835633032317611"
  "wval (key_d message_key) = 100735073" "wval (key_dp message_key) = 100735073" "wval (key_dq message_key) = 100735073"
  "wval (key_qinv message_key) = 253756108352546097059671734050271089266569215359286901231536796008643601178899220917494238946285824805734235447001175238489120444027266"
  by (simp_all add: message_key_def wval_Cons wbase_def)

lemma example_fields [simp]:
  "key_nbits message_key = 896" "unat (key_e message_key) = 65537" "length (key_n message_key) = 14"
  "length (key_d message_key) = 14" "length (key_p message_key) = 7" "length (key_q message_key) = 7"
  "length (key_dp message_key) = 7" "length (key_dq message_key) = 7" "length (key_qinv message_key) = 7"
  by (simp_all add: message_key_def)

lemma example_product: "wval (key_n message_key) = wval (key_p message_key) * wval (key_q message_key)"
  unfolding example_values by simp

lemma mod_of_product: "z * q = j * p + 1 \<Longrightarrow> 1 < p \<Longrightarrow> z * q mod p = (1 :: nat)"
  by (simp only: mod_mult_self3 mod_less)

lemma example_inverse: "wval (key_qinv message_key) * wval (key_q message_key) mod wval (key_p message_key) = 1"
proof (rule mod_of_product)
  show "wval (key_qinv message_key) * wval (key_q message_key) =
      250193758154232073009713168881128407622401459452115309436416219464772125629640157470417779086722525687491062933570166478806412910268757 * wval (key_p message_key) + 1"
    unfolding example_values by simp
  show "1 < wval (key_p message_key)" unfolding example_values by simp
qed

lemma example_distinct: "distinct example_primes_p" "distinct example_primes_q"
  unfolding example_primes_p_def example_primes_q_def by simp_all

lemma message_key_correct: "rsa_key_ok message_key"
proof -
  have prime: "prime_number r" "65537 * wval (key_d message_key) mod (r - 1) = 1"
    if "r \<in> set (example_primes_p @ example_primes_q)" for r
    using example_primes_prime example_exponents that unfolding example_values list_all_iff
    by (auto intro: small_prime)
  have p: "distinct_primes example_primes_p (wval (key_p message_key))"
    and q: "distinct_primes example_primes_q (wval (key_q message_key))"
    unfolding distinct_primes_def example_products example_values using prime(1) example_distinct by auto
  have order: "1 < wval (key_q message_key)" "wval (key_q message_key) < wval (key_p message_key)"
    "wval (key_qinv message_key) < wval (key_p message_key)"
    unfolding example_values by simp_all
  have same: "wval (key_dp message_key) = wval (key_d message_key)" "wval (key_dq message_key) = wval (key_d message_key)"
    unfolding example_values by simp_all
  show ?thesis
    unfolding rsa_key_ok_def Let_def example_fields same
    by (intro conjI exI [of _ example_primes_p] exI [of _ example_primes_q] ballI p q order example_product example_inverse prime)
      simp_all
qed

lemma example_modulus: "2 * 256 ^ 111 \<le> wval (key_n message_key)"
  unfolding example_values by simp

end
