(* ===== verification/MessageCipher.thy ===== *)
theory MessageCipher
  imports ExampleKey StreamCrypt
begin

text \<open>
  The protection of messages, \<open>lib/cipher.c\<close>: a message that does not fit one RSA block is encrypted
  with a fresh AES key in counter mode, the key travels in the RSA block; signatures are made over a
  hash; an incoming message is tried against the keys of every contact. Contacts and keys, which the
  code asks from \<open>lib/keys.c\<close>, are the record \<open>key_store\<close>. The memory that \<open>malloc\<close> returns holds
  arbitrary bytes, a function of the size; random bytes are arguments.
\<close>

section \<open>Counter mode\<close>

definition aes256_size :: nat where "aes256_size = 32"
definition aes_block_size :: nat where "aes_block_size = 16"

definition inc_ctr_byte :: "nat \<Rightarrow> u8 list \<times> nat \<Rightarrow> u8 list \<times> nat" where
  "inc_ctr_byte i st =
     (let (ctr, carry) = st; val = unat (ctr ! i) + carry
      in (ctr[i := of_nat (val mod 256)], val div 256))"

definition inc_ctr :: "u8 list \<Rightarrow> u8 list" where
  "inc_ctr ctr = fst (for_down inc_ctr_byte aes_block_size (ctr, 1))"

fun ctr_loop :: "cipher \<Rightarrow> u8 list \<Rightarrow> nat \<Rightarrow> u8 list \<Rightarrow> u8 list \<Rightarrow> u8 list \<Rightarrow> u8 list option" where
  "ctr_loop aes k i inp out [] = Some []"
| "ctr_loop aes k i inp out (d # data) = do {
     (inp, out) \<leftarrow> (if i mod aes_block_size = 0
                    then map_option (\<lambda>out. (inc_ctr inp, out)) (aes k inp) else Some (inp, out));
     result \<leftarrow> ctr_loop aes k (i + 1) inp out data;
     Some ((d XOR out ! (i mod aes_block_size)) # result)
   }"

text \<open>The block \<open>out\<close> is computed before its first use.\<close>

definition aes_ctr_crypt :: "cipher \<Rightarrow> u8 list \<Rightarrow> u8 list \<Rightarrow> u8 list \<Rightarrow> u8 list option" where
  "aes_ctr_crypt aes k ctr data = ctr_loop aes k 0 (take aes_block_size ctr) [] data"

section \<open>Encryption\<close>

definition allnet_rsa_pubkey_size :: "wp_rsa_key \<Rightarrow> nat" where
  "allnet_rsa_pubkey_size rsa = key_nbits rsa div 8"

definition allnet_rsa_prvkey_size :: "wp_rsa_key_pair \<Rightarrow> nat" where
  "allnet_rsa_prvkey_size rsa = key_nbits rsa div 8"

text \<open>
  The first component of the result is the returned size, the second the block left in \<open>*res\<close>. A key
  of fewer than 42 bytes makes the number of bytes to encrypt negative.
\<close>

definition allnet_encrypt ::
  "cipher \<Rightarrow> (nat \<Rightarrow> u8 list) \<Rightarrow> u64 list \<Rightarrow> u8 list \<Rightarrow> u8 list \<Rightarrow> u8 list \<Rightarrow> wp_rsa_key \<Rightarrow>
   (int \<times> u8 list option) option" where
  "allnet_encrypt aes malloc junk fresh seed msg rsa =
     (let rsa_size = allnet_rsa_pubkey_size rsa; tsize = length msg
      in if int rsa_size - 42 < int tsize
         then if rsa_size < 42 then None
           else do {
             let max_rsa = rsa_size - 42;
             let input_size = c_int (int tsize + int (aes256_size + aes_block_size));
             let result_size = c_int (input_size + int (rsa_size - max_rsa));
             if input_size < 0 \<or> result_size < 0 then None
             else do {
               let input_size = nat input_size;
               let result_size = nat result_size;
               let new_text = malloc input_size;
               let new_text = memcpy new_text 0 (take (aes256_size + aes_block_size) fresh);
               let new_text = memcpy new_text (aes256_size + aes_block_size) msg;
               (bytes, result) \<leftarrow> allnet_rsa_encrypt junk rsa (take max_rsa new_text) (malloc result_size) 1 seed;
               if bytes \<noteq> int rsa_size then Some (0, None)
               else if max_rsa < input_size then do {
                 crypted \<leftarrow> aes_ctr_crypt aes (take aes256_size new_text)
                   (take aes_block_size (drop aes256_size new_text)) (drop max_rsa new_text);
                 Some (int result_size, Some (memcpy result rsa_size crypted))
               }
               else Some (int result_size, Some result)
             }
           }
         else do {
           (bytes, result) \<leftarrow> allnet_rsa_encrypt junk rsa msg (malloc rsa_size) 1 seed;
           if bytes \<noteq> int rsa_size then Some (0, None) else Some (int rsa_size, Some result)
         })"

section \<open>Decryption\<close>

text \<open>
  When the RSA block holds fewer bytes than an AES key and a counter, the size of the first \<open>memcpy\<close> is
  negative.
\<close>

definition allnet_decrypt ::
  "cipher \<Rightarrow> (nat \<Rightarrow> u8 list) \<Rightarrow> u64 list \<Rightarrow> u8 list option \<Rightarrow> wp_rsa_key_pair \<Rightarrow>
   (int \<times> u8 list option) option" where
  "allnet_decrypt aes malloc junk crypted rsa =
     (case crypted of
        None \<Rightarrow> Some (0, None)
      | Some crypted \<Rightarrow>
        let rsa_size = allnet_rsa_prvkey_size rsa
        in if rsa_size = 0 then Some (0, None)
           else do {
             (bytes, rsa_text) \<leftarrow> allnet_rsa_decrypt junk rsa crypted (malloc rsa_size) 1;
             if bytes < 0 then Some (0, None)
             else if length crypted \<le> rsa_size then Some (bytes, Some rsa_text)
             else do {
               let k = take aes256_size rsa_text;
               let nonce = take aes_block_size (drop aes256_size rsa_text);
               let rsa_real_text = drop (aes256_size + aes_block_size) rsa_text;
               let rsa_real_size = bytes - int (aes256_size + aes_block_size);
               let aes_size = length crypted - rsa_size;
               if rsa_real_size < 0 then None
               else do {
                 let rsize = nat rsa_real_size + aes_size;
                 let result = memcpy (malloc rsize) 0 (take (nat rsa_real_size) rsa_real_text);
                 plain \<leftarrow> aes_ctr_crypt aes k nonce (drop rsa_size crypted);
                 Some (int rsize, Some (memcpy result (nat rsa_real_size) plain))
               }
             }
           })"

section \<open>Signatures\<close>

text \<open>The part of the hash that is signed; \<open>memcpy\<close> with a negative size for keys below 42 bytes.\<close>

definition message_hash :: "nat \<Rightarrow> u8 list \<Rightarrow> u8 list option" where
  "message_hash rsa_size msg =
     (if rsa_size < 42 then None
      else
        let hsize = rsa_size - 42; hsize = (if hsize > sha512_size then sha512_size else hsize)
        in sha512_bytes msg (int (length msg)) hsize)"

definition allnet_verify :: "u64 list \<Rightarrow> u8 list option \<Rightarrow> u8 list option \<Rightarrow> wp_rsa_key \<Rightarrow> int option" where
  "allnet_verify junk msg sig rsa =
     (case (msg, sig) of
        (Some msg, Some sig) \<Rightarrow>
          if length sig = 0 then Some 0
          else
            let rsa_size = allnet_rsa_pubkey_size rsa
            in if rsa_size > length sig then Some 0
               else do {
                 hash \<leftarrow> message_hash rsa_size msg;
                 allnet_rsa_verify junk rsa hash sig
               }
      | _ \<Rightarrow> Some 0)"

definition allnet_sign ::
  "(nat \<Rightarrow> u8 list) \<Rightarrow> u64 list \<Rightarrow> u8 list \<Rightarrow> wp_rsa_key_pair \<Rightarrow> (int \<times> u8 list option) option" where
  "allnet_sign malloc junk msg rsa =
     (let rsa_size = allnet_rsa_prvkey_size rsa
      in if rsa_size = 0 then Some (0, None)
         else do {
           hash \<leftarrow> message_hash rsa_size msg;
           (success, sig) \<leftarrow> allnet_rsa_sign junk rsa hash (malloc rsa_size);
           if success = 0 then Some (0, None) else Some (int rsa_size, Some sig)
         })"

section \<open>Messages from contacts\<close>

text \<open>
  What \<open>lib/keys.c\<close> answers: addresses come with their number of bits. A keyset without a key of the
  contact, or without a private key, has \<open>None\<close>.
\<close>

record key_store =
  all_individual_contacts :: "string list"
  all_keys :: "string \<Rightarrow> int list"
  get_local :: "int \<Rightarrow> u8 list \<times> nat"
  get_remote :: "int \<Rightarrow> u8 list \<times> nat"
  get_contact_pubkey :: "int \<Rightarrow> wp_rsa_key option"
  get_my_privkey :: "int \<Rightarrow> wp_rsa_key_pair option"

definition randomize_contacts :: "string list \<Rightarrow> nat \<Rightarrow> u8 list \<Rightarrow> (string list \<times> u8 list) option" where
  "randomize_contacts original mx supply = do {
     (permutation, supply) \<leftarrow> random_permute (length original) supply;
     let copy = map (\<lambda>i. original ! (permutation ! i)) [0..<mx];
     Some (copy @ drop mx original, supply)
   }"

text \<open>An address that is given, with bits, and differs from the one stored with bits is a mismatch.\<close>

definition address_differs :: "u8 list option \<Rightarrow> nat \<Rightarrow> u8 list \<times> nat \<Rightarrow> bool" where
  "address_differs given bits stored =
     (case given of
        None \<Rightarrow> False
      | Some a \<Rightarrow> bits > 0 \<and> snd stored > 0 \<and> matches a bits (fst stored) (snd stored) = 0)"

text \<open>
  The body of the inner loop: whether to decrypt, and the result of decryption, 0 for nothing. The
  variable \<open>*text\<close> changes whenever \<open>allnet_decrypt\<close> is called.
\<close>

definition try_key ::
  "cipher \<Rightarrow> (nat \<Rightarrow> u8 list) \<Rightarrow> u64 list \<Rightarrow> key_store \<Rightarrow> bool \<Rightarrow> u8 list \<Rightarrow> u8 list \<Rightarrow>
   u8 list option \<Rightarrow> nat \<Rightarrow> u8 list option \<Rightarrow> nat \<Rightarrow> int \<Rightarrow> u8 list option \<Rightarrow>
   (int \<times> u8 list option) option" where
  "try_key aes malloc junk ks is_signed crypted sig sender sbits dest dbits k msg = do {
     let do_decrypt = \<not> address_differs dest dbits (get_local ks k);
     let do_decrypt = (if address_differs sender sbits (get_remote ks k) then False else do_decrypt);
     do_decrypt \<leftarrow>
       (if do_decrypt \<and> is_signed then
          (case get_contact_pubkey ks k of
             None \<Rightarrow> Some False
           | Some pub_key \<Rightarrow> map_option (\<lambda>v. v \<noteq> 0) (allnet_verify junk (Some crypted) (Some sig) pub_key))
        else Some do_decrypt);
     if do_decrypt then
       (case get_my_privkey ks k of
          None \<Rightarrow> Some (0, msg)
        | Some prv_key \<Rightarrow> allnet_decrypt aes malloc junk (Some crypted) prv_key)
     else Some (0, msg)
   }"

fun try_keys :: "('k \<Rightarrow> 't \<Rightarrow> (int \<times> 't) option) \<Rightarrow> ('c \<times> 'k) list \<Rightarrow> 't \<Rightarrow>
    (int \<times> ('c \<times> 'k) option \<times> 't) option" where
  "try_keys attempt [] msg = Some (0, None, msg)"
| "try_keys attempt ((contact, k) # rest) msg = do {
     (res, msg) \<leftarrow> attempt k msg;
     if res \<noteq> 0 then Some (res, Some (contact, k), msg) else try_keys attempt rest msg
   }"

text \<open>The two nested loops visit the keys contact by contact.\<close>

definition decrypt_verify ::
  "cipher \<Rightarrow> (nat \<Rightarrow> u8 list) \<Rightarrow> u64 list \<Rightarrow> u8 list \<Rightarrow> key_store \<Rightarrow> nat \<Rightarrow> u8 list \<Rightarrow>
   u8 list option \<Rightarrow> nat \<Rightarrow> u8 list option \<Rightarrow> nat \<Rightarrow> int \<Rightarrow>
   (int \<times> (string \<times> int) option \<times> u8 list option) option" where
  "decrypt_verify aes malloc junk supply ks sig_algo encrypted sender sbits dest dbits maxcontacts =
     (let esize = length encrypted; is_signed = sig_algo \<noteq> 0
      in if is_signed \<and> esize < 2 then None
         else
           let ssize = (if is_signed then unat (readb16 (Some (drop (esize - 2) encrypted))) + 2 else 0)
           in if ssize > esize then Some (0, None, None)
              else do {
                let csize = esize - ssize;
                let contacts = all_individual_contacts ks;
                (contacts, supply) \<leftarrow>
                  (if 0 < maxcontacts \<and> maxcontacts < int (length contacts)
                   then map_option (\<lambda>(cs, supply). (take (nat maxcontacts) cs, supply))
                     (randomize_contacts contacts (nat maxcontacts) supply)
                   else Some (contacts, supply));
                (res, who, msg) \<leftarrow>
                  try_keys (try_key aes malloc junk ks is_signed (take csize encrypted)
                      (take (ssize - 2) (drop csize encrypted)) sender sbits dest dbits)
                    (concat (map (\<lambda>c. map (Pair c) (all_keys ks c)) contacts)) None;
                Some (if is_signed then res else - res, who, msg)
              })"

section \<open>The counter\<close>

text \<open>The bytes of a number, as many as asked for.\<close>

definition be_bytes :: "nat \<Rightarrow> nat \<Rightarrow> u8 list" where
  "be_bytes n v = map (\<lambda>i. of_nat (v div 256 ^ (n - 1 - i))) [0..<n]"

lemma be_bytes_Suc: "be_bytes (Suc n) v = be_bytes n (v div 256) @ [of_nat v]"
proof (rule nth_equalityI)
  show "length (be_bytes (Suc n) v) = length (be_bytes n (v div 256) @ [of_nat v])"
    by (simp add: be_bytes_def)
  fix i assume "i < length (be_bytes (Suc n) v)"
  then have "i < Suc n" by (simp add: be_bytes_def)
  moreover have "v div 256 ^ (n - i) = v div 256 div 256 ^ (n - 1 - i)" if "i < n"
  proof -
    have "n - i = Suc (n - 1 - i)" using that by simp
    then show ?thesis by (simp only: power_Suc div_mult2_eq)
  qed
  ultimately show "be_bytes (Suc n) v ! i = (be_bytes n (v div 256) @ [of_nat v]) ! i"
    by (auto simp: be_bytes_def nth_append less_Suc_eq simp del: upt_Suc)
qed

lemma length_be_bytes [simp]: "length (be_bytes n v) = n"
  by (simp add: be_bytes_def)

lemma bval_be_bytes: "bval (be_bytes n v) = v mod 256 ^ n"
proof (induction n arbitrary: v)
  case 0
  then show ?case by (simp add: be_bytes_def)
next
  case (Suc n)
  have "unat (of_nat v :: u8) = v mod 256" by (simp add: unat_of_nat)
  with Suc show ?case by (simp add: be_bytes_Suc mod_mult2_eq mult.commute)
qed

lemma byte_256: "(256 :: u8) = 0"
  by simp

lemma be_bytes_bval: "length b = n \<Longrightarrow> be_bytes n (bval b) = b"
proof (induction b arbitrary: n rule: rev_induct)
  case Nil
  then show ?case by (simp add: be_bytes_def)
next
  case (snoc x b)
  then have n: "n = Suc (length b)" by simp
  have "bval (b @ [x]) div 256 = bval b" using unat_lt_256 [of x] by simp
  moreover have "of_nat (bval (b @ [x])) = x" by (simp add: byte_256)
  ultimately show ?case using snoc.IH [OF refl] by (simp add: n be_bytes_Suc)
qed

lemma inc_ctr_byte_apply:
  "inc_ctr_byte i (ctr, carry) =
    (ctr[i := of_nat ((unat (ctr ! i) + carry) mod 256)], (unat (ctr ! i) + carry) div 256)"
  by (simp add: inc_ctr_byte_def Let_def)

lemma byte_mod: "(of_nat (v mod 256) :: u8) = of_nat v"
  by (rule word_unat_eq_iff [THEN iffD2]) (simp add: unat_of_nat)

lemma inc_ctr_loop:
  assumes "n \<le> length ctr"
  shows "fst (for_down inc_ctr_byte n (ctr, c)) = be_bytes n (bval (take n ctr) + c) @ drop n ctr"
  using assms
proof (induction n arbitrary: ctr c)
  case 0
  then show ?case by (simp add: be_bytes_def)
next
  case (Suc n)
  let ?v = "unat (ctr ! n) + c"
  let ?ctr = "ctr[n := of_nat (?v mod 256)]"
  have n: "n < length ctr" using Suc.prems by simp
  have "fst (for_down inc_ctr_byte (Suc n) (ctr, c)) = be_bytes n (bval (take n ?ctr) + ?v div 256) @ drop n ?ctr"
    unfolding for_down.simps inc_ctr_byte_apply using Suc.IH [of ?ctr "?v div 256"] n by simp
  also have "drop n ?ctr = of_nat (?v mod 256) # drop (Suc n) ctr"
    using n Cons_nth_drop_Suc [of n ?ctr] by simp
  also have "(of_nat (?v mod 256) :: u8) = of_nat ?v"
    by (rule byte_mod)
  finally have 1: "fst (for_down inc_ctr_byte (Suc n) (ctr, c)) =
      be_bytes n (bval (take n ctr) + ?v div 256) @ of_nat ?v # drop (Suc n) ctr" by simp
  have tk: "take (Suc n) ctr = take n ctr @ [ctr ! n]" using n by (rule take_Suc_conv_app_nth)
  have "(bval (take (Suc n) ctr) + c) div 256 = bval (take n ctr) + ?v div 256"
    unfolding tk by simp
  moreover have "(of_nat (bval (take (Suc n) ctr) + c) :: u8) = of_nat ?v"
    unfolding tk by (simp add: byte_256)
  ultimately show ?case unfolding 1 by (simp add: be_bytes_Suc)
qed

lemma inc_ctr_value: "length ctr = 16 \<Longrightarrow> inc_ctr ctr = be_bytes 16 (bval ctr + 1)"
  using inc_ctr_loop [of 16 ctr 1] by (simp add: inc_ctr_def aes_block_size_def)

text \<open>Byte \<open>j\<close> of the key stream that starts with a counter.\<close>

definition ctr_byte :: "cipher \<Rightarrow> u8 list \<Rightarrow> nat \<Rightarrow> nat \<Rightarrow> u8" where
  "ctr_byte aes k c j = the (aes k (be_bytes 16 (c + j div 16))) ! (j mod 16)"

lemma block_index: "i mod 16 \<noteq> 0 \<Longrightarrow> (i + 15) div 16 = (i + 1 + 15) div (16 :: nat)"
proof -
  assume "i mod 16 \<noteq> 0"
  then have r: "1 \<le> i mod 16" by simp
  define q r where "q = i div 16" and "r = i mod 16"
  have "i = 16 * q + r" "r < 16" "1 \<le> r" using r by (simp_all add: q_def r_def)
  then have "(i + 15) div 16 = q + 1" by (intro div_nat_eqI) simp_all
  then show ?thesis by (simp add: q_def)
qed

lemma next_index: "(i + 1) mod 16 = 0 \<or> (i + 1) div 16 = i div (16 :: nat)"
  by (simp add: div_Suc mod_Suc)

context block_cipher
begin

lemma ctr_loop_run:
  assumes k: "length k = 32" and inp: "inp = be_bytes 16 (c + (i + 15) div 16)"
    and out: "i mod 16 = 0 \<or> out = the (aes k (be_bytes 16 (c + i div 16)))"
  shows "ctr_loop aes k i inp out data =
    Some (map (\<lambda>j. data ! j XOR ctr_byte aes k c (i + j)) [0..<length data])"
  using inp out
proof (induction data arbitrary: i inp out)
  case (Cons d data)
  define out1 where "out1 = the (aes k (be_bytes 16 (c + i div 16)))"
  define inp1 where "inp1 = be_bytes 16 (c + (i + 1 + 15) div 16)"
  have 1: "(if i mod aes_block_size = 0
      then map_option (\<lambda>out. (inc_ctr inp, out)) (aes k inp) else Some (inp, out)) = Some (inp1, out1)"
  proof (cases "i mod 16 = 0")
    case True
    then have d: "(i + 15) div 16 = i div 16" "(i + 1 + 15) div 16 = i div 16 + 1"
      by (auto simp: mod_eq_0_iff_dvd elim!: dvdE)
    have l: "length inp = 16" by (simp add: Cons.prems)
    obtain o' where "aes k inp = Some o'" using total [OF k l] by auto
    moreover have "inc_ctr inp = inp1"
    proof -
      have "inc_ctr inp = be_bytes 16 (bval inp + 1)" by (rule inc_ctr_value [OF l])
      also have "bval inp = (c + i div 16) mod 256 ^ 16"
        unfolding Cons.prems d by (rule bval_be_bytes)
      finally have "inc_ctr inp = be_bytes 16 ((c + i div 16) mod 256 ^ 16 + 1)" .
      also have "\<dots> = be_bytes 16 (bval (be_bytes 16 ((c + i div 16) mod 256 ^ 16 + 1)))"
        by (rule be_bytes_bval [OF length_be_bytes, symmetric])
      also have "bval (be_bytes 16 ((c + i div 16) mod 256 ^ 16 + 1)) = bval inp1"
        unfolding inp1_def d bval_be_bytes by (simp only: mod_add_left_eq add.assoc)
      also have "be_bytes 16 (bval inp1) = inp1" by (rule be_bytes_bval) (simp add: inp1_def)
      finally show ?thesis .
    qed
    ultimately show ?thesis using True Cons.prems by (simp add: aes_block_size_def out1_def d)
  next
    case False
    then have d: "(i + 15) div 16 = (i + 1 + 15) div 16" by (rule block_index)
    have "inp = inp1" unfolding inp1_def Cons.prems(1) d by (rule refl)
    moreover have "out = out1" using False Cons.prems(2) by (simp add: out1_def)
    ultimately show ?thesis using False by (simp add: aes_block_size_def)
  qed
  have 2: "ctr_loop aes k (i + 1) inp1 out1 data =
      Some (map (\<lambda>j. data ! j XOR ctr_byte aes k c (i + 1 + j)) [0..<length data])"
  proof (rule Cons.IH)
    show "inp1 = be_bytes 16 (c + (i + 1 + 15) div 16)" by (rule inp1_def)
    have "(i + 1) mod 16 = 0 \<or> (i + 1) div 16 = i div 16" by (rule next_index)
    then show "(i + 1) mod 16 = 0 \<or> out1 = the (aes k (be_bytes 16 (c + (i + 1) div 16)))"
      by (auto simp: out1_def)
  qed
  have 3: "ctr_byte aes k c i = out1 ! (i mod aes_block_size)"
    by (simp add: ctr_byte_def out1_def aes_block_size_def)
  have "map (\<lambda>j. (d # data) ! j XOR ctr_byte aes k c (i + j)) [0..<length (d # data)] =
      (d XOR out1 ! (i mod aes_block_size)) #
      map (\<lambda>j. data ! j XOR ctr_byte aes k c (i + 1 + j)) [0..<length data]"
    by (rule nth_equalityI) (auto simp: nth_Cons' 3 simp del: upt_Suc)
  then show ?case by (simp only: ctr_loop.simps 1 2 bind.simps prod.case Let_def)
qed simp

lemma aes_ctr_run:
  assumes "length k = 32" and "length ctr = 16"
  shows "aes_ctr_crypt aes k ctr data =
    Some (map (\<lambda>j. data ! j XOR ctr_byte aes k (bval ctr) j) [0..<length data])"
  using ctr_loop_run [OF assms(1), of ctr "bval ctr" 0 "[]" data] assms(2)
  by (simp add: aes_ctr_crypt_def aes_block_size_def be_bytes_bval)

lemma aes_ctr_twice:
  assumes "length k = 32" and "length ctr = 16"
  shows "\<exists>r. aes_ctr_crypt aes k ctr data = Some r \<and> length r = length data \<and>
    aes_ctr_crypt aes k ctr r = Some data"
proof -
  have "map (\<lambda>j. map (\<lambda>j. data ! j XOR f j) [0..<length data] ! j XOR f j) [0..<length data] = data" for f
    by (rule nth_equalityI) (simp_all add: xor.assoc)
  then show ?thesis by (simp add: aes_ctr_run [OF assms])
qed

end

section \<open>Hybrid encryption\<close>

text \<open>A correct key of at least 96 bytes whose modulus has its second highest bit or the highest set.\<close>

definition message_key_ok :: "wp_rsa_key_pair \<Rightarrow> bool" where
  "message_key_ok k \<longleftrightarrow> rsa_key_ok k \<and> 768 \<le> key_nbits k \<and>
     2 * 256 ^ (key_nbits k div 8 - 1) \<le> wval (key_n k)"

lemma message_key_facts:
  assumes "message_key_ok k"
  shows "rsa_key_ok k" and "96 \<le> key_nbits k div 8" and "key_nbits k div 8 \<le> 512"
    and "2 * 256 ^ (key_nbits k div 8 - 1) \<le> wval (key_n k)" and "key_nbits k div 8 * 8 = key_nbits k"
  using assms key_facts(1,2) [of k] by (auto simp: message_key_ok_def)

lemma c_int_small: "- (2 ^ 31) \<le> x \<Longrightarrow> x < 2 ^ 31 \<Longrightarrow> c_int x = x"
  using signed_take_bit_int_eq_self [of 31 x] by (simp add: c_int_def signed_of_int)

lemma allnet_rsa_roundtrip:
  assumes ok: "message_key_ok k" and junk: "length junk = 64" "length junk' = 64" and seed: "length seed = 20"
    and data: "length data + 42 \<le> key_nbits k div 8"
    and fits: "key_nbits k div 8 \<le> length result" "length result < 2 ^ 28" "length buf = key_nbits k div 8"
  shows "\<exists>c out. allnet_rsa_encrypt junk (wp_rsa_get_public_key k) data result 1 seed =
      Some (int (key_nbits k div 8), c) \<and> length c = length result \<and>
    (\<forall>extra. allnet_rsa_decrypt junk' k (take (key_nbits k div 8) c @ extra) buf 1 =
      Some (int (length data), out)) \<and>
    length out = length buf \<and> take (length data) out = data"
proof -
  note facts = message_key_facts [OF ok]
  define kb where "kb = key_nbits k div 8"
  have kb: "key_nbits k = kb * 8" "kb \<le> 512" using facts(3,5) by (simp_all add: kb_def)
  have pad: "pad_fits (key_nbits k div 8) PADDING_PKCS1_OAEP (length data)"
    using data by (simp add: pad_fits_def)
  have lens: "key_nbits k div 8 \<le> length buf" "length buf < 520" using fits(3) facts(3) by simp_all
  obtain c out where run: "wp_rsa_encrypt junk (wp_rsa_get_public_key k) data result PADDING_PKCS1_OAEP seed =
      Some (int kb, c)" "length c = length result"
    "wp_rsa_decrypt junk' k (take kb c) buf PADDING_PKCS1_OAEP = Some (int (length data), out)"
    "length out = length buf" "take (length data) out = data"
    using rsa_roundtrip [OF facts(1) junk seed pad _ facts(4) fits(1) lens] unfolding kb_def by auto
  have enc: "allnet_rsa_encrypt junk (wp_rsa_get_public_key k) data result 1 seed = Some (int kb, c)"
    using fits(1,2) run(1) kb by (simp add: allnet_rsa_encrypt_def c_int_small)
  have l: "length (take kb c) = kb" using run(2) fits(1) by (simp add: kb_def)
  have dec: "allnet_rsa_decrypt junk' k (take kb c @ extra) buf 1 = Some (int (length data), out)" for extra
  proof -
    have tk: "take kb (take kb c @ extra) = take kb c" using l by simp
    have "\<not> length (take kb c @ extra) < kb" "\<not> int (length buf) < int kb - 41" using l fits(3) by (simp_all add: kb_def)
    then show ?thesis
      unfolding allnet_rsa_decrypt_def Let_def kb_def [symmetric] tk using run(3) by simp
  qed
  show ?thesis unfolding kb_def [symmetric]
    by (rule exI [of _ c], rule exI [of _ out]) (simp only: enc dec run simp_thms)
qed

lemma memcpy_whole: "length dst = length src \<Longrightarrow> memcpy dst 0 src = src"
  by (simp add: memcpy_def)

lemma memcpy_both: "length dst = length a + length b \<Longrightarrow> n = length a \<Longrightarrow> memcpy (memcpy dst 0 a) n b = a @ b"
  by (simp add: memcpy_def)

lemma memcpy_end: "length dst = n + length b \<Longrightarrow> memcpy dst n b = take n dst @ b"
  by (simp add: memcpy_def)

definition malloc_ok :: "(nat \<Rightarrow> u8 list) \<Rightarrow> bool" where
  "malloc_ok malloc \<longleftrightarrow> (\<forall>n. length (malloc n) = n)"

context block_cipher
begin

text \<open>A message that fits one RSA block.\<close>

lemma short_message_run:
  assumes ok: "message_key_ok k" and junk: "length junk = 64" "length junk' = 64" and seed: "length seed = 20"
    and malloc: "malloc_ok malloc" "malloc_ok malloc'" and short: "length msg + 42 \<le> key_nbits k div 8"
  shows "\<exists>c out. allnet_encrypt aes malloc junk fresh seed msg (wp_rsa_get_public_key k) =
      Some (int (key_nbits k div 8), Some c) \<and> length c = key_nbits k div 8 \<and>
    (\<forall>extra. allnet_rsa_decrypt junk' k (c @ extra) (malloc' (key_nbits k div 8)) 1 =
      Some (int (length msg), out)) \<and>
    length out = key_nbits k div 8 \<and> take (length msg) out = msg"
proof -
  let ?kb = "key_nbits k div 8"
  have m: "length (malloc n) = n" "length (malloc' n) = n" for n using malloc by (simp_all add: malloc_ok_def)
  obtain c out where run: "allnet_rsa_encrypt junk (wp_rsa_get_public_key k) msg (malloc ?kb) 1 seed =
      Some (int ?kb, c)" "length c = ?kb"
    "\<And>extra. allnet_rsa_decrypt junk' k (take ?kb c @ extra) (malloc' ?kb) 1 = Some (int (length msg), out)"
    "length out = ?kb" "take (length msg) out = msg"
    using allnet_rsa_roundtrip [OF ok junk seed short, of "malloc ?kb" "malloc' ?kb"] message_key_facts(3) [OF ok] unfolding m by auto
  have "\<not> int ?kb - 42 < int (length msg)" using short by simp
  then have "allnet_encrypt aes malloc junk fresh seed msg (wp_rsa_get_public_key k) = Some (int ?kb, Some c)"
    using run(1) by (simp add: allnet_encrypt_def allnet_rsa_pubkey_size_def Let_def)
  moreover have "take ?kb c = c" using run(2) by simp
  ultimately show ?thesis using run by auto
qed

lemma message_roundtrip:
  assumes ok: "message_key_ok k" and junk: "length junk = 64" "length junk' = 64"
    and fresh: "length fresh = 48" and seed: "length seed = 20"
    and malloc: "malloc_ok malloc" "malloc_ok malloc'" and small: "length msg < 2 ^ 27"
  shows "\<exists>c out. allnet_encrypt aes malloc junk fresh seed msg (wp_rsa_get_public_key k) =
      Some (int (length c), Some c) \<and>
    allnet_decrypt aes malloc' junk' (Some c) k = Some (int (length msg), Some out) \<and>
    take (length msg) out = msg \<and> 0 < length c \<and> length c \<le> length msg + 512"
proof (cases "length msg + 42 \<le> key_nbits k div 8")
  case True
  let ?kb = "key_nbits k div 8"
  obtain c out where run: "allnet_encrypt aes malloc junk fresh seed msg (wp_rsa_get_public_key k) = Some (int ?kb, Some c)"
    "length c = ?kb" "allnet_rsa_decrypt junk' k (c @ []) (malloc' ?kb) 1 = Some (int (length msg), out)"
    "take (length msg) out = msg"
    using short_message_run [OF ok junk seed malloc True] by blast
  have kb: "?kb \<noteq> 0" "?kb \<le> 512" using message_key_facts(2,3) [OF ok] by simp_all
  then have "allnet_decrypt aes malloc' junk' (Some c) k = Some (int (length msg), Some out)"
    using run(2,3) by (simp add: allnet_decrypt_def allnet_rsa_prvkey_size_def Let_def)
  with run kb show ?thesis by (intro exI [of _ c] exI [of _ out]) simp
next
  case False
  note facts = message_key_facts [OF ok]
  have m: "length (malloc n) = n" "length (malloc' n) = n" for n using malloc by (simp_all add: malloc_ok_def)
  define kb where "kb = key_nbits k div 8"
  have kb: "96 \<le> kb" "kb < length msg + 42" using facts(2) False by (simp_all add: kb_def)
  define whole where "whole = fresh @ msg"
  define first where "first = take (kb - 42) whole"
  define rest where "rest = drop (kb - 42) whole"
  have lw: "length whole = length msg + 48" using fresh by (simp add: whole_def)
  have lf: "length first = kb - 42" "length first + 42 \<le> key_nbits k div 8"
    using lw kb by (simp_all add: first_def kb_def)
  have lr: "length rest = length msg + 90 - kb" using lw kb by (simp add: rest_def)
  have body: "memcpy (memcpy (malloc (length msg + 32 + 16)) 0 (take (32 + 16) fresh)) (32 + 16) msg = whole"
    using fresh m(1) by (subst memcpy_both) (simp_all add: whole_def)
  define rs where "rs = length msg + 32 + 16 + 42"
  have rs: "rs < 2 ^ 28" using small by (simp add: rs_def)
  have ints31: "c_int (int (length msg) + int (32 + 16)) = int (length msg + 32 + 16)"
    "c_int (int (length msg + 32 + 16) + int (kb - (kb - 42))) = int rs"
    using small kb by (simp_all add: c_int_small rs_def)
  have "key_nbits k div 8 \<le> length (malloc rs)" using kb m(1) by (simp add: rs_def kb_def)
  then obtain c out where run: "allnet_rsa_encrypt junk (wp_rsa_get_public_key k) first (malloc rs) 1 seed =
      Some (int kb, c)" "length c = rs"
    "\<And>extra. allnet_rsa_decrypt junk' k (take kb c @ extra) (malloc' kb) 1 = Some (int (kb - 42), out)"
    "length out = kb" "take (kb - 42) out = first"
    using allnet_rsa_roundtrip [OF ok junk seed lf(2), of "malloc rs" "malloc' kb"] m lf(1) rs
    unfolding kb_def by auto
  let ?key = "take 32 whole" and ?nonce = "take 16 (drop 32 whole)"
  have lk: "length ?key = 32" "length ?nonce = 16" using lw by simp_all
  obtain crypted where aes: "aes_ctr_crypt aes ?key ?nonce rest = Some crypted" "length crypted = length rest"
    "aes_ctr_crypt aes ?key ?nonce crypted = Some rest"
    using aes_ctr_twice [OF lk] by blast
  let ?c = "take kb c @ crypted"
  have "memcpy c kb crypted = ?c" using run(2) aes(2) lr kb by (intro memcpy_end) (simp add: rs_def)
  moreover have "int kb - 42 < int (length msg)" "\<not> kb < 42" "kb - 42 < length msg + 32 + 16"
    "kb - (kb - 42) = 42"
    using kb by simp_all
  ultimately have enc: "allnet_encrypt aes malloc junk fresh seed msg (wp_rsa_get_public_key k) = Some (int rs, Some ?c)"
    unfolding allnet_encrypt_def allnet_rsa_pubkey_size_def public_key Let_def kb_def [symmetric]
      aes256_size_def aes_block_size_def ints31 nat_int body
    using run(1) aes(1) by (simp add: first_def rest_def rs_def)
  have lc: "length ?c = rs" using run(2) aes(2) lr kb by (simp add: rs_def)
  have tk: "take n out = take n whole" if "n \<le> kb - 42" for n
  proof -
    have "take n out = take n (take (kb - 42) out)" using that by simp
    also have "\<dots> = take n whole" using that by (simp only: run(5)) (simp add: first_def)
    finally show ?thesis .
  qed
  have key: "take 32 out = ?key" using tk [of 32] kb by simp
  have "take 16 (drop 32 out) = drop 32 (take 48 out)" by (simp add: drop_take)
  also have "\<dots> = drop 32 (take 48 whole)" using tk [of 48] kb by simp
  finally have nonce: "take 16 (drop 32 out) = ?nonce" by (simp add: drop_take)
  have "take (kb - 90) (drop 48 out) = drop 48 (take (kb - 42) out)" using kb by (simp add: drop_take)
  also have "\<dots> = drop 48 (take (kb - 42) whole)" using tk [of "kb - 42"] by simp
  finally have real: "take (kb - 90) (drop 48 out) = drop 48 (take (kb - 42) whole)" .
  have both: "drop 48 (take (kb - 42) whole) @ rest = msg"
  proof -
    have "drop 48 (take (kb - 42) whole @ rest) = drop 48 (take (kb - 42) whole) @ rest"
      using kb lw by simp
    then show ?thesis using fresh by (simp add: rest_def) (simp add: whole_def)
  qed
  have lr2: "length (drop 48 (take (kb - 42) whole)) = kb - 90" using kb lw by simp
  have sizes: "\<not> length ?c \<le> kb" "kb \<noteq> 0" "length ?c - kb = length rest" "drop kb ?c = crypted"
    using lc lr kb aes(2) run(2) by (simp_all add: rs_def)
  have ints: "int (kb - 42) - int (32 + 16) = int (kb - 90)" "\<not> int (kb - 42) < 0" "\<not> int (kb - 90) < 0"
    "kb - 90 + length rest = length msg"
    using kb lr by simp_all
  have copy: "memcpy (memcpy (malloc' (length msg)) 0 (drop 48 (take (kb - 42) whole))) (kb - 90) rest = msg"
    using both lr2 ints(4) m(2) by (subst memcpy_both) simp_all
  have "allnet_decrypt aes malloc' junk' (Some ?c) k = Some (int (length msg), Some msg)"
    unfolding allnet_decrypt_def option.case allnet_rsa_prvkey_size_def Let_def kb_def [symmetric]
      aes256_size_def aes_block_size_def if_not_P [OF sizes(2)] run(3) bind.simps prod.case if_not_P [OF ints(2)]
      if_not_P [OF sizes(1)] ints(1) if_not_P [OF ints(3)] nat_int sizes(3,4) ints(4) key nonce aes(3)
    using real copy by simp
  then show ?thesis using enc lc by (intro exI [of _ ?c] exI [of _ msg]) (simp add: rs_def)
qed

text \<open>
  Text that is too short to hold a key and a counter, followed by anything, makes the size of a
  \<open>memcpy\<close> negative.
\<close>

lemma short_prefix_fails:
  assumes ok: "message_key_ok k" and junk: "length junk = 64" "length junk' = 64" and seed: "length seed = 20"
    and malloc: "malloc_ok malloc" "malloc_ok malloc'" and short: "length msg < 48" and extra: "extra \<noteq> []"
  shows "\<exists>c. allnet_encrypt aes malloc junk fresh seed msg (wp_rsa_get_public_key k) =
      Some (int (length c), Some c) \<and> allnet_decrypt aes malloc' junk' (Some (c @ extra)) k = None"
proof -
  let ?kb = "key_nbits k div 8"
  have "length msg + 42 \<le> ?kb" using short message_key_facts(2) [OF ok] by simp
  then obtain c out where run:
    "allnet_encrypt aes malloc junk fresh seed msg (wp_rsa_get_public_key k) = Some (int ?kb, Some c)"
    "length c = ?kb" "allnet_rsa_decrypt junk' k (c @ extra) (malloc' ?kb) 1 = Some (int (length msg), out)"
    using short_message_run [OF ok junk seed malloc] by blast
  have "?kb \<noteq> 0" using message_key_facts(2) [OF ok] by simp
  then have "allnet_decrypt aes malloc' junk' (Some (c @ extra)) k = None"
    using run(2,3) short extra
    by (simp add: allnet_decrypt_def allnet_rsa_prvkey_size_def Let_def aes256_size_def aes_block_size_def)
  with run show ?thesis by simp
qed

end

section \<open>Signatures of messages\<close>

lemma bval_inj: "length a = length b \<Longrightarrow> bval a = bval b \<longleftrightarrow> a = b"
  using be_bytes_bval [of a "length a"] be_bytes_bval [of b "length a"] by metis

lemma message_hash_run:
  "106 \<le> n \<Longrightarrow> 8 * length msg < 2 ^ 31 \<Longrightarrow> message_hash n msg = Some (sha512_digest msg)"
proof -
  assume n: "106 \<le> n" and msg: "8 * length msg < 2 ^ 31"
  then have h: "\<not> n < 42" "(if n - 42 > sha512_size then sha512_size else n - 42) = 64"
    by (simp_all add: sha512_size_def) linarith
  show ?thesis
    unfolding message_hash_def Let_def if_not_P [OF h(1)] h(2)
    using length_sha512_digest [OF msg] sha512_digest_run [OF msg] by (simp add: sha512_bytes_def)
qed

lemma digest_bytes_eq_iff:
  "length h = 64 \<Longrightarrow> length h' = 64 \<Longrightarrow>
    digest_bytes n h SIG_ENCODING_SHA512 = digest_bytes n h' SIG_ENCODING_SHA512 \<longleftrightarrow> h = h'"
  by (simp add: digest_bytes_def)

lemma digest_small:
  assumes "message_key_ok k" and "length h = 64" and "86 \<le> key_nbits k div 8"
  shows "bval (digest_bytes (key_nbits k div 8) h SIG_ENCODING_SHA512) < wval (key_n k)"
proof -
  let ?kb = "key_nbits k div 8"
  obtain rest where rest: "digest_bytes ?kb h SIG_ENCODING_SHA512 = 0 # rest"
    by (simp add: digest_bytes_def)
  have "length (digest_bytes ?kb h SIG_ENCODING_SHA512) = ?kb"
    using assms(2,3) by (intro length_digest_bytes) (simp add: digest_fits_def)
  then have "length rest = ?kb - 1" unfolding rest by simp
  then have "bval (digest_bytes ?kb h SIG_ENCODING_SHA512) < 256 ^ (?kb - 1)"
    using bval_bound [of rest] unfolding rest by (simp add: bval_Cons)
  also have "\<dots> \<le> wval (key_n k)" using message_key_facts(4) [OF assms(1)] by simp
  finally show ?thesis .
qed

lemma sign_verify_run:
  assumes ok: "message_key_ok k" and big: "848 \<le> key_nbits k"
    and junk: "length junk = 64" "length junk' = 64" and malloc: "malloc_ok malloc"
    and msg: "8 * length msg < 2 ^ 31"
  shows "\<exists>s. allnet_sign malloc junk msg k = Some (int (key_nbits k div 8), Some s) \<and>
    length s = key_nbits k div 8 \<and>
    (\<forall>msg'. 8 * length msg' < 2 ^ 31 \<longrightarrow>
       allnet_verify junk' (Some msg') (Some s) (wp_rsa_get_public_key k) =
         Some (if sha512_digest msg' = sha512_digest msg then 1 else 0))"
proof -
  note facts = message_key_facts [OF ok]
  define kb where "kb = key_nbits k div 8"
  have kb: "106 \<le> kb" "kb \<noteq> 0" using big facts(5) by (simp_all add: kb_def)
  let ?h = "sha512_digest msg" and ?D = "\<lambda>h. bval (digest_bytes kb h SIG_ENCODING_SHA512)"
  have lh: "length ?h = 64" by (rule length_sha512_digest [OF msg])
  have lm: "length (malloc kb) = kb" using malloc by (simp add: malloc_ok_def)
  have fits: "digest_fits kb h SIG_ENCODING_SHA512" if "length h = 64" for h
    using that kb by (simp add: digest_fits_def)
  have small: "?D ?h < wval (key_n k)" using digest_small [OF ok lh] kb by (simp add: kb_def)
  obtain s where s: "wp_rsa_sign junk k ?h (malloc kb) SIG_ENCODING_SHA512 = Some (1, s)" "length s = kb"
    "bval (take kb s) = ?D ?h ^ wval (key_d k) mod wval (key_n k)"
    using wp_rsa_sign_run [OF facts(1) junk(1), of ?h SIG_ENCODING_SHA512 "malloc kb", folded kb_def]
      fits [OF lh] small lm by auto
  have "allnet_sign malloc junk msg k = Some (int kb, Some s)"
    using s(1) lm kb message_hash_run [OF kb(1) msg] lh
    by (simp add: allnet_sign_def allnet_rsa_prvkey_size_def allnet_rsa_sign_def Let_def flip: kb_def)
  moreover have "allnet_verify junk' (Some msg') (Some s) (wp_rsa_get_public_key k) =
         Some (if sha512_digest msg' = ?h then 1 else 0)" if msg': "8 * length msg' < 2 ^ 31" for msg'
  proof -
    let ?h' = "sha512_digest msg'"
    have lh': "length ?h' = 64" by (rule length_sha512_digest [OF msg'])
    have "bval s ^ unat (key_e k) mod wval (key_n k) = ?D ?h"
      using s(2,3) rsa_inverse(2) [OF facts(1) small] by simp
    moreover have "?D ?h = ?D ?h' \<longleftrightarrow> ?h' = ?h"
      using length_digest_bytes [OF fits [OF lh]] length_digest_bytes [OF fits [OF lh']]
      by (subst bval_inj) (auto simp: digest_bytes_eq_iff [OF lh lh'])
    ultimately have "wp_rsa_verify junk' (wp_rsa_get_public_key k) ?h' s SIG_ENCODING_SHA512 =
        Some (if ?h' = ?h then 1 else 0)"
      using wp_rsa_verify_run [OF facts(1) junk(2), of ?h' SIG_ENCODING_SHA512 s, folded kb_def]
        fits [OF lh'] s(2) by simp
    then show ?thesis
      using s(2) kb message_hash_run [OF kb(1) msg'] lh'
      by (simp add: allnet_verify_def allnet_rsa_pubkey_size_def allnet_rsa_verify_def Let_def flip: kb_def)
  qed
  ultimately show ?thesis using s(2) unfolding kb_def [symmetric] by blast
qed

section \<open>The keys that are tried\<close>

text \<open>
  What the loops of \<open>decrypt_verify\<close> amount to: the first key whose addresses do not differ, whose
  contact signed the message when it is signed, and that decrypts it to something.
\<close>

definition key_accepts ::
  "cipher \<Rightarrow> (nat \<Rightarrow> u8 list) \<Rightarrow> u64 list \<Rightarrow> key_store \<Rightarrow> bool \<Rightarrow> u8 list \<Rightarrow> u8 list \<Rightarrow>
   u8 list option \<Rightarrow> nat \<Rightarrow> u8 list option \<Rightarrow> nat \<Rightarrow> int \<Rightarrow> bool" where
  "key_accepts aes malloc junk ks is_signed crypted sig sender sbits dest dbits k \<longleftrightarrow>
     \<not> address_differs dest dbits (get_local ks k) \<and> \<not> address_differs sender sbits (get_remote ks k) \<and>
     (is_signed \<longrightarrow> (\<exists>pub v. get_contact_pubkey ks k = Some pub \<and>
        allnet_verify junk (Some crypted) (Some sig) pub = Some v \<and> v \<noteq> 0)) \<and>
     (\<exists>prv n msg. get_my_privkey ks k = Some prv \<and>
        allnet_decrypt aes malloc junk (Some crypted) prv = Some (n, msg) \<and> n \<noteq> 0)"

lemma allnet_decrypt_result:
  "allnet_decrypt aes malloc junk crypted prv = Some (n, msg) \<Longrightarrow> 0 \<le> n"
  by (auto simp: allnet_decrypt_def Let_def bind_eq_Some_conv split: option.splits if_splits)

lemma try_key_accepts:
  assumes "try_key aes malloc junk ks is_signed crypted sig sender sbits dest dbits k msg = Some (n, msg')"
    and "n \<noteq> 0"
  shows "key_accepts aes malloc junk ks is_signed crypted sig sender sbits dest dbits k"
    and "\<exists>prv. get_my_privkey ks k = Some prv \<and> allnet_decrypt aes malloc junk (Some crypted) prv = Some (n, msg')"
  using assms
  by (auto simp: try_key_def key_accepts_def Let_def bind_eq_Some_conv split: if_splits option.splits)

lemma try_key_rejects:
  assumes "try_key aes malloc junk ks is_signed crypted sig sender sbits dest dbits k msg = Some (0, msg')"
  shows "\<not> key_accepts aes malloc junk ks is_signed crypted sig sender sbits dest dbits k"
  using assms
  by (auto simp: try_key_def key_accepts_def Let_def bind_eq_Some_conv split: if_splits option.splits)

lemma try_keys_find:
  assumes "try_keys attempt keys msg = Some (res, who, msg')"
    and accept: "\<And>k m m' n. attempt k m = Some (n, m') \<Longrightarrow> (n \<noteq> 0) = P k"
  shows "who = find (\<lambda>(c, k). P k) keys \<and> (res = 0 \<longleftrightarrow> who = None) \<and>
    (case who of None \<Rightarrow> True | Some (c, k) \<Rightarrow> \<exists>m. attempt k m = Some (res, msg'))"
  using assms(1)
proof (induction keys arbitrary: msg)
  case (Cons ck keys)
  obtain c k where ck: "ck = (c, k)" by (cases ck)
  obtain n m where attempt: "attempt k msg = Some (n, m)"
    using Cons.prems by (auto simp: ck bind_eq_Some_conv)
  show ?case
  proof (cases "n = 0")
    case True
    then have "try_keys attempt keys m = Some (res, who, msg')" using Cons.prems by (simp add: ck attempt)
    moreover have "\<not> P k" using accept [OF attempt] True by simp
    ultimately show ?thesis using Cons.IH by (simp add: ck)
  next
    case False
    then show ?thesis using Cons.prems accept [OF attempt] attempt by (auto simp: ck)
  qed
qed simp

lemma find_append: "(\<And>x. x \<in> set xs \<Longrightarrow> \<not> P x) \<Longrightarrow> find P (xs @ ys) = find P ys"
  by (induction xs) auto

lemma try_keys_skip:
  assumes "\<And>c k m. (c, k) \<in> set keys \<Longrightarrow> attempt k m = Some (0, m)"
  shows "try_keys attempt (keys @ rest) msg = try_keys attempt rest msg"
  using assms
proof (induction keys)
  case (Cons ck keys)
  obtain c k where ck: "ck = (c, k)" by (cases ck)
  have "attempt k msg = Some (0, msg)" using Cons.prems [of c k] by (simp add: ck)
  moreover have "try_keys attempt (keys @ rest) msg = try_keys attempt rest msg"
  proof (rule Cons.IH)
    fix c k m assume "(c, k) \<in> set keys"
    then show "attempt k m = Some (0, m)" using Cons.prems [of c k] by simp
  qed
  ultimately show ?case by (simp add: ck)
qed simp

text \<open>A message with a signature ends with the size of the signature.\<close>

definition with_signature :: "u8 list \<Rightarrow> u8 list \<Rightarrow> u8 list" where
  "with_signature crypted sig = crypted @ sig @ the (writeb16 (Some [0, 0]) (of_nat (length sig)))"

lemma with_signature_parts:
  fixes crypted sig :: "u8 list"
  assumes "length sig < 2 ^ 16"
  defines "e \<equiv> with_signature crypted sig"
  shows "length e = length crypted + length sig + 2"
    and "unat (readb16 (Some (drop (length e - 2) e))) = length sig"
    and "take (length crypted) e = crypted" and "take (length sig) (drop (length crypted) e) = sig"
proof -
  let ?two = "the (writeb16 (Some [0, 0]) (of_nat (length sig)))"
  have two: "length ?two = 2" "writeb16 (Some [0, 0]) (of_nat (length sig)) = Some ?two"
    by (simp_all add: writeb16_def)
  show le: "length e = length crypted + length sig + 2"
    by (simp add: e_def with_signature_def two(1))
  have "drop (length e - 2) e = ?two"
  proof -
    have "drop (length (crypted @ sig)) ((crypted @ sig) @ ?two) = ?two" by (rule append_eq_conv_conj [THEN iffD1, THEN conjunct2, symmetric]) (rule refl)
    then show ?thesis unfolding le by (simp add: e_def with_signature_def)
  qed
  moreover have "readb16 (Some ?two) = take_bit 16 (of_nat (length sig))"
    by (subst two(2) [symmetric]) (rule readb16_writeb16, simp)
  ultimately have "unat (readb16 (Some (drop (length e - 2) e))) = unat (take_bit 16 (of_nat (length sig) :: u32))"
    by simp
  also have "\<dots> = length sig"
    unfolding unsigned_take_bit_eq unsigned_of_nat using assms(1) by (simp add: take_bit_nat_eq_self)
  finally show "unat (readb16 (Some (drop (length e - 2) e))) = length sig" .
  show "take (length crypted) e = crypted" and "take (length sig) (drop (length crypted) e) = sig"
    by (simp_all add: e_def with_signature_def)
qed

lemma randomize_contacts_subset:
  assumes "randomize_contacts cs mx supply = Some (cs', supply')" and "mx \<le> length cs" and "length cs < 2 ^ 31"
  shows "set (take mx cs') \<subseteq> set cs"
proof -
  obtain perm where perm: "random_permute (length cs) supply = Some (perm, supply')"
    and cs': "cs' = map (\<lambda>i. cs ! (perm ! i)) [0..<mx] @ drop mx cs"
    using assms(1) by (auto simp: randomize_contacts_def Let_def bind_eq_Some_conv)
  have m: "mset perm = mset [0..<length cs]" by (rule random_permute_mset [OF assms(3) perm])
  have lp: "length perm = length cs" using mset_eq_length [OF m] by simp
  have "perm ! i < length cs" if "i < mx" for i
  proof -
    have "perm ! i \<in> set perm" using that assms(2) lp by simp
    then show ?thesis using mset_eq_setD [OF m] by simp
  qed
  moreover have "take mx cs' = map (\<lambda>i. cs ! (perm ! i)) [0..<mx]" by (simp add: cs')
  ultimately show ?thesis by auto
qed

lemma decrypt_verify_run:
  assumes "length sig < 2 ^ 16"
    and run: "decrypt_verify aes malloc junk supply ks sig_algo
        (if sig_algo \<noteq> 0 then with_signature crypted sig else crypted) sender sbits dest dbits maxcontacts =
      Some (res, who, msg)"
    and few: "length (all_individual_contacts ks) < 2 ^ 31"
  shows "\<exists>contacts. set contacts \<subseteq> set (all_individual_contacts ks) \<and>
    (maxcontacts \<le> 0 \<longrightarrow> contacts = all_individual_contacts ks) \<and>
    who = find (\<lambda>(c, k). key_accepts aes malloc junk ks (sig_algo \<noteq> 0) crypted
        (if sig_algo \<noteq> 0 then sig else []) sender sbits dest dbits k)
      (concat (map (\<lambda>c. map (Pair c) (all_keys ks c)) contacts)) \<and>
    (case who of
       None \<Rightarrow> res = 0
     | Some (c, k) \<Rightarrow> \<exists>prv n. get_my_privkey ks k = Some prv \<and> 0 < n \<and>
         allnet_decrypt aes malloc junk (Some crypted) prv = Some (n, msg) \<and>
         res = (if sig_algo \<noteq> 0 then n else - n))"
proof -
  define encrypted where "encrypted = (if sig_algo \<noteq> 0 then with_signature crypted sig else crypted)"
  define sg where "sg = (if sig_algo \<noteq> 0 then sig else [])"
  note parts = with_signature_parts [OF assms(1), of crypted]
  define ssize where
    "ssize = (if sig_algo \<noteq> 0 then unat (readb16 (Some (drop (length encrypted - 2) encrypted))) + 2 else 0)"
  have ssize: "ssize = (if sig_algo \<noteq> 0 then length sig + 2 else 0)"
    using parts(2) by (simp add: ssize_def encrypted_def)
  have guards: "\<not> (sig_algo \<noteq> 0 \<and> length encrypted < 2)" "\<not> ssize > length encrypted"
    using parts(1) by (auto simp: encrypted_def ssize)
  have pieces: "take (length encrypted - ssize) encrypted = crypted"
    "take (ssize - 2) (drop (length encrypted - ssize) encrypted) = sg"
    using parts by (auto simp: encrypted_def ssize sg_def)
  let ?all = "all_individual_contacts ks"
  let ?choice = "if 0 < maxcontacts \<and> maxcontacts < int (length ?all)
    then map_option (\<lambda>(cs, supply). (take (nat maxcontacts) cs, supply)) (randomize_contacts ?all (nat maxcontacts) supply)
    else Some (?all, supply)"
  let ?attempt = "try_key aes malloc junk ks (sig_algo \<noteq> 0) crypted sg sender sbits dest dbits"
  let ?accepts = "key_accepts aes malloc junk ks (sig_algo \<noteq> 0) crypted sg sender sbits dest dbits"
  from run obtain contacts supply' n where choice: "?choice = Some (contacts, supply')"
    and loop: "try_keys ?attempt (concat (map (\<lambda>c. map (Pair c) (all_keys ks c)) contacts)) None = Some (n, who, msg)"
    and res: "res = (if sig_algo \<noteq> 0 then n else - n)"
    unfolding decrypt_verify_def encrypted_def [symmetric] Let_def if_not_P [OF guards(1)] ssize_def [symmetric]
      if_not_P [OF guards(2)] pieces
    by (auto simp: bind_eq_Some_conv)
  have subset: "set contacts \<subseteq> set ?all"
  proof (cases "0 < maxcontacts \<and> maxcontacts < int (length ?all)")
    case True
    then obtain cs where cs: "randomize_contacts ?all (nat maxcontacts) supply = Some (cs, supply')"
      "contacts = take (nat maxcontacts) cs"
      using choice by auto
    show ?thesis unfolding cs(2)
      by (rule randomize_contacts_subset [OF cs(1) _ few]) (use True in linarith)
  next
    case False
    then show ?thesis using choice by (simp split: if_splits)
  qed
  have every: "maxcontacts \<le> 0 \<longrightarrow> contacts = ?all" using choice by auto
  have accept: "(m \<noteq> 0) = ?accepts k" if "?attempt k t = Some (m, t')" for k t t' m
  proof (cases "m = 0")
    case True
    then show ?thesis using try_key_rejects [OF that [unfolded True]] by simp
  next
    case False
    then show ?thesis using try_key_accepts(1) [OF that False] by simp
  qed
  have "who = find (\<lambda>(c, k). ?accepts k) (concat (map (\<lambda>c. map (Pair c) (all_keys ks c)) contacts)) \<and>
      (n = 0 \<longleftrightarrow> who = None) \<and> (case who of None \<Rightarrow> True | Some (c, k) \<Rightarrow> \<exists>m. ?attempt k m = Some (n, msg))"
    by (rule try_keys_find [where P = ?accepts, OF loop]) (rule accept)
  then have found: "who = find (\<lambda>(c, k). ?accepts k) (concat (map (\<lambda>c. map (Pair c) (all_keys ks c)) contacts))"
    "n = 0 \<longleftrightarrow> who = None" "case who of None \<Rightarrow> True | Some (c, k) \<Rightarrow> \<exists>m. ?attempt k m = Some (n, msg)"
    by blast+
  have "case who of
       None \<Rightarrow> res = 0
     | Some (c, k) \<Rightarrow> \<exists>prv n. get_my_privkey ks k = Some prv \<and> 0 < n \<and>
         allnet_decrypt aes malloc junk (Some crypted) prv = Some (n, msg) \<and>
         res = (if sig_algo \<noteq> 0 then n else - n)"
  proof (cases who)
    case None
    then show ?thesis using found(2) res by simp
  next
    case (Some ck)
    obtain c k where ck: "ck = (c, k)" by (cases ck)
    obtain m where "?attempt k m = Some (n, msg)" using found(3) Some ck by auto
    moreover have "n \<noteq> 0" using found(2) Some by simp
    ultimately obtain prv where prv: "get_my_privkey ks k = Some prv"
      "allnet_decrypt aes malloc junk (Some crypted) prv = Some (n, msg)"
      using try_key_accepts(2) by blast
    moreover have "0 < n" using allnet_decrypt_result [OF prv(2)] \<open>n \<noteq> 0\<close> by simp
    ultimately show ?thesis using res Some ck by auto
  qed
  with subset every found(1) show ?thesis unfolding sg_def by blast
qed

section \<open>A message from one contact to another\<close>

text \<open>A key that a signed message passes over.\<close>

definition passed_over ::
  "u64 list \<Rightarrow> key_store \<Rightarrow> u8 list \<Rightarrow> u8 list \<Rightarrow> u8 list option \<Rightarrow> nat \<Rightarrow> u8 list option \<Rightarrow> nat \<Rightarrow> int \<Rightarrow> bool" where
  "passed_over junk ks crypted sig sender sbits dest dbits k \<longleftrightarrow>
     address_differs dest dbits (get_local ks k) \<or> address_differs sender sbits (get_remote ks k) \<or>
     (case get_contact_pubkey ks k of
        None \<Rightarrow> True
      | Some pub \<Rightarrow> allnet_verify junk (Some crypted) (Some sig) pub = Some 0)"

lemma try_key_passed_over:
  "passed_over junk ks crypted sig sender sbits dest dbits k \<Longrightarrow>
    try_key aes malloc junk ks True crypted sig sender sbits dest dbits k msg = Some (0, msg)"
  by (auto simp: passed_over_def try_key_def Let_def split: option.splits)

context block_cipher
begin

lemma delivered_run:
  assumes sk: "message_key_ok sk" "848 \<le> key_nbits sk" and rk: "message_key_ok rk"
    and junk: "length junk = 64" "length junk' = 64" and random: "length fresh = 48" "length seed = 20"
    and malloc: "malloc_ok malloc" "malloc_ok malloc'"
    and msg: "msg \<noteq> []" "length msg < 2 ^ 27"
    and enc: "allnet_encrypt aes malloc junk fresh seed msg (wp_rsa_get_public_key rk) = Some (n, Some crypted)"
    and sig: "allnet_sign malloc junk crypted sk = Some (m, Some sig)"
    and keys: "concat (map (\<lambda>c. map (Pair c) (all_keys ks c)) (all_individual_contacts ks)) = others @ (c, k) # rest"
    and others: "\<forall>(c', k') \<in> set others. passed_over junk' ks crypted sig sender sbits dest dbits k'"
    and k: "get_contact_pubkey ks k = Some (wp_rsa_get_public_key sk)" "get_my_privkey ks k = Some rk"
      "\<not> address_differs dest dbits (get_local ks k)" "\<not> address_differs sender sbits (get_remote ks k)"
    and all: "maxcontacts \<le> 0" "sig_algo \<noteq> 0"
  shows "\<exists>out. decrypt_verify aes malloc' junk' supply ks sig_algo (with_signature crypted sig)
      sender sbits dest dbits maxcontacts = Some (int (length msg), Some (c, k), Some out) \<and>
    take (length msg) out = msg"
proof -
  obtain out where dec: "allnet_decrypt aes malloc' junk' (Some crypted) rk = Some (int (length msg), Some out)"
    "take (length msg) out = msg" and lc: "length crypted \<le> length msg + 512"
    using message_roundtrip [OF rk junk random malloc msg(2)] enc by auto
  have small: "8 * length crypted < 2 ^ 31" using lc msg(2) by simp
  have sv: "length sig = key_nbits sk div 8"
    "allnet_verify junk' (Some crypted) (Some sig) (wp_rsa_get_public_key sk) = Some 1"
    using sign_verify_run [OF sk junk malloc(1) small] sig small by auto
  have "length sig < 2 ^ 16" using sv(1) message_key_facts(3) [OF sk(1)] by simp
  note parts = with_signature_parts [OF this, of crypted]
  let ?e = "with_signature crypted sig"
  let ?attempt = "try_key aes malloc' junk' ks True crypted sig sender sbits dest dbits"
  have one: "?attempt k t = Some (int (length msg), Some out)" for t
    using k sv(2) dec(1) by (simp add: try_key_def)
  have "try_keys ?attempt (others @ (c, k) # rest) None = try_keys ?attempt ((c, k) # rest) None"
    by (rule try_keys_skip, rule try_key_passed_over) (use others in auto)
  also have "\<dots> = Some (int (length msg), Some (c, k), Some out)" using one msg(1) by simp
  finally have loop: "try_keys ?attempt (others @ (c, k) # rest) None = Some (int (length msg), Some (c, k), Some out)" .
  have guards: "\<not> (True \<and> length ?e < 2)" "\<not> length sig + 2 > length ?e" "\<not> (0 < maxcontacts \<and> maxcontacts < i)"
    "length ?e - (length sig + 2) = length crypted" for i
    using parts(1) all(1) by simp_all
  have s: "(sig_algo \<noteq> 0) = True" using all(2) by simp
  have "decrypt_verify aes malloc' junk' supply ks sig_algo ?e sender sbits dest dbits maxcontacts =
      Some (int (length msg), Some (c, k), Some out)"
    unfolding decrypt_verify_def Let_def s if_True if_not_P [OF guards(1)] parts(2) if_not_P [OF guards(2)]
      guards(4) if_not_P [OF guards(3)] bind.simps prod.case parts(3) add_diff_cancel_right' parts(4) keys loop
    by (rule refl)
  with dec(2) show ?thesis by blast
qed

end

section \<open>Properties\<close>

text \<open>The cipher of the build without OpenSSL, and examples of what \<open>malloc\<close> may return.\<close>

abbreviation aes :: cipher where "aes \<equiv> allnet_aes_encrypt_block None"

abbreviation zeros :: "nat \<Rightarrow> u8 list" where "zeros n \<equiv> replicate n 0"

lemma malloc_zeros: "malloc_ok zeros"
  by (simp add: malloc_ok_def)

lemma message_key_message: "message_key_ok message_key"
  using message_key_correct example_modulus by (simp add: message_key_ok_def)

text \<open>
  C32: \<open>aes_ctr_crypt\<close> is counter mode: byte \<open>j\<close> of the data is combined with byte \<open>j mod 16\<close> of the
  encryption of the 16-byte number \<open>ctr + j div 16\<close>, which wraps around, and it never fails for keys
  of 32 bytes.
\<close>

theorem aes_ctr_refines:
  assumes "length k = 32" and "length ctr = 16"
  shows "aes_ctr_crypt aes k ctr data =
    Some (map (\<lambda>j. data ! j XOR the (aes k (be_bytes 16 (bval ctr + j div 16))) ! (j mod 16)) [0..<length data])"
  using wp_aes.aes_ctr_run [OF assms] by (simp add: ctr_byte_def)

lemma be_bytes_wraps: "be_bytes n (256 ^ n) = replicate n 0"
proof -
  have "be_bytes n (256 ^ n) = be_bytes n (bval (be_bytes n (256 ^ n)))"
    by (rule be_bytes_bval [OF length_be_bytes, symmetric])
  also have "bval (be_bytes n (256 ^ n)) = bval (replicate n (0 :: u8))" by (simp add: bval_be_bytes)
  also have "be_bytes n (bval (replicate n (0 :: u8))) = replicate n 0" by (rule be_bytes_bval) simp
  finally show ?thesis .
qed

lemma all_ones: "bval (replicate n 255) + 1 = 256 ^ n"
proof (induction n)
  case (Suc n)
  have "bval (replicate (Suc n) 255) + 1 = 255 * 256 ^ n + (bval (replicate n 255) + 1)"
    by (simp add: bval_Cons)
  then show ?case unfolding Suc by simp
qed simp

theorem aes_ctr_refines_witness:
  "\<exists>r. aes_ctr_crypt aes (zeros 32) (replicate 16 255) (zeros 17) = Some r \<and>
    r ! 16 = the (aes (zeros 32) (zeros 16)) ! 0"
proof -
  have b: "bval (replicate 16 255) + 16 div 16 = 256 ^ 16"
    using all_ones [of 16] by simp
  let ?f = "\<lambda>j. zeros 17 ! j XOR the (aes (zeros 32) (be_bytes 16 (bval (replicate 16 255) + j div 16))) ! (j mod 16)"
  have 1: "aes_ctr_crypt aes (zeros 32) (replicate 16 255) (zeros 17) = Some (map ?f [0..<length (zeros 17)])"
    by (rule aes_ctr_refines) simp_all
  have 2: "map ?f [0..<length (zeros 17)] ! 16 = ?f 16" by (subst nth_map) simp_all
  have 3: "?f 16 = the (aes (zeros 32) (zeros 16)) ! 0" unfolding b be_bytes_wraps by simp
  show ?thesis
    by (rule exI [of _ "map ?f [0..<length (zeros 17)]"], rule conjI, rule 1, rule trans, rule 2, rule 3)
qed

text \<open>
  C18: \<open>allnet_decrypt\<close> with the private key gives back every message of less than 2 to the power 27 bytes that
  \<open>allnet_encrypt\<close> encrypted with the public key, whether it fits one RSA block or not, for every AES
  key and padding seed drawn and whatever the allocated memory held. From 2 to the power 28 bytes on,
  the size of the buffer in bits no longer fits an \<open>int\<close>.
\<close>

theorem message_encrypt_decrypt:
  assumes "message_key_ok k" and "length junk = 64" "length junk' = 64"
    and "length fresh = 48" and "length seed = 20" and "malloc_ok malloc" "malloc_ok malloc'"
    and "length msg < 2 ^ 27"
  shows "\<exists>c out. allnet_encrypt aes malloc junk fresh seed msg (wp_rsa_get_public_key k) =
      Some (int (length c), Some c) \<and>
    allnet_decrypt aes malloc' junk' (Some c) k = Some (int (length msg), Some out) \<and>
    take (length msg) out = msg \<and> 0 < length c \<and> length c \<le> length msg + 512"
  by (rule wp_aes.message_roundtrip [OF assms])

theorem message_encrypt_decrypt_witness:
  "\<exists>c out. allnet_encrypt aes zeros (replicate 64 0) (zeros 48) (zeros 20) (replicate 300 7)
      (wp_rsa_get_public_key message_key) = Some (int (length c), Some c) \<and>
    allnet_decrypt aes zeros (replicate 64 0) (Some c) message_key = Some (300, Some out) \<and>
    take 300 out = replicate 300 7"
  using message_encrypt_decrypt [OF message_key_message, of "replicate 64 0" "replicate 64 0" "zeros 48" "zeros 20"
      zeros zeros "replicate 300 7"] malloc_zeros by auto

text \<open>
  C33: Anybody who has the public key can make a message that \<open>allnet_decrypt\<close> does not survive: the
  encryption of a text of fewer than 48 bytes, followed by at least one byte more. The message is
  taken for one with an AES key and a counter in the RSA block, and the size of what remains of the
  block is negative.
\<close>

theorem decrypt_of_short_text_fails:
  assumes "message_key_ok k" and "length junk = 64" "length junk' = 64" and "length seed = 20"
    and "malloc_ok malloc" "malloc_ok malloc'" and "length msg < 48" and "extra \<noteq> []"
  shows "\<exists>c. allnet_encrypt aes malloc junk fresh seed msg (wp_rsa_get_public_key k) =
      Some (int (length c), Some c) \<and> allnet_decrypt aes malloc' junk' (Some (c @ extra)) k = None"
  by (rule wp_aes.short_prefix_fails [OF assms])

theorem decrypt_of_short_text_fails_witness:
  "\<exists>c. allnet_decrypt aes zeros (replicate 64 0) (Some (c @ [1])) message_key = None"
  using decrypt_of_short_text_fails [OF message_key_message, of "replicate 64 0" "replicate 64 0" "zeros 20"
      zeros zeros "[42]" "[1]" "zeros 48"] malloc_zeros by auto

text \<open>
  C39: \<open>allnet_sign\<close> succeeds with a correct key of at least 848 bits, and \<open>allnet_verify\<close> accepts its
  signature for a message exactly when the message has the same SHA-512 hash as the signed one.
\<close>

theorem sign_verify:
  assumes "message_key_ok k" and "848 \<le> key_nbits k" and "length junk = 64" "length junk' = 64"
    and "malloc_ok malloc" and "8 * length msg < 2 ^ 31"
  shows "\<exists>s. allnet_sign malloc junk msg k = Some (int (key_nbits k div 8), Some s) \<and>
    length s = key_nbits k div 8 \<and>
    (\<forall>msg'. 8 * length msg' < 2 ^ 31 \<longrightarrow>
       allnet_verify junk' (Some msg') (Some s) (wp_rsa_get_public_key k) =
         Some (if sha512_digest msg' = sha512_digest msg then 1 else 0))"
  by (rule sign_verify_run [OF assms])

theorem sign_verify_witness:
  "\<exists>s. allnet_sign zeros (replicate 64 0) [1, 2, 3] message_key = Some (112, Some s) \<and>
    allnet_verify (replicate 64 0) (Some [1, 2, 3]) (Some s) (wp_rsa_get_public_key message_key) = Some 1"
proof -
  obtain s where "allnet_sign zeros (replicate 64 0) [1, 2, 3] message_key = Some (int (key_nbits message_key div 8), Some s)"
    "\<forall>msg'. 8 * length msg' < 2 ^ 31 \<longrightarrow>
       allnet_verify (replicate 64 0) (Some msg') (Some s) (wp_rsa_get_public_key message_key) =
         Some (if sha512_digest msg' = sha512_digest [1, 2, 3] then 1 else 0)"
    using sign_verify [OF message_key_message, of "replicate 64 0" "replicate 64 0" zeros "[1, 2, 3]"] malloc_zeros
    by auto
  then show ?thesis by (intro exI [of _ s]) simp
qed

text \<open>
  C9: Whatever \<open>decrypt_verify\<close> returns for a message, signed or not, it is the work of the first
  key, in the order of the contacts, whose addresses are compatible, whose contact signed the message
  if it is signed, and that decrypts it; the length is negative for a message without signature. With
  a limit on the contacts the same holds for some of the contacts.
\<close>

theorem decrypt_verify_first_key:
  assumes "length sig < 2 ^ 16"
    and "decrypt_verify aes malloc junk supply ks sig_algo
        (if sig_algo \<noteq> 0 then with_signature crypted sig else crypted) sender sbits dest dbits maxcontacts =
      Some (res, who, msg)"
    and "length (all_individual_contacts ks) < 2 ^ 31"
  shows "\<exists>contacts. set contacts \<subseteq> set (all_individual_contacts ks) \<and>
    (maxcontacts \<le> 0 \<longrightarrow> contacts = all_individual_contacts ks) \<and>
    who = find (\<lambda>(c, k). key_accepts aes malloc junk ks (sig_algo \<noteq> 0) crypted
        (if sig_algo \<noteq> 0 then sig else []) sender sbits dest dbits k)
      (concat (map (\<lambda>c. map (Pair c) (all_keys ks c)) contacts)) \<and>
    (case who of
       None \<Rightarrow> res = 0
     | Some (c, k) \<Rightarrow> \<exists>prv n. get_my_privkey ks k = Some prv \<and> 0 < n \<and>
         allnet_decrypt aes malloc junk (Some crypted) prv = Some (n, msg) \<and>
         res = (if sig_algo \<noteq> 0 then n else - n))"
  by (rule decrypt_verify_run [OF assms])

text \<open>A store with one contact, whose keys are those of the example on both sides.\<close>

definition example_store :: key_store where
  "example_store = \<lparr>all_individual_contacts = [''alice''], all_keys = (\<lambda>_. [0]),
     get_local = (\<lambda>_. ([], 0)), get_remote = (\<lambda>_. ([], 0)),
     get_contact_pubkey = (\<lambda>_. Some (wp_rsa_get_public_key message_key)),
     get_my_privkey = (\<lambda>_. Some message_key)\<rparr>"

theorem decrypt_verify_first_key_witness:
  "\<exists>c out. decrypt_verify aes zeros (replicate 64 0) [] example_store 0 c None 0 None 0 0 =
      Some (- 300, Some (''alice'', 0), Some out) \<and>
    key_accepts aes zeros (replicate 64 0) example_store False c [] None 0 None 0 0"
proof -
  let ?j = "replicate 64 0 :: u64 list"
  obtain c out where dec: "allnet_decrypt aes zeros ?j (Some c) message_key = Some (300, Some out)"
    using wp_aes.message_roundtrip [OF message_key_message, of ?j ?j "zeros 48" "zeros 20"
      zeros zeros "replicate 300 7"] malloc_zeros by auto
  then have run: "decrypt_verify aes zeros ?j [] example_store 0 c None 0 None 0 0 =
      Some (- 300, Some (''alice'', 0), Some out)"
    by (simp add: decrypt_verify_def example_store_def Let_def try_key_def address_differs_def)
  have run': "decrypt_verify aes zeros ?j [] example_store 0
      (if (0 :: nat) \<noteq> 0 then with_signature c [] else c) None 0 None 0 0 = Some (- 300, Some (''alice'', 0), Some out)"
    using run by simp
  have "key_accepts aes zeros ?j example_store False c [] None 0 None 0 0"
    using decrypt_verify_first_key [OF _ run'] by (auto simp: example_store_def split: if_splits)
  with run show ?thesis by blast
qed

text \<open>
  C4: End to end: a message that was encrypted with the public key of the receiver and then signed
  with the private key of the sender is delivered by \<open>decrypt_verify\<close>, unchanged and under the name of
  the sender, if the addresses fit and no key tried before is taken for the one of the sender.
\<close>

theorem signed_message_delivered:
  assumes "message_key_ok sk" "848 \<le> key_nbits sk" and "message_key_ok rk"
    and "length junk = 64" "length junk' = 64" and "length fresh = 48" "length seed = 20"
    and "malloc_ok malloc" "malloc_ok malloc'"
    and "msg \<noteq> []" "length msg < 2 ^ 27"
    and "allnet_encrypt aes malloc junk fresh seed msg (wp_rsa_get_public_key rk) = Some (n, Some crypted)"
    and "allnet_sign malloc junk crypted sk = Some (m, Some sig)"
    and "concat (map (\<lambda>c. map (Pair c) (all_keys ks c)) (all_individual_contacts ks)) = others @ (c, k) # rest"
    and "\<forall>(c', k') \<in> set others. passed_over junk' ks crypted sig sender sbits dest dbits k'"
    and "get_contact_pubkey ks k = Some (wp_rsa_get_public_key sk)" "get_my_privkey ks k = Some rk"
      "\<not> address_differs dest dbits (get_local ks k)" "\<not> address_differs sender sbits (get_remote ks k)"
    and "maxcontacts \<le> 0" "sig_algo \<noteq> 0"
  shows "\<exists>out. decrypt_verify aes malloc' junk' supply ks sig_algo (with_signature crypted sig)
      sender sbits dest dbits maxcontacts = Some (int (length msg), Some (c, k), Some out) \<and>
    take (length msg) out = msg"
  by (rule wp_aes.delivered_run [OF assms])

theorem signed_message_delivered_witness:
  "\<exists>packet out. decrypt_verify aes zeros (replicate 64 0) [] example_store 1 packet None 0 None 0 0 =
      Some (300, Some (''alice'', 0), Some out) \<and> take 300 out = replicate 300 7"
proof -
  let ?j = "replicate 64 0 :: u64 list" and ?m = "replicate 300 7 :: u8 list"
  obtain c where c: "allnet_encrypt aes zeros ?j (zeros 48) (zeros 20) ?m (wp_rsa_get_public_key message_key) =
      Some (int (length c), Some c)" "length c \<le> 812"
    using wp_aes.message_roundtrip [OF message_key_message, of ?j ?j "zeros 48" "zeros 20"
      zeros zeros ?m] malloc_zeros by auto
  obtain s where s: "allnet_sign zeros ?j c message_key = Some (int (key_nbits message_key div 8), Some s)"
    using sign_verify_run [OF message_key_message, of ?j ?j zeros c] malloc_zeros c(2) by auto
  have keys: "concat (map (\<lambda>c. map (Pair c) (all_keys example_store c)) (all_individual_contacts example_store)) =
      [] @ (''alice'', 0) # []"
    by (simp add: example_store_def)
  have "\<exists>out. decrypt_verify aes zeros ?j [] example_store 1 (with_signature c s) None 0 None 0 0 =
      Some (int (length ?m), Some (''alice'', 0), Some out) \<and> take (length ?m) out = ?m"
    by (rule signed_message_delivered [OF message_key_message _ message_key_message _ _ _ _ malloc_zeros malloc_zeros _ _
          c(1) s keys])
      (simp_all add: example_store_def address_differs_def)
  then show ?thesis by auto
qed

end
