(* ===== verification/PacketCache.thy ===== *)
theory PacketCache
  imports PidBloom PacketHeader
begin

text \<open>
  \<open>lib/pcache.c\<close>, the cache of messages and acknowledgements of the daemon. The storage of an entry of
  the message table is the list of its messages with their headers, in the order in which the code
  finds them by adding up lengths; its size is what \<open>bytes_used_for_entry\<close> gives. The random slots and
  tokens that will be drawn are lists in the state, and \<open>now\<close> is the clock. \<open>None\<close> is an access outside
  a table, a crash or an \<open>exit\<close>, or the end of the random numbers.
\<close>

section \<open>The tables\<close>

definition acks_per_slot :: nat where "acks_per_slot = 64"
definition max_tokens :: nat where "max_tokens = 64"
definition allnet_token_size :: nat where "allnet_token_size = message_id_size"
definition allnet_mtu :: nat where "allnet_mtu = 12288"
definition message_header_size :: nat where "message_header_size = message_id_size + 4 + 4 + 8"
definition message_storage_size :: nat where "message_storage_size = message_header_size + allnet_mtu"

definition pid_message_filter :: nat where "pid_message_filter = 0"
definition pid_ack_filter :: nat where "pid_ack_filter = 1"
definition pid_trace_req_filter :: nat where "pid_trace_req_filter = 2"
definition pid_trace_reply_filter :: nat where "pid_trace_reply_filter = 3"

text \<open>A message header and the message that follows it, whose length is in the header.\<close>

record message_header =
  mh_id :: "u8 list"
  mh_priority :: u32
  mh_sent_to_tokens :: u64
  mh_message :: "u8 list"

definition mh_length :: "message_header \<Rightarrow> nat" where
  "mh_length mh = length (mh_message mh)"

record hash_ack_entry =
  ack_ack :: "u8 list"
  ack_id :: "u8 list"
  ack_used :: bool
  ack_max_hops :: u8
  ack_sent_to_tokens :: u64

record pcache =
  message_table :: "message_header list list"
  ack_table :: "hash_ack_entry list"
  local_token :: "u8 list"
  token_list :: "u8 list list"
  num_external_tokens :: nat
  last_gc :: u64
  blooms :: bloom
  random_slots :: "nat list"
  random_tokens :: "u8 list list"

fun bytes_used_for_entry :: "message_header list \<Rightarrow> nat" where
  "bytes_used_for_entry [] = 0"
| "bytes_used_for_entry (mh # entry) = message_header_size + mh_length mh + bytes_used_for_entry entry"

definition reinit_local_token :: "pcache \<Rightarrow> pcache option" where
  "reinit_local_token st =
     (case random_tokens st of
        [] \<Rightarrow> None
      | token # tokens \<Rightarrow> Some (st\<lparr>local_token := token, random_tokens := tokens\<rparr>))"

definition no_ack :: hash_ack_entry where
  "no_ack = \<lparr>ack_ack = replicate message_id_size 0, ack_id = replicate message_id_size 0, ack_used = False,
     ack_max_hops = 0, ack_sent_to_tokens = 0\<rparr>"

definition default_num_acks :: nat where "default_num_acks = 16384 * acks_per_slot"

text \<open>
  The number of entries of the message table, which depends on the build, and the number of
  acknowledgements that is configured are arguments.
\<close>

definition initialize_from_scratch :: "nat \<Rightarrow> nat \<Rightarrow> pcache \<Rightarrow> pcache option" where
  "initialize_from_scratch num_message_table_entries num_acks st = do {
     st \<leftarrow> reinit_local_token (st\<lparr>num_external_tokens := 0\<rparr>);
     let num_acks = (if num_acks < 100 then default_num_acks else num_acks);
     Some (st\<lparr>token_list := replicate max_tokens (replicate allnet_token_size 0),
       message_table := replicate num_message_table_entries [],
       ack_table := replicate (num_acks - num_acks mod acks_per_slot) no_ack\<rparr>)
   }"

section \<open>Message identifiers\<close>

text \<open>\<open>Some None\<close> is the result 0.\<close>

definition pcache_message_id :: "u8 list \<Rightarrow> u8 list option option" where
  "pcache_message_id message =
     (let msize = length message
      in if msize < allnet_header_size then Some None
         else
           let t = transport (header_of message); hsize = allnet_size t
           in if msize \<le> hsize then Some None
              else if has t transport_ack_req then
                (case allnet_message_id t msize of
                   None \<Rightarrow> None
                 | Some off \<Rightarrow> map_option Some (slice message off message_id_size))
              else map_option Some (sha512_bytes (drop hsize message) (int (msize - hsize)) message_id_size))"

text \<open>
  A test whether an identifier is in a filter, and the recording of one that is not; the test itself
  can change the filters.
\<close>

definition in_bloom :: "u8 list \<Rightarrow> nat \<Rightarrow> pcache \<Rightarrow> bool \<times> pcache" where
  "in_bloom pid sel st = (let (found, b) = pid_is_in_bloom pid sel (blooms st) in (found, st\<lparr>blooms := b\<rparr>))"

definition bloom_record :: "u8 list \<Rightarrow> nat \<Rightarrow> bloom \<Rightarrow> bloom" where
  "bloom_record pid sel b =
     (let (found, b) = pid_is_in_bloom pid sel b in if found then b else pid_add_to_bloom pid sel b)"

section \<open>Garbage collection\<close>

text \<open>The bytes of a number in memory, least significant byte first.\<close>

definition memory_bytes :: "u64 \<Rightarrow> u8 list" where
  "memory_bytes v = map (\<lambda>k. ucast (drop_bit (8 * k) v)) [0..<8]"

definition memory_value :: "u8 list \<Rightarrow> u64" where
  "memory_value p = fold (\<lambda>k v. v OR push_bit (8 * k) (ucast (p ! k))) [0..<8] 0"

definition shift_token :: "u64 \<Rightarrow> nat \<Rightarrow> u64" where
  "shift_token v token_shift =
     (if token_shift = 0 then v
      else
        let mask = NOT (push_bit (64 - token_shift) (- 1));
            tokens = readb64 (Some (memory_bytes v));
            tokens = drop_bit token_shift tokens AND mask
        in memory_value (the (writeb64 (Some (memory_bytes v)) tokens)))"

text \<open>Which messages have not expired, with the size and the number of the others.\<close>

fun keep_unexpired :: "int \<Rightarrow> message_header list \<Rightarrow> nat \<Rightarrow> nat \<Rightarrow> (bool list \<times> nat \<times> nat) option" where
  "keep_unexpired now [] total_size num_messages = Some ([], total_size, num_messages)"
| "keep_unexpired now (mh # msgs) total_size num_messages = do {
     expired \<leftarrow> is_expired_message now (mh_message mh);
     (keep, total_size, num_messages) \<leftarrow>
       (if expired then keep_unexpired now msgs (total_size - (mh_length mh + message_header_size)) (num_messages - 1)
        else keep_unexpired now msgs total_size num_messages);
     Some ((\<not> expired) # keep, total_size, num_messages)
   }"

definition lowest_priority :: "message_header list \<Rightarrow> bool list \<Rightarrow> nat option" where
  "lowest_priority msgs keep =
     fold (\<lambda>i lpindex.
       if keep ! i \<and> (case lpindex of None \<Rightarrow> True | Some l \<Rightarrow> mh_priority (msgs ! i) < mh_priority (msgs ! l))
       then Some i else lpindex) [0..<length msgs] None"

text \<open>The loop that gives up messages until there is room; \<open>None\<close> when none is left to give up.\<close>

function free_lowest :: "message_header list \<Rightarrow> bool list \<Rightarrow> nat \<Rightarrow> nat \<Rightarrow> nat \<Rightarrow> (bool list \<times> nat \<times> nat) option" where
  "free_lowest msgs keep wanted_space total_size num_messages =
     (if total_size + wanted_space > message_storage_size then
        (case lowest_priority msgs keep of
           None \<Rightarrow> None
         | Some lpindex \<Rightarrow>
           if \<not> (lpindex < length keep \<and> keep ! lpindex) then None
           else free_lowest msgs (keep[lpindex := False]) wanted_space
             (total_size - (mh_length (msgs ! lpindex) + message_header_size)) (num_messages - 1))
      else Some (keep, total_size, num_messages))"
  by pat_completeness auto
termination
proof (relation "measure (\<lambda>(msgs, keep, w, t, n). length (filter (\<lambda>k. k) keep))")
  fix msgs :: "message_header list" and keep :: "bool list" and w t n l :: nat
  assume "\<not> \<not> (l < length keep \<and> keep ! l)"
  then have l: "l < length keep" "keep ! l" by simp_all
  have "length (filter (\<lambda>k. k) (take l keep @ False # drop (Suc l) keep)) < length (filter (\<lambda>k. k) (take l keep @ keep ! l # drop (Suc l) keep))"
    using l(2) by simp
  then show "((msgs, keep[l := False], w, t - (mh_length (msgs ! l) + message_header_size), n - 1), (msgs, keep, w, t, n))
      \<in> measure (\<lambda>(msgs, keep, w, t, n). length (filter (\<lambda>k. k) keep))"
    using l(1) by (simp add: upd_conv_take_nth_drop id_take_nth_drop [symmetric])
qed simp

declare free_lowest.simps [simp del]

fun compact_messages :: "nat \<Rightarrow> message_header list \<Rightarrow> bool list \<Rightarrow> bloom \<Rightarrow> message_header list \<times> bloom" where
  "compact_messages token_shift (mh # msgs) (k # keep) b =
     (if k then
        let (kept, b) = compact_messages token_shift msgs keep b
        in (mh\<lparr>mh_sent_to_tokens := shift_token (mh_sent_to_tokens mh) token_shift\<rparr> # kept, b)
      else compact_messages token_shift msgs keep (bloom_record (mh_id mh) pid_message_filter b))"
| "compact_messages token_shift _ _ b = ([], b)"

text \<open>The offset for a new message, and the state. The checks at the end are assertions.\<close>

definition gc_messages_entry :: "int \<Rightarrow> nat \<Rightarrow> nat \<Rightarrow> nat \<Rightarrow> pcache \<Rightarrow> (nat \<times> pcache) option" where
  "gc_messages_entry now eindex msize token_shift st =
     (let hp = message_table st ! eindex;
          cleared = Some (0, st\<lparr>message_table := (message_table st)[eindex := []]\<rparr>);
          wanted_space = message_storage_size div 2 + msize + message_header_size
      in if hp = [] then Some (0, st)
         else if wanted_space \<ge> message_storage_size then cleared
         else if length hp > message_storage_size div message_header_size then Some (0, st)
         else if bytes_used_for_entry hp > message_storage_size then None
         else do {
           (keep, total_size, num_messages) \<leftarrow> keep_unexpired now hp (bytes_used_for_entry hp) (length hp);
           (case free_lowest hp keep wanted_space total_size num_messages of
              None \<Rightarrow> cleared
            | Some (keep, total_size, num_messages) \<Rightarrow>
              let (kept, b) = compact_messages token_shift hp keep (blooms st)
              in if bytes_used_for_entry kept \<noteq> total_size \<or> length kept \<noteq> num_messages then None
                 else Some (total_size, st\<lparr>message_table := (message_table st)[eindex := kept], blooms := b\<rparr>))
         })"

text \<open>The loop that frees entries of the slot that starts at \<open>base\<close> at random.\<close>

fun free_random_acks :: "nat \<Rightarrow> nat \<Rightarrow> nat list \<Rightarrow> hash_ack_entry list \<Rightarrow> bloom \<Rightarrow>
    (nat list \<times> hash_ack_entry list \<times> bloom) option" where
  "free_random_acks base used_count [] table b =
     (if used_count > acks_per_slot div 2 then None else Some ([], table, b))"
| "free_random_acks base used_count (sel # sels) table b =
     (if used_count > acks_per_slot div 2 then
        let a = table ! (base + sel)
        in if ack_used a then
             free_random_acks base (used_count - 1) sels (table[base + sel := a\<lparr>ack_used := False\<rparr>])
               (bloom_record (ack_id a) pid_message_filter (bloom_record (ack_ack a) pid_ack_filter b))
           else free_random_acks base used_count sels table b
      else Some (sel # sels, table, b))"

definition slot_base :: "nat \<Rightarrow> nat" where
  "slot_base aindex = aindex - aindex mod acks_per_slot"

definition gc_ack_slot :: "nat \<Rightarrow> nat \<Rightarrow> pcache \<Rightarrow> pcache option" where
  "gc_ack_slot aindex token_shift st =
     (let base = slot_base aindex;
          used_count = length (filter ack_used (take acks_per_slot (drop base (ack_table st))))
      in do {
        (sels, table, b) \<leftarrow> free_random_acks base used_count (random_slots st) (ack_table st) (blooms st);
        let table = (if token_shift > 0
          then take base table @
            map (\<lambda>a. a\<lparr>ack_sent_to_tokens := shift_token (ack_sent_to_tokens a) token_shift\<rparr>) (take acks_per_slot (drop base table)) @
            drop (base + acks_per_slot) table
          else table);
        Some (st\<lparr>ack_table := table, blooms := b, random_slots := sels\<rparr>)
      })"

definition gc_tokens :: "pcache \<Rightarrow> nat \<times> pcache" where
  "gc_tokens st =
     (if num_external_tokens st < max_tokens then (0, st)
      else
        let goal = 3 * max_tokens div 4;
            shift = num_external_tokens st - goal;
            len = num_external_tokens st - shift
        in (shift, st\<lparr>token_list := take len (drop shift (token_list st)) @
                        replicate (max_tokens - len) (replicate allnet_token_size 0),
                      num_external_tokens := len\<rparr>))"

text \<open>A loop whose body can fail.\<close>

fun each :: "('a \<Rightarrow> 's \<Rightarrow> 's option) \<Rightarrow> 'a list \<Rightarrow> 's \<Rightarrow> 's option" where
  "each f [] s = Some s"
| "each f (x # xs) s = do { s \<leftarrow> f x s; each f xs s }"

definition gc_step :: "int \<Rightarrow> nat option \<Rightarrow> nat \<Rightarrow> nat \<Rightarrow> nat \<Rightarrow> nat \<times> pcache \<Rightarrow> (nat \<times> pcache) option" where
  "gc_step now eindex msize delta_tokens i rs =
     (if eindex = Some i then gc_messages_entry now i msize delta_tokens (snd rs)
      else map_option (\<lambda>r. (fst rs, snd r)) (gc_messages_entry now i 0 delta_tokens (snd rs)))"

text \<open>The files that it writes are not part of the state, but for that of the filters.\<close>

definition do_gc :: "int \<Rightarrow> nat option \<Rightarrow> nat \<Rightarrow> pcache \<Rightarrow> (nat \<times> pcache) option" where
  "do_gc now eindex msize st =
     (let (delta_tokens, st) = gc_tokens st
      in do {
        st \<leftarrow> each (\<lambda>slot. gc_ack_slot (slot * acks_per_slot) delta_tokens) [0..<length (ack_table st) div acks_per_slot] st;
        (result, st) \<leftarrow> each (gc_step now eindex msize delta_tokens) [0..<length (message_table st)] (0, st);
        st \<leftarrow> reinit_local_token st;
        Some (result, st\<lparr>blooms := pid_save_bloom (pid_advance_bloom (blooms st))\<rparr>)
      })"

section \<open>Messages\<close>

definition entry_index :: "u8 list \<Rightarrow> pcache \<Rightarrow> nat" where
  "entry_index pid st = unat (readb64 (Some pid)) mod length (message_table st)"

definition message_position :: "u8 list \<Rightarrow> message_header list \<Rightarrow> nat option" where
  "message_position pid hp = find (\<lambda>i. mh_id (hp ! i) = pid) [0..<length hp]"

definition delete_message_entry :: "nat \<Rightarrow> message_header list \<Rightarrow> message_header list" where
  "delete_message_entry i hp = take i hp @ drop (Suc i) hp"

text \<open>The place of the header, if it is found, and the state after the deletion, if it is wanted.\<close>

definition pcache_id_found_delete :: "u8 list \<Rightarrow> bool \<Rightarrow> pcache \<Rightarrow> nat option \<times> pcache" where
  "pcache_id_found_delete pid delete st =
     (let eindex = entry_index pid st; hp = message_table st ! eindex
      in case message_position pid hp of
           None \<Rightarrow> (None, st)
         | Some i \<Rightarrow> (Some i, if delete then st\<lparr>message_table := (message_table st)[eindex := delete_message_entry i hp]\<rparr> else st))"

definition pcache_id_found :: "u8 list \<Rightarrow> pcache \<Rightarrow> bool \<times> pcache" where
  "pcache_id_found pid st =
     (let (found, st) = in_bloom pid pid_message_filter st
      in if found then (True, st) else (fst (pcache_id_found_delete pid False st) \<noteq> None, st))"

definition pcache_save_packet :: "int \<Rightarrow> u8 list \<Rightarrow> int \<Rightarrow> pcache \<Rightarrow> pcache option" where
  "pcache_save_packet now message priority st = do {
     pid \<leftarrow> pcache_message_id message;
     (case pid of
        None \<Rightarrow> Some st
      | Some pid \<Rightarrow>
        let (found, st) = pcache_id_found pid st; msize = length message
        in if found then Some st
           else
             let eindex = entry_index pid st;
                 offset = bytes_used_for_entry (message_table st ! eindex)
             in do {
               (offset, st) \<leftarrow>
                 (if offset + message_header_size + msize > message_storage_size
                  then do_gc now (Some eindex) msize st else Some (offset, st));
               let hp = message_table st ! eindex;
               if offset + message_header_size + msize \<le> message_storage_size \<and> offset = bytes_used_for_entry hp
               then Some (st\<lparr>message_table := (message_table st)[eindex := hp @
                 [\<lparr>mh_id = pid, mh_priority = of_int priority, mh_sent_to_tokens = 0, mh_message = message\<rparr>]]\<rparr>)
               else None
             })
   }"

definition pcache_record_packet :: "u8 list \<Rightarrow> pcache \<Rightarrow> pcache option" where
  "pcache_record_packet message st = do {
     pid \<leftarrow> pcache_message_id message;
     Some (case pid of
        None \<Rightarrow> st
      | Some pid \<Rightarrow> st\<lparr>blooms := bloom_record pid pid_message_filter (blooms st)\<rparr>)
   }"

section \<open>Acknowledgements\<close>

definition ack_index :: "u8 list \<Rightarrow> pcache \<Rightarrow> nat" where
  "ack_index pid st = unat (readb64 (Some pid)) mod length (ack_table st)"

definition find_one_ack :: "u8 list \<Rightarrow> pcache \<Rightarrow> nat option" where
  "find_one_ack pid st =
     (let base = slot_base (ack_index pid st)
      in find (\<lambda>i. ack_used (ack_table st ! i) \<and> ack_id (ack_table st ! i) = pid) [base..<base + acks_per_slot])"

definition pcache_id_acked :: "u8 list \<Rightarrow> pcache \<Rightarrow> u8 list option" where
  "pcache_id_acked pid st = map_option (\<lambda>i. ack_ack (ack_table st ! i)) (find_one_ack pid st)"

definition find_free_ack_in_slot :: "nat \<Rightarrow> pcache \<Rightarrow> nat option" where
  "find_free_ack_in_slot aindex st =
     find (\<lambda>i. \<not> ack_used (ack_table st ! i)) [slot_base aindex..<slot_base aindex + acks_per_slot]"

text \<open>The identifier of an acknowledged message is the hash of the acknowledgement.\<close>

definition id_of_ack :: "u8 list \<Rightarrow> u8 list option" where
  "id_of_ack ack = sha512_bytes ack (int message_id_size) message_id_size"

definition ack_place :: "int \<Rightarrow> nat \<Rightarrow> pcache \<Rightarrow> (nat \<times> pcache) option" where
  "ack_place now aindex st =
     (if ack_used (ack_table st ! aindex) then
        (case find_free_ack_in_slot aindex st of
           Some found \<Rightarrow> Some (found, st)
         | None \<Rightarrow> do {
             (_, st) \<leftarrow> do_gc now None 0 st;
             if ack_used (ack_table st ! aindex)
             then map_option (\<lambda>found. (found, st)) (find_free_ack_in_slot aindex st)
             else Some (aindex, st)
           })
      else Some (aindex, st))"

definition save_one_ack :: "int \<Rightarrow> u8 list \<Rightarrow> int \<Rightarrow> pcache \<Rightarrow> (nat \<times> pcache) option" where
  "save_one_ack now ack hop_count st =
     (let (found, st) = in_bloom ack pid_ack_filter st
      in if found then Some (0, st)
         else do {
           pid \<leftarrow> id_of_ack ack;
           (case find_one_ack pid st of
              Some aindex \<Rightarrow>
                let a = ack_table st ! aindex
                in Some (aindex, if uint (ack_max_hops a) < hop_count
                   then st\<lparr>ack_table := (ack_table st)[aindex := a\<lparr>ack_max_hops := of_int hop_count\<rparr>]\<rparr> else st)
            | None \<Rightarrow> do {
                (aindex, st) \<leftarrow> ack_place now (ack_index pid st) st;
                if ack_used (ack_table st ! aindex) then None
                else
                  let st = st\<lparr>ack_table := (ack_table st)[aindex := \<lparr>ack_ack = ack, ack_id = pid, ack_used = True,
                    ack_max_hops = of_int hop_count, ack_sent_to_tokens = 0\<rparr>]\<rparr>
                  in Some (aindex, snd (pcache_id_found_delete pid True st))
              })
         })"

definition pcache_save_acks :: "int \<Rightarrow> u8 list list \<Rightarrow> int \<Rightarrow> pcache \<Rightarrow> pcache option" where
  "pcache_save_acks now acks hop_count st = each (\<lambda>ack st. map_option snd (save_one_ack now ack hop_count st)) acks st"

section \<open>Tokens\<close>

definition token_position :: "u8 list \<Rightarrow> pcache \<Rightarrow> nat option" where
  "token_position token st = find (\<lambda>i. token_list st ! i = token) [0..<num_external_tokens st]"

definition token_to_send_to :: "int \<Rightarrow> u8 list \<Rightarrow> u64 \<Rightarrow> pcache \<Rightarrow> (int \<times> pcache) option" where
  "token_to_send_to now token bitmap st =
     (case token_position token st of
        Some i \<Rightarrow> Some (if bitmap AND push_bit i 1 \<noteq> 0 then - 1 else int i, st)
      | None \<Rightarrow>
        if num_external_tokens st + 1 > max_tokens \<and> last_gc st + 60 > allnet_time now then Some (- 1, st)
        else do {
          st \<leftarrow>
            (if num_external_tokens st + 1 > max_tokens
             then map_option (\<lambda>r. snd r\<lparr>last_gc := allnet_time now\<rparr>) (do_gc now None 0 st)
             else Some st);
          if num_external_tokens st + 1 > max_tokens then None
          else
            let n = num_external_tokens st
            in Some (int n, st\<lparr>token_list := (token_list st)[n := token], num_external_tokens := n + 1\<rparr>)
        })"

text \<open>For an acknowledgement that is not in the table, the code reads the entry at index -1.\<close>

definition pcache_ack_for_token :: "int \<Rightarrow> u8 list \<Rightarrow> u8 list \<Rightarrow> pcache \<Rightarrow> (bool \<times> pcache) option" where
  "pcache_ack_for_token now token ack st =
     (let (found, st) = in_bloom ack pid_ack_filter st
      in if found then Some (False, st)
         else do {
           pid \<leftarrow> id_of_ack ack;
           aindex \<leftarrow> find_one_ack pid st;
           (itoken, st) \<leftarrow> token_to_send_to now token (ack_sent_to_tokens (ack_table st ! aindex)) st;
           if itoken = - 1 then Some (False, st)
           else
             let a = ack_table st ! aindex
             in Some (True, st\<lparr>ack_table := (ack_table st)[aindex :=
               a\<lparr>ack_sent_to_tokens := ack_sent_to_tokens a OR push_bit (nat itoken) 1\<rparr>]\<rparr>)
         })"

definition acks_step :: "int \<Rightarrow> u8 list \<Rightarrow> nat \<Rightarrow> u8 list list \<times> nat \<times> pcache \<Rightarrow> (u8 list list \<times> nat \<times> pcache) option" where
  "acks_step now token i s =
     (case s of (acks, result, st) \<Rightarrow> do {
        (ok, st) \<leftarrow> pcache_ack_for_token now token (acks ! i) st;
        Some (if ok then (acks[result := acks ! i], result + 1, st) else (acks, result, st))
      })"

definition pcache_acks_for_token :: "int \<Rightarrow> u8 list \<Rightarrow> u8 list list \<Rightarrow> pcache \<Rightarrow> (u8 list list \<times> nat \<times> pcache) option" where
  "pcache_acks_for_token now token acks st = each (acks_step now token) [0..<length acks] (acks, 0, st)"

definition pcache_mark_token_sent :: "int \<Rightarrow> u8 list option \<Rightarrow> u8 list \<Rightarrow> pcache \<Rightarrow> pcache option" where
  "pcache_mark_token_sent now token message st =
     (if token = None \<or> length message < allnet_header_size then Some st
      else do {
        pid \<leftarrow> pcache_message_id message;
        (case pid of
           None \<Rightarrow> Some st
         | Some pid \<Rightarrow> do {
             (token_index, st) \<leftarrow> token_to_send_to now (the token) 0 st;
             Some (if token_index < 0 then st
               else
                 case fst (pcache_id_found_delete pid False st) of
                   None \<Rightarrow> st
                 | Some i \<Rightarrow>
                   let eindex = entry_index pid st; hp = message_table st ! eindex; mh = hp ! i
                   in st\<lparr>message_table := (message_table st)[eindex :=
                     hp[i := mh\<lparr>mh_sent_to_tokens := mh_sent_to_tokens mh OR push_bit (nat token_index) 1\<rparr>]]\<rparr>)
           })
      })"

section \<open>Traces\<close>

definition pcache_trace_request :: "u8 list \<Rightarrow> pcache \<Rightarrow> bool \<times> pcache" where
  "pcache_trace_request pid st =
     (let (found, st) = in_bloom pid pid_trace_req_filter st
      in if found then (True, st)
         else (False, st\<lparr>blooms := pid_add_to_bloom pid pid_trace_req_filter (blooms st)\<rparr>))"

definition pcache_trace_reply :: "u8 list \<Rightarrow> pcache \<Rightarrow> (bool \<times> pcache) option" where
  "pcache_trace_reply msg st = do {
     pid \<leftarrow> sha512_bytes msg (int (length msg)) message_id_size;
     let (found, st) = in_bloom pid pid_trace_reply_filter st;
     Some (if found then (True, st)
       else (False, st\<lparr>blooms := pid_add_to_bloom pid pid_trace_reply_filter (blooms st)\<rparr>))
   }"

end
