(* ===== verification/CacheGc.thy ===== *)
theory CacheGc
  imports PacketCache
begin

text \<open>
  What a garbage collection of the cache in \<open>PacketCache\<close> does: which messages it keeps, that it frees
  half of every entry and slot, and that it ends if the random numbers hit every position.
\<close>

section \<open>The messages that are kept\<close>

fun kept :: "message_header list \<Rightarrow> bool list \<Rightarrow> message_header list" where
  "kept (mh # msgs) (k # keep) = (if k then mh # kept msgs keep else kept msgs keep)"
| "kept _ _ = []"

lemma kept_Nil [simp]: "kept [] keep = []" "kept msgs [] = []"
  by (cases keep; simp) (cases msgs; simp)

lemma kept_filter: "kept msgs keep = map fst (filter snd (zip msgs keep))"
  by (induction msgs keep rule: kept.induct) auto

lemma kept_set: "length keep = length msgs \<Longrightarrow> set (kept msgs keep) = {msgs ! i | i. i < length msgs \<and> keep ! i}"
  by (force simp: kept_filter set_zip)

lemma kept_subset: "set (kept msgs keep) \<subseteq> set msgs"
  by (induction msgs keep rule: kept.induct) auto

lemma kept_bytes: "bytes_used_for_entry (kept msgs keep) \<le> bytes_used_for_entry msgs"
  by (induction msgs keep rule: kept.induct) auto

lemma kept_length: "length (kept msgs keep) \<le> length msgs"
  by (induction msgs keep rule: kept.induct) auto

lemma kept_distinct: "distinct (map f msgs) \<Longrightarrow> distinct (map f (kept msgs keep))"
  using kept_subset by (induction msgs keep rule: kept.induct) fastforce+

lemma kept_drop:
  "i < length msgs \<Longrightarrow> length keep = length msgs \<Longrightarrow> keep ! i \<Longrightarrow>
     bytes_used_for_entry (kept msgs keep) =
       bytes_used_for_entry (kept msgs (keep[i := False])) + (mh_length (msgs ! i) + message_header_size) \<and>
     length (kept msgs keep) = Suc (length (kept msgs (keep[i := False])))"
proof (induction msgs keep arbitrary: i rule: kept.induct)
  case (1 mh msgs k keep)
  then show ?case by (cases i) auto
qed auto

lemma is_expired_total: "\<exists>e. is_expired_message now p = Some e"
proof -
  let ?t = "transport (header_of p)" and ?s = "length p"
  have "off + 8 \<le> ?s" if "allnet_expiration ?t ?s = Some off" "\<not> ?s < allnet_size ?t" "has ?t transport_expiration" for off
    using that by (auto simp: allnet_expiration_def allnet_after_sequence_def allnet_after_message_id_def
      allnet_after_stream_id_def allnet_size_def allnet_time_size_def large_header_size_def)
  then show ?thesis
    by (auto simp: is_expired_message_def Let_def slice_def split: option.splits)
qed

lemma keep_unexpired_run:
  assumes "bytes_used_for_entry msgs \<le> t" and "length msgs \<le> n"
  shows "\<exists>keep. keep_unexpired now msgs t n = Some (keep,
      t - bytes_used_for_entry msgs + bytes_used_for_entry (kept msgs keep), n - length msgs + length (kept msgs keep)) \<and>
    keep = map (\<lambda>mh. is_expired_message now (mh_message mh) = Some False) msgs"
  using assms
proof (induction msgs arbitrary: t n)
  case (Cons mh msgs)
  obtain e where e: "is_expired_message now (mh_message mh) = Some e" using is_expired_total by blast
  show ?case
  proof (cases e)
    case True
    then show ?thesis using Cons.IH [of "t - (mh_length mh + message_header_size)" "n - 1"] Cons.prems e by auto
  next
    case False
    then show ?thesis using Cons.IH [of t n] Cons.prems e by auto
  qed
qed simp

section \<open>Giving up messages of low priority\<close>

lemma lowest_priority_run:
  assumes "length keep = length msgs"
  shows "(case lowest_priority msgs keep of
     None \<Rightarrow> \<forall>i < length msgs. \<not> keep ! i
   | Some l \<Rightarrow> l < length msgs \<and> keep ! l \<and> (\<forall>j < length msgs. keep ! j \<longrightarrow> mh_priority (msgs ! l) \<le> mh_priority (msgs ! j)))"
proof -
  have "(case fold (\<lambda>i lpindex.
       if keep ! i \<and> (case lpindex of None \<Rightarrow> True | Some l \<Rightarrow> mh_priority (msgs ! i) < mh_priority (msgs ! l))
       then Some i else lpindex) [0..<m] None of
     None \<Rightarrow> \<forall>i < m. \<not> keep ! i
   | Some l \<Rightarrow> l < m \<and> keep ! l \<and> (\<forall>j < m. keep ! j \<longrightarrow> mh_priority (msgs ! l) \<le> mh_priority (msgs ! j)))" for m
  proof (induction m)
    case (Suc m)
    then show ?case
      by (auto simp: less_Suc_eq not_less split: option.splits if_splits)
  qed simp
  then show ?thesis by (simp add: lowest_priority_def)
qed

lemma kept_None: "length keep = length msgs \<Longrightarrow> \<forall>i < length msgs. \<not> keep ! i \<Longrightarrow> kept msgs keep = []"
  by (auto simp: kept_filter filter_empty_conv set_zip)

definition gives_up_lowest :: "message_header list \<Rightarrow> bool list \<Rightarrow> bool list \<Rightarrow> bool" where
  "gives_up_lowest msgs keep keep' \<longleftrightarrow> length keep' = length msgs \<and>
     (\<forall>i < length msgs. keep' ! i \<longrightarrow> keep ! i) \<and>
     (\<forall>i < length msgs. \<forall>j < length msgs. keep ! i \<and> \<not> keep' ! i \<and> keep' ! j \<longrightarrow>
        mh_priority (msgs ! i) \<le> mh_priority (msgs ! j))"

lemma free_lowest_run:
  assumes "length keep = length msgs" and "wanted \<le> message_storage_size"
  shows "\<exists>keep'. free_lowest msgs keep wanted (bytes_used_for_entry (kept msgs keep)) (length (kept msgs keep)) =
      Some (keep', bytes_used_for_entry (kept msgs keep'), length (kept msgs keep')) \<and>
    bytes_used_for_entry (kept msgs keep') + wanted \<le> message_storage_size \<and> gives_up_lowest msgs keep keep' \<and>
    (bytes_used_for_entry (kept msgs keep) + wanted \<le> message_storage_size \<longrightarrow> keep' = keep)"
  using assms(1)
proof (induction "length (kept msgs keep)" arbitrary: keep)
  case 0
  then have "kept msgs keep = []" by simp
  then show ?case using 0 assms(2)
    by (intro exI [of _ keep], subst free_lowest.simps) (auto simp: gives_up_lowest_def)
next
  case (Suc n)
  show ?case
  proof (cases "bytes_used_for_entry (kept msgs keep) + wanted > message_storage_size")
    case False
    then show ?thesis using Suc.prems
      by (intro exI [of _ keep], subst free_lowest.simps) (auto simp: gives_up_lowest_def)
  next
    case True
    have "lowest_priority msgs keep \<noteq> None"
      using lowest_priority_run [OF Suc.prems] kept_None [OF Suc.prems] Suc.hyps(2) by (auto split: option.splits)
    then obtain l where l: "lowest_priority msgs keep = Some l" by blast
    then have lr: "l < length msgs" "keep ! l" and low: "\<And>j. j < length msgs \<Longrightarrow> keep ! j \<Longrightarrow> mh_priority (msgs ! l) \<le> mh_priority (msgs ! j)"
      using lowest_priority_run [OF Suc.prems] by auto
    let ?k = "keep[l := False]"
    note drop = kept_drop [OF lr(1) Suc.prems lr(2)]
    have "free_lowest msgs keep wanted (bytes_used_for_entry (kept msgs keep)) (length (kept msgs keep)) =
        free_lowest msgs ?k wanted (bytes_used_for_entry (kept msgs ?k)) (length (kept msgs ?k))"
      by (subst free_lowest.simps) (use True l lr Suc.prems drop in simp)
    moreover obtain keep' where keep': "free_lowest msgs ?k wanted (bytes_used_for_entry (kept msgs ?k)) (length (kept msgs ?k)) =
          Some (keep', bytes_used_for_entry (kept msgs keep'), length (kept msgs keep'))"
        "bytes_used_for_entry (kept msgs keep') + wanted \<le> message_storage_size" "gives_up_lowest msgs ?k keep'"
      using Suc.hyps(1) [of ?k] Suc.hyps(2) Suc.prems drop by auto
    moreover have "gives_up_lowest msgs keep keep'"
      using keep'(3) low lr Suc.prems unfolding gives_up_lowest_def
      by (auto simp: nth_list_update) (metis)+
    ultimately show ?thesis using True by auto
  qed
qed

lemma compact_run: "length keep = length msgs \<Longrightarrow> fst (compact_messages s msgs keep b) =
    map (\<lambda>mh. mh\<lparr>mh_sent_to_tokens := shift_token (mh_sent_to_tokens mh) s\<rparr>) (kept msgs keep)"
  by (induction msgs keep arbitrary: b rule: kept.induct) (auto simp: case_prod_beta)

lemma mh_length_update [simp]: "mh_length (mh\<lparr>mh_sent_to_tokens := v\<rparr>) = mh_length mh"
  by (simp add: mh_length_def)

lemma bytes_used_map [simp]:
  "bytes_used_for_entry (map (\<lambda>mh. mh\<lparr>mh_sent_to_tokens := f mh\<rparr>) msgs) = bytes_used_for_entry msgs"
  by (induction msgs) auto

lemma bytes_used_append [simp]: "bytes_used_for_entry (xs @ ys) = bytes_used_for_entry xs + bytes_used_for_entry ys"
  by (induction xs) auto

lemma bytes_used_length: "message_header_size * length msgs \<le> bytes_used_for_entry msgs"
  by (induction msgs) auto

text \<open>
  The result for one entry: \<open>hp'\<close> has what is kept of \<open>hp\<close>, and the offset is where it ends.
\<close>

definition gc_result :: "int \<Rightarrow> nat \<Rightarrow> nat \<Rightarrow> message_header list \<Rightarrow> message_header list \<Rightarrow> bool" where
  "gc_result now msize s hp hp' \<longleftrightarrow>
     (if hp = [] then hp' = []
      else if msize + message_header_size \<ge> message_storage_size div 2 then hp' = []
      else \<exists>keep keep'. keep = map (\<lambda>mh. is_expired_message now (mh_message mh) = Some False) hp \<and>
        gives_up_lowest hp keep keep' \<and>
        hp' = map (\<lambda>mh. mh\<lparr>mh_sent_to_tokens := shift_token (mh_sent_to_tokens mh) s\<rparr>) (kept hp keep') \<and>
        bytes_used_for_entry hp' + message_storage_size div 2 + msize + message_header_size \<le> message_storage_size \<and>
        (bytes_used_for_entry (kept hp keep) + message_storage_size div 2 + msize + message_header_size \<le> message_storage_size \<longrightarrow>
          keep' = keep))"

lemma gc_messages_entry_run:
  assumes fits: "bytes_used_for_entry (message_table st ! i) \<le> message_storage_size" and i: "i < length (message_table st)"
  shows "\<exists>hp' b. gc_messages_entry now i msize s st =
      Some (bytes_used_for_entry hp', st\<lparr>message_table := (message_table st)[i := hp'], blooms := b\<rparr>) \<and>
    gc_result now msize s (message_table st ! i) hp'"
proof -
  define hp where "hp = message_table st ! i"
  define wanted where "wanted = message_storage_size div 2 + msize + message_header_size"
  have fits: "bytes_used_for_entry hp \<le> message_storage_size" using fits by (simp add: hp_def)
  have half: "message_storage_size = message_storage_size div 2 + message_storage_size div 2"
    by (simp add: message_storage_size_def message_header_size_def message_id_size_def allnet_mtu_def)
  consider "hp = []" | "hp \<noteq> []" "wanted \<ge> message_storage_size" | "hp \<noteq> []" "wanted < message_storage_size" by linarith
  then show ?thesis
  proof cases
    case 1
    then have "(message_table st)[i := []] = message_table st" using hp_def by (metis list_update_id)
    then have "gc_messages_entry now i msize s st = Some (bytes_used_for_entry [], st\<lparr>message_table := (message_table st)[i := []], blooms := blooms st\<rparr>)"
      using 1 by (simp add: gc_messages_entry_def hp_def Let_def)
    then show ?thesis using 1 unfolding hp_def [symmetric]
      by (intro exI [of _ "[]"] exI [of _ "blooms st"]) (simp add: gc_result_def)
  next
    case 2
    then have "gc_messages_entry now i msize s st = Some (bytes_used_for_entry [], st\<lparr>message_table := (message_table st)[i := []], blooms := blooms st\<rparr>)"
      by (simp add: gc_messages_entry_def hp_def Let_def wanted_def)
    moreover have "msize + message_header_size \<ge> message_storage_size div 2" using 2(2) half unfolding wanted_def by linarith
    then have "gc_result now msize s hp []" by (simp add: gc_result_def)
    ultimately show ?thesis unfolding hp_def by blast
  next
    case 3
    have small: "\<not> msize + message_header_size \<ge> message_storage_size div 2" using 3(2) half unfolding wanted_def by linarith
    have few: "\<not> length hp > message_storage_size div message_header_size"
    proof -
      have "message_header_size * length hp \<le> message_storage_size" using bytes_used_length [of hp] fits by linarith
      then show ?thesis by (simp add: message_storage_size_def message_header_size_def message_id_size_def allnet_mtu_def)
    qed
    define keep where "keep = map (\<lambda>mh. is_expired_message now (mh_message mh) = Some False) hp"
    have un: "keep_unexpired now hp (bytes_used_for_entry hp) (length hp) =
        Some (keep, bytes_used_for_entry (kept hp keep), length (kept hp keep))"
      using keep_unexpired_run [of hp "bytes_used_for_entry hp" "length hp" now] by (simp add: keep_def)
    have lk: "length keep = length hp" by (simp add: keep_def)
    obtain keep' where keep': "free_lowest hp keep wanted (bytes_used_for_entry (kept hp keep)) (length (kept hp keep)) =
        Some (keep', bytes_used_for_entry (kept hp keep'), length (kept hp keep'))"
      "bytes_used_for_entry (kept hp keep') + wanted \<le> message_storage_size" "gives_up_lowest hp keep keep'"
      "bytes_used_for_entry (kept hp keep) + wanted \<le> message_storage_size \<longrightarrow> keep' = keep"
      using free_lowest_run [OF lk, of wanted] 3(2) by auto
    define hp' where "hp' = map (\<lambda>mh. mh\<lparr>mh_sent_to_tokens := shift_token (mh_sent_to_tokens mh) s\<rparr>) (kept hp keep')"
    obtain b where comp: "compact_messages s hp keep' (blooms st) = (hp', b)"
      using compact_run [of keep' hp s "blooms st"] keep'(3) by (cases "compact_messages s hp keep' (blooms st)") (auto simp: hp'_def gives_up_lowest_def)
    have "gc_messages_entry now i msize s st = Some (bytes_used_for_entry hp', st\<lparr>message_table := (message_table st)[i := hp'], blooms := b\<rparr>)"
      unfolding gc_messages_entry_def Let_def hp_def [symmetric] wanted_def [symmetric]
      using 3 few fits un keep'(1) comp by (simp add: hp'_def)
    moreover have "gc_result now msize s hp hp'"
      using 3 small keep' unfolding gc_result_def keep_def wanted_def
      by (auto simp: hp'_def add.assoc)
    ultimately show ?thesis unfolding hp_def by blast
  qed
qed

section \<open>Freeing acknowledgements\<close>

text \<open>The same table, with some entries no longer in use.\<close>

definition freed :: "hash_ack_entry list \<Rightarrow> hash_ack_entry list \<Rightarrow> bool" where
  "freed = list_all2 (\<lambda>a a'. ack_ack a' = ack_ack a \<and> ack_id a' = ack_id a \<and> (ack_used a' \<longrightarrow> ack_used a))"

lemma freed_refl [simp]: "freed t t"
  by (simp add: freed_def list_all2_refl)

lemma freed_trans: "freed s t \<Longrightarrow> freed t u \<Longrightarrow> freed s u"
  unfolding freed_def by (rule list_all2_trans) auto

lemma freed_length: "freed s t \<Longrightarrow> length t = length s"
  by (simp add: freed_def list_all2_lengthD)

lemma freed_nth: "freed s t \<Longrightarrow> j < length s \<Longrightarrow>
    ack_ack (t ! j) = ack_ack (s ! j) \<and> ack_id (t ! j) = ack_id (s ! j) \<and> (ack_used (t ! j) \<longrightarrow> ack_used (s ! j))"
  by (simp add: freed_def list_all2_conv_all_nth)

lemma freed_update: "j < length t \<Longrightarrow> freed t (t[j := (t ! j)\<lparr>ack_used := False\<rparr>])"
  by (auto simp: freed_def list_all2_conv_all_nth nth_list_update)

definition slot_used :: "hash_ack_entry list \<Rightarrow> nat \<Rightarrow> nat" where
  "slot_used table base = length (filter ack_used (take acks_per_slot (drop base table)))"

lemma freed_count: "freed s t \<Longrightarrow> length (filter ack_used t) \<le> length (filter ack_used s)"
  unfolding freed_def by (induction rule: list_all2_induct) auto

lemma freed_slot: "freed s t \<Longrightarrow> slot_used t base \<le> slot_used s base"
  unfolding slot_used_def by (rule freed_count) (simp add: freed_def list_all2_takeI list_all2_dropI)

lemma filter_update_False:
  "j < length xs \<Longrightarrow> ack_used (xs ! j) \<Longrightarrow> \<not> ack_used a \<Longrightarrow>
     length (filter ack_used (xs[j := a])) = length (filter ack_used xs) - 1 \<and> 0 < length (filter ack_used xs)"
  by (induction xs arbitrary: j) (auto simp: nth_Cons split: nat.splits)

lemma slot_used_update:
  assumes "sel < acks_per_slot" and "base + sel < length table" and "ack_used (table ! (base + sel))" and "\<not> ack_used a"
  shows "slot_used (table[base + sel := a]) base = slot_used table base - 1"
proof -
  have "take acks_per_slot (drop base (table[base + sel := a])) = (take acks_per_slot (drop base table))[sel := a]"
    by (simp add: drop_update_swap take_update_swap)
  then show ?thesis using assms filter_update_False [of sel "take acks_per_slot (drop base table)" a]
    by (simp add: slot_used_def)
qed

definition slots_ok :: "nat list \<Rightarrow> bool" where
  "slots_ok sels \<longleftrightarrow> (\<forall>sel \<in> set sels. sel < acks_per_slot)"

lemma free_random_acks_ok:
  assumes "free_random_acks base (slot_used table base) sels table b = Some (sels', table', b')"
    and "base + acks_per_slot \<le> length table" and "slots_ok sels"
  shows "freed table table' \<and> slot_used table' base \<le> acks_per_slot div 2 \<and> slots_ok sels'"
  using assms
proof (induction sels arbitrary: table b)
  case Nil
  then show ?case by (auto split: if_splits)
next
  case (Cons sel sels)
  let ?a = "table ! (base + sel)"
  have sel: "sel < acks_per_slot" "base + sel < length table" "slots_ok sels" using Cons.prems(2,3) by (simp_all add: slots_ok_def)
  show ?case
  proof (cases "slot_used table base > acks_per_slot div 2 \<and> ack_used ?a")
    case True
    let ?t = "table[base + sel := ?a\<lparr>ack_used := False\<rparr>]"
    have "slot_used ?t base = slot_used table base - 1" using slot_used_update [OF sel(1,2)] True by simp
    then have "freed ?t table' \<and> slot_used table' base \<le> acks_per_slot div 2 \<and> slots_ok sels'"
      using Cons.IH [of ?t] Cons.prems True sel by (simp add: Let_def)
    then show ?thesis using freed_trans [OF freed_update [OF sel(2)]] by blast
  next
    case False
    then show ?thesis using Cons.IH [of table] Cons.prems sel by (auto simp: Let_def split: if_splits)
  qed
qed

text \<open>
  Random numbers that hit every entry again and again: with enough of them the loop ends. A block has
  every position of a slot.
\<close>

fun blocks :: "nat \<Rightarrow> nat list \<Rightarrow> bool" where
  "blocks 0 sels = True"
| "blocks (Suc n) sels = (\<exists>x y. sels = x @ y \<and> {..<acks_per_slot} \<subseteq> set x \<and> blocks n y)"

lemma blocks_prefix: "blocks n y \<Longrightarrow> blocks n (x @ y)"
proof (cases n)
  case (Suc m)
  assume "blocks n y"
  then obtain u v where "y = u @ v" "{..<acks_per_slot} \<subseteq> set u" "blocks m v" by (auto simp: Suc)
  then have "x @ y = (x @ u) @ v \<and> {..<acks_per_slot} \<subseteq> set (x @ u) \<and> blocks m v" by auto
  then show ?thesis unfolding Suc blocks.simps by blast
qed simp

lemma slot_used_zero:
  assumes "\<And>j. j < acks_per_slot \<Longrightarrow> \<not> ack_used (table ! (base + j))" and "base + acks_per_slot \<le> length table"
  shows "slot_used table base = 0"
  using assms by (auto simp: slot_used_def filter_empty_conv in_set_conv_nth)

lemma free_random_acks_returns:
  assumes "base + acks_per_slot \<le> length table" and "slots_ok (x @ y)"
    and "\<And>j. j < acks_per_slot \<Longrightarrow> ack_used (table ! (base + j)) \<Longrightarrow> j \<in> set x"
  shows "\<exists>z table' b'. free_random_acks base (slot_used table base) (x @ y) table b = Some (z @ y, table', b')"
  using assms
proof (induction x arbitrary: table b)
  case Nil
  then have "slot_used table base = 0" by (intro slot_used_zero) auto
  then show ?case by (cases y) auto
next
  case (Cons sel x)
  let ?a = "table ! (base + sel)" and ?t = "table[base + sel := (table ! (base + sel))\<lparr>ack_used := False\<rparr>]"
  have sel: "sel < acks_per_slot" "base + sel < length table" "slots_ok (x @ y)" using Cons.prems(1,2) by (simp_all add: slots_ok_def)
  consider "\<not> slot_used table base > acks_per_slot div 2" | "slot_used table base > acks_per_slot div 2" "ack_used ?a"
    | "slot_used table base > acks_per_slot div 2" "\<not> ack_used ?a" by blast
  then show ?case
  proof cases
    case 1
    then show ?thesis by (intro exI [of _ "sel # x"]) simp
  next
    case 2
    have "slot_used ?t base = slot_used table base - 1" using slot_used_update [OF sel(1,2)] 2 by simp
    moreover have "j \<in> set x" if "j < acks_per_slot" "ack_used (?t ! (base + j))" for j
      using Cons.prems(3) [of j] that sel by (cases "j = sel") auto
    ultimately show ?thesis using Cons.IH [of ?t] Cons.prems(1) sel 2 by (simp add: Let_def)
  next
    case 3
    have "j \<in> set x" if "j < acks_per_slot" "ack_used (table ! (base + j))" for j
      using Cons.prems(3) [of j] that 3(2) by (cases "j = sel") auto
    then show ?thesis using Cons.IH [of table] Cons.prems(1) sel 3 by (simp add: Let_def)
  qed
qed

lemma slot_base_slot [simp]: "slot_base (k * acks_per_slot) = k * acks_per_slot"
  by (simp add: slot_base_def)

lemma freed_shift: "freed t (take base t @ map (\<lambda>a. a\<lparr>ack_sent_to_tokens := f a\<rparr>) (take n (drop base t)) @ drop (base + n) t)"
proof -
  have t: "t = take base t @ take n (drop base t) @ drop (base + n) t"
    by (metis append_take_drop_id drop_drop add.commute)
  have "freed (take base t @ take n (drop base t) @ drop (base + n) t)
      (take base t @ map (\<lambda>a. a\<lparr>ack_sent_to_tokens := f a\<rparr>) (take n (drop base t)) @ drop (base + n) t)"
    unfolding freed_def by (intro list_all2_appendI) (auto simp: list_all2_refl list_all2_conv_all_nth)
  then show ?thesis using t by simp
qed

text \<open>What the collection of the slots does: the state but for the acknowledgements, the filters and the random slots.\<close>

definition acks_gc :: "pcache \<Rightarrow> pcache \<Rightarrow> bool" where
  "acks_gc st st' \<longleftrightarrow> freed (ack_table st) (ack_table st') \<and> slots_ok (random_slots st') \<and>
     (\<exists>t b s. st' = st\<lparr>ack_table := t, blooms := b, random_slots := s\<rparr>)"

lemma acks_gc_trans: "acks_gc s t \<Longrightarrow> acks_gc t u \<Longrightarrow> acks_gc s u"
  unfolding acks_gc_def using freed_trans by fastforce

lemma acks_gc_refl: "slots_ok (random_slots s) \<Longrightarrow> acks_gc s s"
  unfolding acks_gc_def by (auto intro!: exI [of _ "ack_table s"] exI [of _ "blooms s"] exI [of _ "random_slots s"])

lemma gc_ack_slot_ok:
  assumes "gc_ack_slot (k * acks_per_slot) s st = Some st'" and "Suc k * acks_per_slot \<le> length (ack_table st)"
    and "slots_ok (random_slots st)"
  shows "acks_gc st st' \<and> slot_used (ack_table st') (k * acks_per_slot) \<le> acks_per_slot div 2"
proof -
  let ?base = "k * acks_per_slot"
  obtain sels t b where run: "free_random_acks ?base (slot_used (ack_table st) ?base) (random_slots st) (ack_table st) (blooms st) = Some (sels, t, b)"
    and st': "st' = st\<lparr>ack_table := (if s > 0
          then take ?base t @ map (\<lambda>a. a\<lparr>ack_sent_to_tokens := shift_token (ack_sent_to_tokens a) s\<rparr>) (take acks_per_slot (drop ?base t)) @
            drop (?base + acks_per_slot) t
          else t), blooms := b, random_slots := sels\<rparr>"
    using assms(1) unfolding gc_ack_slot_def Let_def slot_base_slot slot_used_def [symmetric]
    by (auto simp: bind_eq_Some_conv)
  from free_random_acks_ok [OF run] assms(2,3)
  have f: "freed (ack_table st) t" "slot_used t ?base \<le> acks_per_slot div 2" "slots_ok sels" by (simp_all add: add.commute)
  have sh: "freed t (ack_table st')" using freed_shift by (simp add: st')
  then have "freed (ack_table st) (ack_table st')" using freed_trans f(1) by blast
  moreover have "slot_used (ack_table st') ?base \<le> acks_per_slot div 2" using freed_slot [OF sh, of ?base] f(2) by linarith
  moreover have "slots_ok (random_slots st')" using f(3) by (simp add: st')
  ultimately show ?thesis unfolding acks_gc_def using st' by blast
qed

lemma gc_ack_slot_returns:
  assumes "Suc k * acks_per_slot \<le> length (ack_table st)" and "slots_ok (random_slots st)" and "blocks (Suc n) (random_slots st)"
  shows "\<exists>st'. gc_ack_slot (k * acks_per_slot) s st = Some st' \<and> blocks n (random_slots st')"
proof -
  obtain x y where xy: "random_slots st = x @ y" "{..<acks_per_slot} \<subseteq> set x" "blocks n y" using assms(3) by auto
  obtain z t b where "free_random_acks (k * acks_per_slot) (slot_used (ack_table st) (k * acks_per_slot)) (x @ y) (ack_table st) (blooms st) = Some (z @ y, t, b)"
    using free_random_acks_returns [of "k * acks_per_slot" "ack_table st" x y "blooms st"] assms(1,2) xy by (auto simp: add.commute)
  then show ?thesis
    using xy blocks_prefix [OF xy(3), of z]
    unfolding gc_ack_slot_def Let_def slot_base_slot slot_used_def [symmetric] by (auto simp: xy(1))
qed

lemma gc_slots_ok:
  assumes "each (\<lambda>slot. gc_ack_slot (slot * acks_per_slot) s) [j..<m] st = Some st'"
    and "m * acks_per_slot \<le> length (ack_table st)" and "slots_ok (random_slots st)" and "j \<le> m"
    and "\<forall>k < j. slot_used (ack_table st) (k * acks_per_slot) \<le> acks_per_slot div 2"
  shows "acks_gc st st' \<and> (\<forall>k < m. slot_used (ack_table st') (k * acks_per_slot) \<le> acks_per_slot div 2)"
  using assms
proof (induction "m - j" arbitrary: j st)
  case 0
  then show ?case using acks_gc_refl by auto
next
  case (Suc d)
  then have jm: "[j..<m] = j # [Suc j..<m]" "j < m" by (simp_all add: upt_conv_Cons)
  obtain t where t: "gc_ack_slot (j * acks_per_slot) s st = Some t"
    and rest: "each (\<lambda>slot. gc_ack_slot (slot * acks_per_slot) s) [Suc j..<m] t = Some st'"
    using Suc.prems(1) jm by (auto simp: bind_eq_Some_conv)
  have "Suc j * acks_per_slot \<le> m * acks_per_slot" using jm(2) by (intro mult_le_mono1) simp
  then have "Suc j * acks_per_slot \<le> length (ack_table st)" using Suc.prems(2) by (rule order.trans)
  from gc_ack_slot_ok [OF t this Suc.prems(3)]
  have g: "acks_gc st t" "slot_used (ack_table t) (j * acks_per_slot) \<le> acks_per_slot div 2" by simp_all
  then have "freed (ack_table st) (ack_table t)" "slots_ok (random_slots t)" by (simp_all add: acks_gc_def)
  moreover have "\<forall>k < Suc j. slot_used (ack_table t) (k * acks_per_slot) \<le> acks_per_slot div 2"
    using g(2) Suc.prems(5) freed_slot [OF \<open>freed (ack_table st) (ack_table t)\<close>] by (metis less_Suc_eq order.trans)
  ultimately have "acks_gc t st' \<and> (\<forall>k < m. slot_used (ack_table st') (k * acks_per_slot) \<le> acks_per_slot div 2)"
    using Suc.hyps(1) [of "Suc j" t] Suc.hyps(2) rest Suc.prems(2) jm(2) freed_length [of "ack_table st" "ack_table t"] by auto
  then show ?case using acks_gc_trans [OF g(1)] by blast
qed

lemma gc_slots_returns:
  assumes "m * acks_per_slot \<le> length (ack_table st)" and "slots_ok (random_slots st)" and "blocks (m - j) (random_slots st)"
  shows "each (\<lambda>slot. gc_ack_slot (slot * acks_per_slot) s) [j..<m] st \<noteq> None"
  using assms
proof (induction "m - j" arbitrary: j st)
  case (Suc d)
  then have jm: "[j..<m] = j # [Suc j..<m]" "j < m" "m - j = Suc (m - Suc j)" by (simp_all add: upt_conv_Cons)
  have "Suc j * acks_per_slot \<le> m * acks_per_slot" using jm(2) by (intro mult_le_mono1) simp
  then have le: "Suc j * acks_per_slot \<le> length (ack_table st)" using Suc.prems(1) by (rule order.trans)
  obtain t where t: "gc_ack_slot (j * acks_per_slot) s st = Some t" "blocks (m - Suc j) (random_slots t)"
    using gc_ack_slot_returns [OF le Suc.prems(2), of "m - Suc j" s] Suc.prems(3) jm(3) by auto
  from gc_ack_slot_ok [OF t(1) le Suc.prems(2)]
  have "acks_gc st t" by simp
  then show ?case
    using Suc.hyps(1) [of "Suc j" t] Suc.hyps(2) Suc.prems(1) jm t freed_length [of "ack_table st" "ack_table t"]
    by (auto simp: acks_gc_def)
qed simp

section \<open>A whole collection\<close>

definition entries_fit :: "pcache \<Rightarrow> bool" where
  "entries_fit st \<longleftrightarrow> (\<forall>hp \<in> set (message_table st). bytes_used_for_entry hp \<le> message_storage_size)"

definition wanted_size :: "nat option \<Rightarrow> nat \<Rightarrow> nat \<Rightarrow> nat" where
  "wanted_size eindex msize i = (if eindex = Some i then msize else 0)"

lemma gc_step_run:
  assumes "bytes_used_for_entry (message_table st ! i) \<le> message_storage_size" and "i < length (message_table st)"
  shows "\<exists>hp' b. gc_step now e msize s i (r, st) =
      Some (if e = Some i then bytes_used_for_entry hp' else r, st\<lparr>message_table := (message_table st)[i := hp'], blooms := b\<rparr>) \<and>
    gc_result now (wanted_size e msize i) s (message_table st ! i) hp'"
proof -
  obtain hp' b where run: "gc_messages_entry now i (wanted_size e msize i) s st =
      Some (bytes_used_for_entry hp', st\<lparr>message_table := (message_table st)[i := hp'], blooms := b\<rparr>)"
    and res: "gc_result now (wanted_size e msize i) s (message_table st ! i) hp'"
    using gc_messages_entry_run [OF assms] by blast
  have "gc_step now e msize s i (r, st) =
      Some (if e = Some i then bytes_used_for_entry hp' else r, st\<lparr>message_table := (message_table st)[i := hp'], blooms := b\<rparr>)"
    using run by (cases "e = Some i") (simp_all add: gc_step_def wanted_size_def)
  then show ?thesis using res by blast
qed

lemma gc_entries_run:
  assumes "\<forall>i. j \<le> i \<and> i < m \<longrightarrow> bytes_used_for_entry (message_table st ! i) \<le> message_storage_size" and "m \<le> length (message_table st)" and "j \<le> m"
  shows "\<exists>r' t b. each (gc_step now e msize s) [j..<m] (r, st) = Some (r', st\<lparr>message_table := t, blooms := b\<rparr>) \<and>
    length t = length (message_table st) \<and>
    (\<forall>i. j \<le> i \<and> i < m \<longrightarrow> gc_result now (wanted_size e msize i) s (message_table st ! i) (t ! i)) \<and>
    (\<forall>i. i < j \<or> m \<le> i \<longrightarrow> t ! i = message_table st ! i) \<and>
    (if \<exists>i. e = Some i \<and> j \<le> i \<and> i < m then r' = bytes_used_for_entry (t ! the e) else r' = r)"
  using assms
proof (induction "m - j" arbitrary: j r st)
  case 0
  then show ?case
    by (intro exI [of _ r] exI [of _ "message_table st"] exI [of _ "blooms st"]) auto
next
  case (Suc d)
  then have jm: "[j..<m] = j # [Suc j..<m]" "j < m" by (simp_all add: upt_conv_Cons)
  then have jl: "j < length (message_table st)" "bytes_used_for_entry (message_table st ! j) \<le> message_storage_size"
    using Suc.prems by auto
  obtain hp' b where step: "gc_step now e msize s j (r, st) =
      Some (if e = Some j then bytes_used_for_entry hp' else r, st\<lparr>message_table := (message_table st)[j := hp'], blooms := b\<rparr>)"
    and res: "gc_result now (wanted_size e msize j) s (message_table st ! j) hp'"
    using gc_step_run [OF jl(2,1), of now e msize s r] by blast
  let ?st = "st\<lparr>message_table := (message_table st)[j := hp'], blooms := b\<rparr>"
  let ?r = "if e = Some j then bytes_used_for_entry hp' else r"
  have d: "d = m - Suc j" "m \<le> length (message_table ?st)" "Suc j \<le> m" using Suc.hyps(2) Suc.prems(2) jm(2) by auto
  have "\<forall>i. Suc j \<le> i \<and> i < m \<longrightarrow> bytes_used_for_entry (message_table ?st ! i) \<le> message_storage_size"
    using Suc.prems(1) by auto
  from Suc.hyps(1) [OF d(1) this d(2,3), of ?r]
  obtain r' t b' where rest: "each (gc_step now e msize s) [Suc j..<m] (?r, ?st) = Some (r', ?st\<lparr>message_table := t, blooms := b'\<rparr>)"
    "length t = length (message_table ?st)"
    "\<forall>i. Suc j \<le> i \<and> i < m \<longrightarrow> gc_result now (wanted_size e msize i) s (message_table ?st ! i) (t ! i)"
    "\<forall>i. i < Suc j \<or> m \<le> i \<longrightarrow> t ! i = message_table ?st ! i"
    "if \<exists>i. e = Some i \<and> Suc j \<le> i \<and> i < m then r' = bytes_used_for_entry (t ! the e) else r' = ?r"
    by (elim exE conjE) (rule that, (simp | assumption)+)
  have tj: "t ! j = hp'" using rest(4) jl(1) by simp
  have all: "gc_result now (wanted_size e msize i) s (message_table st ! i) (t ! i)" if "j \<le> i" "i < m" for i
  proof (cases "i = j")
    case True
    then show ?thesis using res tj by simp
  next
    case False
    then show ?thesis using rest(3) that by (auto simp: nth_list_update)
  qed
  have run: "each (gc_step now e msize s) [j..<m] (r, st) = Some (r', st\<lparr>message_table := t, blooms := b'\<rparr>)"
    using rest(1) by (simp add: jm(1) step)
  have off: "if \<exists>i. e = Some i \<and> j \<le> i \<and> i < m then r' = bytes_used_for_entry (t ! the e) else r' = r"
    using rest(5) tj jm(2) by (cases e) (auto simp: Suc_le_eq le_less split: if_splits)
  have others: "t ! i = message_table st ! i" if "i < j \<or> m \<le> i" for i
    using rest(4) that jm(2) by (auto simp: nth_list_update)
  show ?case using run rest(2) all off others by auto
qed

definition tokens_ok :: "pcache \<Rightarrow> bool" where
  "tokens_ok st \<longleftrightarrow> num_external_tokens st \<le> max_tokens \<and> length (token_list st) = max_tokens \<and>
     distinct (take (num_external_tokens st) (token_list st))"

definition acks_fit :: "pcache \<Rightarrow> bool" where
  "acks_fit st \<longleftrightarrow> length (ack_table st) mod acks_per_slot = 0"

text \<open>The result of a collection.\<close>

definition gc_done :: "int \<Rightarrow> nat option \<Rightarrow> nat \<Rightarrow> pcache \<Rightarrow> nat \<Rightarrow> pcache \<Rightarrow> bool" where
  "gc_done now e msize st off st' \<longleftrightarrow>
     length (message_table st') = length (message_table st) \<and>
     (\<forall>i < length (message_table st).
        gc_result now (wanted_size e msize i) (fst (gc_tokens st)) (message_table st ! i) (message_table st' ! i)) \<and>
     (\<forall>i < length (message_table st). e = Some i \<longrightarrow> off = bytes_used_for_entry (message_table st' ! i)) \<and>
     freed (ack_table st) (ack_table st') \<and> slots_ok (random_slots st') \<and>
     (\<forall>k < length (ack_table st) div acks_per_slot. slot_used (ack_table st') (k * acks_per_slot) \<le> acks_per_slot div 2) \<and>
     token_list st' = token_list (snd (gc_tokens st)) \<and> num_external_tokens st' = num_external_tokens (snd (gc_tokens st)) \<and>
     last_gc st' = last_gc st"

lemma gc_tokens_frame: "\<exists>l n. snd (gc_tokens st) = st\<lparr>token_list := l, num_external_tokens := n\<rparr>"
proof (cases "num_external_tokens st < max_tokens")
  case True
  then show ?thesis
    by (intro exI [of _ "token_list st"] exI [of _ "num_external_tokens st"]) (simp add: gc_tokens_def)
qed (auto simp: gc_tokens_def Let_def)

lemma do_gc_done:
  assumes run: "do_gc now e msize st = Some (off, st')" and fit: "entries_fit st" "slots_ok (random_slots st)"
  shows "gc_done now e msize st off st'"
proof -
  define s where "s = fst (gc_tokens st)"
  define st1 where "st1 = snd (gc_tokens st)"
  obtain l n where frame: "st1 = st\<lparr>token_list := l, num_external_tokens := n\<rparr>" using gc_tokens_frame st1_def by blast
  have tok: "gc_tokens st = (s, st1)" by (simp add: s_def st1_def)
  define slots where "slots = length (ack_table st) div acks_per_slot"
  obtain st2 st3 st4 where st2: "each (\<lambda>slot. gc_ack_slot (slot * acks_per_slot) s) [0..<slots] st1 = Some st2"
    and st3: "each (gc_step now e msize s) [0..<length (message_table st2)] (0, st2) = Some (off, st3)"
    and st4: "reinit_local_token st3 = Some st4"
    and st': "st' = st4\<lparr>blooms := pid_save_bloom (pid_advance_bloom (blooms st4))\<rparr>"
    using run unfolding do_gc_def tok by (auto simp: bind_eq_Some_conv frame slots_def)
  have "slots * acks_per_slot \<le> length (ack_table st1)" by (simp add: frame slots_def)
  from gc_slots_ok [OF st2 this] fit(2)
  have a: "acks_gc st1 st2" "\<forall>k < slots. slot_used (ack_table st2) (k * acks_per_slot) \<le> acks_per_slot div 2"
    by (simp_all add: frame)
  then have m2: "message_table st2 = message_table st" "num_external_tokens st2 = n" "token_list st2 = l" "last_gc st2 = last_gc st"
    and a2: "freed (ack_table st) (ack_table st2)" "slots_ok (random_slots st2)"
    by (auto simp: acks_gc_def frame)
  have "\<forall>i. 0 \<le> i \<and> i < length (message_table st2) \<longrightarrow> bytes_used_for_entry (message_table st2 ! i) \<le> message_storage_size"
    using fit(1) by (auto simp: entries_fit_def m2)
  from gc_entries_run [OF this, of now e msize s 0] st3
  obtain t b where e3: "st3 = st2\<lparr>message_table := t, blooms := b\<rparr>" "length t = length (message_table st)"
    "\<forall>i < length (message_table st). gc_result now (wanted_size e msize i) s (message_table st ! i) (t ! i)"
    "if \<exists>i. e = Some i \<and> i < length (message_table st) then off = bytes_used_for_entry (t ! the e) else off = 0"
    by (auto simp: m2)
  have st4f: "\<exists>x y. st4 = st3\<lparr>local_token := x, random_tokens := y\<rparr>"
    using st4 by (auto simp: reinit_local_token_def split: list.splits)
  show ?thesis
    unfolding gc_done_def s_def [symmetric] st1_def [symmetric] slots_def [symmetric]
    using st' st4f e3 m2 a(2) a2 by (auto simp: frame)
qed

lemma do_gc_returns:
  assumes "entries_fit st" and "slots_ok (random_slots st)" and "blocks (length (ack_table st) div acks_per_slot) (random_slots st)"
    and "random_tokens st \<noteq> []"
  shows "\<exists>off st'. do_gc now e msize st = Some (off, st') \<and> random_tokens st' = tl (random_tokens st)"
proof -
  define s where "s = fst (gc_tokens st)"
  define st1 where "st1 = snd (gc_tokens st)"
  obtain l n where frame: "st1 = st\<lparr>token_list := l, num_external_tokens := n\<rparr>" using gc_tokens_frame st1_def by blast
  have tok: "gc_tokens st = (s, st1)" by (simp add: s_def st1_def)
  define slots where "slots = length (ack_table st) div acks_per_slot"
  have le: "slots * acks_per_slot \<le> length (ack_table st1)" by (simp add: frame slots_def)
  obtain st2 where st2: "each (\<lambda>slot. gc_ack_slot (slot * acks_per_slot) s) [0..<slots] st1 = Some st2"
    using gc_slots_returns [OF le, of 0 s] assms(2,3) by (auto simp: frame slots_def)
  from gc_slots_ok [OF st2 le] assms(2) have "acks_gc st1 st2" by (simp add: frame)
  then have m2: "message_table st2 = message_table st" "random_tokens st2 = random_tokens st" by (auto simp: acks_gc_def frame)
  have "\<forall>i. 0 \<le> i \<and> i < length (message_table st2) \<longrightarrow> bytes_used_for_entry (message_table st2 ! i) \<le> message_storage_size"
    using assms(1) by (auto simp: entries_fit_def m2)
  from gc_entries_run [OF this, of now e msize s 0]
  obtain r t b where "each (gc_step now e msize s) [0..<length (message_table st2)] (0, st2) = Some (r, st2\<lparr>message_table := t, blooms := b\<rparr>)"
    by auto
  then show ?thesis using st2 assms(4) m2(2)
    unfolding do_gc_def tok by (auto simp: frame slots_def reinit_local_token_def split: list.splits)
qed

end
