(* ===== verification/CacheInv.thy ===== *)
theory CacheInv
  imports CacheGc
begin

text \<open>
  The invariant of the tables of \<open>PacketCache\<close>, and that every operation keeps it.
\<close>

section \<open>The invariant\<close>

text \<open>
  Every entry fits its storage and has the messages of its index, each once; every acknowledgement in use
  is in the slot of the identifier that is its hash, once; and the tokens are distinct.
\<close>

definition id_number :: "u8 list \<Rightarrow> nat" where
  "id_number pid = unat (readb64 (Some pid))"

definition entry_ok :: "nat \<Rightarrow> nat \<Rightarrow> message_header list \<Rightarrow> bool" where
  "entry_ok n i hp \<longleftrightarrow> bytes_used_for_entry hp \<le> message_storage_size \<and> distinct (map mh_id hp) \<and>
     (\<forall>mh \<in> set hp. id_number (mh_id mh) mod n = i)"

definition messages_ok :: "message_header list list \<Rightarrow> bool" where
  "messages_ok t \<longleftrightarrow> t \<noteq> [] \<and> (\<forall>i < length t. entry_ok (length t) i (t ! i))"

definition acks_ok :: "hash_ack_entry list \<Rightarrow> bool" where
  "acks_ok t \<longleftrightarrow> t \<noteq> [] \<and> length t mod acks_per_slot = 0 \<and>
     (\<forall>j < length t. ack_used (t ! j) \<longrightarrow>
        slot_base j = slot_base (id_number (ack_id (t ! j)) mod length t) \<and> id_of_ack (ack_ack (t ! j)) = Some (ack_id (t ! j))) \<and>
     (\<forall>j < length t. \<forall>k < length t. ack_used (t ! j) \<and> ack_used (t ! k) \<and> ack_id (t ! j) = ack_id (t ! k) \<longrightarrow> j = k)"

definition cache_ok :: "pcache \<Rightarrow> bool" where
  "cache_ok st \<longleftrightarrow> messages_ok (message_table st) \<and> acks_ok (ack_table st) \<and> tokens_ok st \<and> slots_ok (random_slots st)"

lemma cache_ok_blooms [simp]: "cache_ok (st\<lparr>blooms := b\<rparr>) = cache_ok st"
  by (simp add: cache_ok_def tokens_ok_def)

lemma in_bloom_frame: "\<exists>f b. in_bloom pid sel st = (f, st\<lparr>blooms := b\<rparr>)"
  by (auto simp: in_bloom_def case_prod_beta)

lemma entry_index_number: "entry_index pid st = id_number pid mod length (message_table st)"
  "ack_index pid st = id_number pid mod length (ack_table st)"
  by (simp_all add: entry_index_def ack_index_def id_number_def)

lemma gc_result_ids:
  assumes "gc_result now msize s hp hp'"
  shows "mh_id ` set hp' \<subseteq> mh_id ` set hp" and "distinct (map mh_id hp) \<Longrightarrow> distinct (map mh_id hp')"
    and "bytes_used_for_entry hp' + msize + message_header_size \<le> message_storage_size \<or> hp' = []"
proof -
  have cases: "hp' = [] \<or> (\<exists>keep'. hp' = map (\<lambda>mh. mh\<lparr>mh_sent_to_tokens := shift_token (mh_sent_to_tokens mh) s\<rparr>) (kept hp keep') \<and>
      bytes_used_for_entry hp' + message_storage_size div 2 + msize + message_header_size \<le> message_storage_size)"
    using assms unfolding gc_result_def by (auto split: if_splits)
  then show "mh_id ` set hp' \<subseteq> mh_id ` set hp" using kept_subset by fastforce
  show "distinct (map mh_id hp) \<Longrightarrow> distinct (map mh_id hp')"
    using cases kept_distinct [of mh_id hp] by (auto simp: comp_def)
  show "bytes_used_for_entry hp' + msize + message_header_size \<le> message_storage_size \<or> hp' = []"
    using cases by auto
qed

lemma entry_ok_gc: "gc_result now msize s hp hp' \<Longrightarrow> entry_ok n i hp \<Longrightarrow> entry_ok n i hp'"
  using gc_result_ids [of now msize s hp hp'] unfolding entry_ok_def by fastforce

lemma acks_ok_freed:
  assumes "acks_ok t" and f: "freed t t'"
  shows "acks_ok t'"
proof -
  have len: "length t' = length t" using freed_length [OF f] .
  note nth = freed_nth [OF f]
  have "t' \<noteq> []" using assms(1) len by (auto simp: acks_ok_def)
  moreover have "\<forall>j < length t'. ack_used (t' ! j) \<longrightarrow>
      slot_base j = slot_base (id_number (ack_id (t' ! j)) mod length t') \<and> id_of_ack (ack_ack (t' ! j)) = Some (ack_id (t' ! j))"
    using assms(1) nth unfolding acks_ok_def len by metis
  moreover have "\<forall>j < length t'. \<forall>k < length t'. ack_used (t' ! j) \<and> ack_used (t' ! k) \<and> ack_id (t' ! j) = ack_id (t' ! k) \<longrightarrow> j = k"
    using assms(1) nth unfolding acks_ok_def len by metis
  ultimately show ?thesis using assms(1) len by (simp add: acks_ok_def)
qed

lemma gc_tokens_ok:
  assumes "tokens_ok st"
  shows "tokens_ok (snd (gc_tokens st))" and "num_external_tokens (snd (gc_tokens st)) < max_tokens"
    and "set (take (num_external_tokens (snd (gc_tokens st))) (token_list (snd (gc_tokens st)))) \<subseteq> set (take (num_external_tokens st) (token_list st))"
proof -
  have "tokens_ok (snd (gc_tokens st)) \<and> num_external_tokens (snd (gc_tokens st)) < max_tokens \<and>
      set (take (num_external_tokens (snd (gc_tokens st))) (token_list (snd (gc_tokens st)))) \<subseteq> set (take (num_external_tokens st) (token_list st))"
  proof (cases "num_external_tokens st < max_tokens")
    case True
    then show ?thesis using assms by (simp add: gc_tokens_def)
  next
    case False
    then have "num_external_tokens st = 64" "length (token_list st) = 64" "distinct (token_list st)"
      using assms by (auto simp: tokens_ok_def max_tokens_def)
    then show ?thesis
      by (auto simp: gc_tokens_def tokens_ok_def Let_def max_tokens_def dest: in_set_takeD in_set_dropD)
  qed
  then show "tokens_ok (snd (gc_tokens st))" and "num_external_tokens (snd (gc_tokens st)) < max_tokens"
    and "set (take (num_external_tokens (snd (gc_tokens st))) (token_list (snd (gc_tokens st)))) \<subseteq> set (take (num_external_tokens st) (token_list st))"
    by blast+
qed

lemma entries_fit: "cache_ok st \<Longrightarrow> entries_fit st"
  by (auto simp: cache_ok_def messages_ok_def entries_fit_def entry_ok_def in_set_conv_nth)

lemma gc_done_ok:
  assumes ok: "cache_ok st" and g: "gc_done now e msize st off st'"
  shows "cache_ok st'" and "num_external_tokens st' < max_tokens"
proof -
  note g = g [unfolded gc_done_def]
  have m: "messages_ok (message_table st')"
    unfolding messages_ok_def
  proof (intro conjI allI impI)
    show "message_table st' \<noteq> []" using ok g by (auto simp: cache_ok_def messages_ok_def)
    fix i assume "i < length (message_table st')"
    then have i: "i < length (message_table st)" using g by simp
    then have "entry_ok (length (message_table st)) i (message_table st ! i)" using ok by (simp add: cache_ok_def messages_ok_def)
    then show "entry_ok (length (message_table st')) i (message_table st' ! i)"
      using g i entry_ok_gc by metis
  qed
  have "tokens_ok st'" "num_external_tokens st' < max_tokens"
    using gc_tokens_ok [of st] ok g by (auto simp: cache_ok_def tokens_ok_def)
  then show "cache_ok st'" and "num_external_tokens st' < max_tokens"
    using m g acks_ok_freed ok by (auto simp: cache_ok_def)
qed

lemma do_gc_ok:
  assumes "do_gc now e msize st = Some (off, st')" and "cache_ok st"
  shows "gc_done now e msize st off st'" "cache_ok st'" "num_external_tokens st' < max_tokens"
proof -
  show g: "gc_done now e msize st off st'"
    using do_gc_done [OF assms(1) entries_fit [OF assms(2)]] assms(2) by (simp add: cache_ok_def)
  show "cache_ok st'" "num_external_tokens st' < max_tokens" using gc_done_ok [OF assms(2) g] by simp_all
qed

section \<open>The operations keep the invariant\<close>

lemma messages_ok_update: "messages_ok t \<Longrightarrow> entry_ok (length t) i hp \<Longrightarrow> messages_ok (t[i := hp])"
proof -
  assume t: "messages_ok t" and hp: "entry_ok (length t) i hp"
  have "entry_ok (length t) k (t[i := hp] ! k)" if "k < length t" for k
    using t hp that by (cases "k = i") (simp_all add: messages_ok_def)
  then show ?thesis using t by (simp add: messages_ok_def)
qed

lemma index_less:
  assumes "cache_ok st"
  shows "entry_index pid st < length (message_table st)" "ack_index pid st < length (ack_table st)"
    "entry_ok (length (message_table st)) (entry_index pid st) (message_table st ! entry_index pid st)"
proof -
  have l: "length (message_table st) > 0" "length (ack_table st) > 0"
    using assms by (auto simp: cache_ok_def messages_ok_def acks_ok_def)
  then show i: "entry_index pid st < length (message_table st)" "ack_index pid st < length (ack_table st)"
    by (simp_all add: entry_index_def ack_index_def)
  then show "entry_ok (length (message_table st)) (entry_index pid st) (message_table st ! entry_index pid st)"
    using assms by (simp add: cache_ok_def messages_ok_def)
qed

lemma message_position_Some: "message_position pid hp = Some i \<Longrightarrow> i < length hp \<and> mh_id (hp ! i) = pid"
  by (auto simp: message_position_def find_Some_iff)

lemma message_position_None: "message_position pid hp = None \<longleftrightarrow> pid \<notin> mh_id ` set hp"
  unfolding message_position_def find_None_iff by (auto simp: in_set_conv_nth) (metis imageI nth_mem)

lemma delete_entry:
  assumes "i < length hp"
  shows "set (delete_message_entry i hp) \<subseteq> set hp" "bytes_used_for_entry (delete_message_entry i hp) \<le> bytes_used_for_entry hp"
    "distinct (map mh_id hp) \<Longrightarrow> distinct (map mh_id (delete_message_entry i hp))"
    "distinct (map mh_id hp) \<Longrightarrow> mh_id (hp ! i) \<notin> mh_id ` set (delete_message_entry i hp)"
proof -
  have hp: "hp = take i hp @ hp ! i # drop (Suc i) hp" using assms by (rule id_take_nth_drop)
  show "set (delete_message_entry i hp) \<subseteq> set hp"
    by (auto simp: delete_message_entry_def dest: in_set_takeD in_set_dropD)
  have "bytes_used_for_entry hp = bytes_used_for_entry (take i hp @ hp ! i # drop (Suc i) hp)" using hp by simp
  then show "bytes_used_for_entry (delete_message_entry i hp) \<le> bytes_used_for_entry hp"
    by (simp add: delete_message_entry_def del: append_take_drop_id)
  assume "distinct (map mh_id hp)"
  then have "distinct (map mh_id (take i hp @ hp ! i # drop (Suc i) hp))" using hp by simp
  then show "distinct (map mh_id (delete_message_entry i hp))" "mh_id (hp ! i) \<notin> mh_id ` set (delete_message_entry i hp)"
    by (auto simp: delete_message_entry_def simp del: append_take_drop_id)
qed

lemma found_delete_ok:
  assumes "cache_ok st"
  shows "cache_ok (snd (pcache_id_found_delete pid delete st))"
proof -
  let ?i = "entry_index pid st" and ?hp = "message_table st ! entry_index pid st"
  note ix = index_less [OF assms, of pid]
  show ?thesis
  proof (cases "message_position pid ?hp")
    case (Some j)
    then have j: "j < length ?hp" using message_position_Some by blast
    have "entry_ok (length (message_table st)) ?i (delete_message_entry j ?hp)"
      using ix(3) delete_entry [OF j] unfolding entry_ok_def by (meson order.trans subsetD)
    then have "messages_ok ((message_table st)[?i := delete_message_entry j ?hp])"
      using assms by (intro messages_ok_update) (auto simp: cache_ok_def)
    then show ?thesis using assms Some
      by (simp add: pcache_id_found_delete_def Let_def cache_ok_def tokens_ok_def)
  qed (use assms in \<open>simp add: pcache_id_found_delete_def\<close>)
qed

lemma found_frame: "\<exists>f b. pcache_id_found pid st = (f, st\<lparr>blooms := b\<rparr>) \<and>
    (\<not> f \<longrightarrow> pid \<notin> mh_id ` set (message_table st ! entry_index pid st))"
proof -
  obtain f b where b: "in_bloom pid pid_message_filter st = (f, st\<lparr>blooms := b\<rparr>)" using in_bloom_frame by blast
  let ?st = "st\<lparr>blooms := b\<rparr>"
  have "fst (pcache_id_found_delete pid False ?st) = message_position pid (message_table st ! entry_index pid st)"
    by (simp add: pcache_id_found_delete_def entry_index_def Let_def split: option.splits)
  then show ?thesis using b message_position_None [of pid "message_table st ! entry_index pid st"]
    by (auto simp: pcache_id_found_def)
qed

lemma entry_ok_append:
  assumes "entry_ok n i hp" "mh_id mh \<notin> mh_id ` set hp" "id_number (mh_id mh) mod n = i"
    "bytes_used_for_entry hp + message_header_size + mh_length mh \<le> message_storage_size"
  shows "entry_ok n i (hp @ [mh])"
  using assms by (auto simp: entry_ok_def)

lemma gc_done_entry:
  assumes "gc_done now (Some i) msize st off st'" and "i < length (message_table st)"
  shows "length (message_table st') = length (message_table st)" "off = bytes_used_for_entry (message_table st' ! i)"
    "gc_result now msize (fst (gc_tokens st)) (message_table st ! i) (message_table st' ! i)"
proof -
  note g = assms(1) [unfolded gc_done_def]
  show "length (message_table st') = length (message_table st)" "off = bytes_used_for_entry (message_table st' ! i)"
    using g assms(2) by blast+
  have "gc_result now (wanted_size (Some i) msize i) (fst (gc_tokens st)) (message_table st ! i) (message_table st' ! i)"
    using g assms(2) by blast
  then show "gc_result now msize (fst (gc_tokens st)) (message_table st ! i) (message_table st' ! i)" by (simp add: wanted_size_def)
qed

lemma save_packet_ok:
  assumes run: "pcache_save_packet now message priority st = Some st'" and ok: "cache_ok st"
  shows "cache_ok st'"
proof -
  obtain pid where "pcache_message_id message = Some pid" using run by (cases "pcache_message_id message") (simp_all add: pcache_save_packet_def)
  moreover obtain f b where f: "\<And>p. pid = Some p \<Longrightarrow> pcache_id_found p st = (f, st\<lparr>blooms := b\<rparr>) \<and>
      (\<not> f \<longrightarrow> p \<notin> mh_id ` set (message_table st ! entry_index p st))"
    using found_frame by (cases pid) fastforce+
  ultimately consider "st' = st" | p where "pid = Some p" "pcache_message_id message = Some (Some p)" "st' = st\<lparr>blooms := b\<rparr>"
    | p where "pid = Some p" "pcache_message_id message = Some (Some p)" "\<not> f"
    using run by (cases pid; cases f) (auto simp: pcache_save_packet_def)
  then show ?thesis
  proof cases
    case (3 p)
    define st1 where "st1 = st\<lparr>blooms := b\<rparr>"
    have ok1: "cache_ok st1" using ok by (simp add: st1_def)
    define i where "i = entry_index p st1"
    note ix = index_less [OF ok1, of p, folded i_def]
    have new: "p \<notin> mh_id ` set (message_table st1 ! i)" using f 3 by (simp add: st1_def i_def entry_index_def)
    define m where "m = \<lparr>mh_id = p, mh_priority = of_int priority, mh_sent_to_tokens = 0, mh_message = message\<rparr>"
    obtain off st2 where st2: "(if bytes_used_for_entry (message_table st1 ! i) + message_header_size + length message > message_storage_size
          then do_gc now (Some i) (length message) st1 else Some (bytes_used_for_entry (message_table st1 ! i), st1)) = Some (off, st2)"
      and fit: "off + message_header_size + length message \<le> message_storage_size" "off = bytes_used_for_entry (message_table st2 ! i)"
      and st': "st' = st2\<lparr>message_table := (message_table st2)[i := message_table st2 ! i @ [m]]\<rparr>"
      using run f 3 unfolding pcache_save_packet_def m_def
      by (auto simp: st1_def [symmetric] i_def [symmetric] Let_def bind_eq_Some_conv split: if_splits)
    have s2: "cache_ok st2 \<and> length (message_table st2) = length (message_table st1) \<and> mh_id ` set (message_table st2 ! i) \<subseteq> mh_id ` set (message_table st1 ! i)"
    proof (cases "bytes_used_for_entry (message_table st1 ! i) + message_header_size + length message > message_storage_size")
      case True
      then have gc: "do_gc now (Some i) (length message) st1 = Some (off, st2)" using st2 by simp
      show ?thesis using do_gc_ok [OF gc ok1] gc_done_entry [OF _ ix(1)] gc_result_ids(1) by blast
    next
      case False
      then show ?thesis using st2 ok1 by simp
    qed
    then have e2: "entry_ok (length (message_table st2)) i (message_table st2 ! i)"
      using ix(1) unfolding cache_ok_def messages_ok_def by metis
    have "id_number p mod length (message_table st2) = i" using s2 by (simp add: i_def entry_index_number)
    then have "entry_ok (length (message_table st2)) i (message_table st2 ! i @ [m])"
      using entry_ok_append [OF e2, of m] new s2 fit by (auto simp: m_def mh_length_def)
    then have "messages_ok ((message_table st2)[i := message_table st2 ! i @ [m]])"
      using s2 by (intro messages_ok_update) (auto simp: cache_ok_def)
    then show ?thesis using s2 by (simp add: st' cache_ok_def tokens_ok_def)
  qed (use ok in auto)
qed

lemma find_Some_upt: "find P [a..<b] = Some i \<Longrightarrow> a \<le> i \<and> i < b \<and> P i"
  by (auto simp: find_Some_iff)

lemma find_None_upt: "find P [a..<b] = None \<longleftrightarrow> (\<forall>i. a \<le> i \<and> i < b \<longrightarrow> \<not> P i)"
  by (auto simp: find_None_iff)

lemma slot_base_bounds: "slot_base j \<le> j" "j < slot_base j + acks_per_slot"
  by (simp_all add: slot_base_def acks_per_slot_def)

lemma slot_base_same: "slot_base j \<le> i \<Longrightarrow> i < slot_base j + acks_per_slot \<Longrightarrow> slot_base i = slot_base j"
proof -
  assume b: "slot_base j \<le> i" "i < slot_base j + acks_per_slot"
  have s: "slot_base k = acks_per_slot * (k div acks_per_slot)" for k
    unfolding slot_base_def by (simp only: minus_mod_eq_mult_div)
  have "i div acks_per_slot = j div acks_per_slot"
    by (rule div_nat_eqI) (use b in \<open>simp_all add: s\<close>)
  then show ?thesis by (simp only: s)
qed

lemma slot_inside:
  assumes "length t mod acks_per_slot = 0" and "j < length t"
  shows "slot_base j + acks_per_slot \<le> length t" and "\<exists>k. slot_base j = k * acks_per_slot \<and> k < length t div acks_per_slot"
proof -
  have "slot_base j = j div acks_per_slot * acks_per_slot" by (simp add: slot_base_def minus_mod_eq_div_mult)
  moreover have l: "length t = length t div acks_per_slot * acks_per_slot" using assms(1) by auto
  moreover have "j div acks_per_slot < length t div acks_per_slot"
    using assms(2) l by (metis div_less_iff_less_mult acks_per_slot_def zero_less_numeral)
  ultimately show "\<exists>k. slot_base j = k * acks_per_slot \<and> k < length t div acks_per_slot" by blast
  then obtain k where k: "slot_base j = k * acks_per_slot" "k < length t div acks_per_slot" by blast
  then have "(k + 1) * acks_per_slot \<le> length t div acks_per_slot * acks_per_slot" by (intro mult_le_mono1) simp
  then show "slot_base j + acks_per_slot \<le> length t" using k l by simp
qed

lemma cache_index_slot:
  assumes "cache_ok st"
  shows "slot_base (ack_index pid st) + acks_per_slot \<le> length (ack_table st)"
    and "\<exists>k. slot_base (ack_index pid st) = k * acks_per_slot \<and> k < length (ack_table st) div acks_per_slot"
  using slot_inside [of "ack_table st" "ack_index pid st"] index_less(2) [OF assms] assms by (simp_all add: cache_ok_def acks_ok_def)

lemma find_one_ack_Some:
  assumes "find_one_ack pid st = Some j" and "cache_ok st"
  shows "j < length (ack_table st)" "ack_used (ack_table st ! j)" "ack_id (ack_table st ! j) = pid"
  using assms(1) cache_index_slot(1) [OF assms(2), of pid] find_Some_upt unfolding find_one_ack_def Let_def by (auto dest!: find_Some_upt)

lemma find_one_ack_None:
  assumes "find_one_ack pid st = None" and ok: "cache_ok st" and j: "j < length (ack_table st)" "ack_used (ack_table st ! j)"
  shows "ack_id (ack_table st ! j) \<noteq> pid"
proof
  assume "ack_id (ack_table st ! j) = pid"
  then have "slot_base j = slot_base (ack_index pid st)"
    using ok j by (auto simp: cache_ok_def acks_ok_def entry_index_number)
  then show False using assms(1) j \<open>ack_id (ack_table st ! j) = pid\<close> slot_base_bounds [of j]
    unfolding find_one_ack_def Let_def find_None_upt by auto
qed

lemma acks_ok_set:
  assumes t: "acks_ok t" and j: "j < length t" and same: "slot_base j = slot_base (id_number (ack_id a) mod length t)"
    and hash: "id_of_ack (ack_ack a) = Some (ack_id a)"
    and new: "\<forall>k < length t. k \<noteq> j \<and> ack_used (t ! k) \<longrightarrow> ack_id (t ! k) \<noteq> ack_id a"
  shows "acks_ok (t[j := a])"
proof -
  have n: "t[j := a] ! k = (if k = j then a else t ! k)" if "k < length t" for k using that j by (simp add: nth_list_update)
  have "t \<noteq> []" "length t mod acks_per_slot = 0" using t by (simp_all add: acks_ok_def)
  moreover have "slot_base k = slot_base (id_number (ack_id (t[j := a] ! k)) mod length t) \<and> id_of_ack (ack_ack (t[j := a] ! k)) = Some (ack_id (t[j := a] ! k))"
    if "k < length t" "ack_used (t[j := a] ! k)" for k
    using that t same hash by (auto simp: n acks_ok_def split: if_splits)
  moreover have "k = l" if "k < length t" "l < length t" "ack_used (t[j := a] ! k)" "ack_used (t[j := a] ! l)"
      "ack_id (t[j := a] ! k) = ack_id (t[j := a] ! l)" for k l
  proof -
    note k = that(3-5) [unfolded n [OF that(1)] n [OF that(2)]]
    consider "k = j" | "l = j" | "k \<noteq> j" "l \<noteq> j" by blast
    then show ?thesis
    proof cases
      case 1
      then show ?thesis using k new that by (auto split: if_splits)
    next
      case 2
      then show ?thesis using k new that by (auto split: if_splits)
    next
      case 3
      then show ?thesis using k t that unfolding acks_ok_def by (simp only: if_False)
    qed
  qed
  ultimately show ?thesis by (simp add: acks_ok_def)
qed

lemma acks_ok_same:
  assumes t: "acks_ok t" and j: "j < length t" and "ack_id a = ack_id (t ! j)" "ack_ack a = ack_ack (t ! j)" "ack_used a = ack_used (t ! j)"
  shows "acks_ok (t[j := a])"
proof -
  have n: "ack_id (t[j := a] ! k) = ack_id (t ! k)" "ack_ack (t[j := a] ! k) = ack_ack (t ! k)" "ack_used (t[j := a] ! k) = ack_used (t ! k)"
    if "k < length t" for k using that assms by (simp_all add: nth_list_update)
  have "t[j := a] \<noteq> []" "length (t[j := a]) mod acks_per_slot = 0" using t by (simp_all add: acks_ok_def)
  moreover have "slot_base k = slot_base (id_number (ack_id (t[j := a] ! k)) mod length t) \<and> id_of_ack (ack_ack (t[j := a] ! k)) = Some (ack_id (t[j := a] ! k))"
    if "k < length t" "ack_used (t[j := a] ! k)" for k
    using that(2) t that(1) unfolding n [OF that(1)] acks_ok_def by blast
  moreover have "k = l" if "k < length t" "l < length t" "ack_used (t[j := a] ! k)" "ack_used (t[j := a] ! l)"
      "ack_id (t[j := a] ! k) = ack_id (t[j := a] ! l)" for k l
    using that(3-5) t that(1,2) unfolding n [OF that(1)] n [OF that(2)] acks_ok_def by blast
  ultimately show ?thesis by (simp add: acks_ok_def)
qed

lemma ack_place_ok:
  assumes run: "ack_place now (ack_index pid st) st = Some (j, st')" and ok: "cache_ok st"
  shows "cache_ok st' \<and> length (ack_table st') = length (ack_table st) \<and> length (message_table st') = length (message_table st) \<and>
    j < length (ack_table st) \<and> slot_base j = slot_base (ack_index pid st) \<and> \<not> ack_used (ack_table st' ! j) \<and>
    (find_one_ack pid st = None \<longrightarrow> (\<forall>k < length (ack_table st'). ack_used (ack_table st' ! k) \<longrightarrow> ack_id (ack_table st' ! k) \<noteq> pid))"
proof -
  let ?i = "ack_index pid st"
  note inside = cache_index_slot(1) [OF ok, of pid]
  have at: "j < length (ack_table st) \<and> slot_base j = slot_base ?i" if "slot_base ?i \<le> j" "j < slot_base ?i + acks_per_slot" for j
    using inside that(2) slot_base_same [OF that] by simp
  have free: "j < length (ack_table st) \<and> slot_base j = slot_base ?i \<and> \<not> ack_used (ack_table s ! j)"
    if "find_free_ack_in_slot ?i s = Some j" for j s
    using that at [of j] by (auto simp: find_free_ack_in_slot_def dest!: find_Some_upt)
  have self: "?i < length (ack_table st) \<and> slot_base ?i = slot_base ?i" using index_less(2) [OF ok] by simp
  have none: "find_one_ack pid st = None \<longrightarrow> (\<forall>k < length (ack_table st). ack_used (ack_table st ! k) \<longrightarrow> ack_id (ack_table st ! k) \<noteq> pid)"
    using find_one_ack_None [OF _ ok] by blast
  consider "st' = st" "j = ?i" "\<not> ack_used (ack_table st ! ?i)" | "st' = st" "find_free_ack_in_slot ?i st = Some j"
    | off where "do_gc now None 0 st = Some (off, st')" "(if ack_used (ack_table st' ! ?i) then find_free_ack_in_slot ?i st' = Some j else j = ?i)"
    using run unfolding ack_place_def by (auto split: if_splits option.splits simp: bind_eq_Some_conv)
  then show ?thesis
  proof cases
    case 3
    note gc = do_gc_ok [OF 3(1) ok]
    have f: "freed (ack_table st) (ack_table st')" and lm: "length (message_table st') = length (message_table st)"
      using gc(1) by (simp_all add: gc_done_def)
    have l: "length (ack_table st') = length (ack_table st)" using freed_length [OF f] .
    have "find_one_ack pid st = None \<longrightarrow> (\<forall>k < length (ack_table st'). ack_used (ack_table st' ! k) \<longrightarrow> ack_id (ack_table st' ! k) \<noteq> pid)"
      using none freed_nth [OF f] l by metis
    moreover have "j < length (ack_table st) \<and> slot_base j = slot_base ?i \<and> \<not> ack_used (ack_table st' ! j)"
      using 3(2) free [of st' j] self by (auto split: if_splits)
    ultimately show ?thesis using gc(2) l lm by blast
  next
    case 1
    then show ?thesis using ok none self by blast
  next
    case 2
    then show ?thesis using ok none free [of st j] by blast
  qed
qed

lemma save_one_ack_ok:
  assumes run: "save_one_ack now ack hop_count st = Some (j, st')" and ok: "cache_ok st"
  shows "cache_ok st'"
proof -
  obtain f b where b: "in_bloom ack pid_ack_filter st = (f, st\<lparr>blooms := b\<rparr>)" using in_bloom_frame by blast
  define st1 where "st1 = st\<lparr>blooms := b\<rparr>"
  have ok1: "cache_ok st1" using ok by (simp add: st1_def)
  show ?thesis
  proof (cases f)
    case True
    then show ?thesis using run b ok by (auto simp: save_one_ack_def)
  next
    case False
    obtain pid where pid: "id_of_ack ack = Some pid"
      using run b False by (auto simp: save_one_ack_def bind_eq_Some_conv)
    show ?thesis
    proof (cases "find_one_ack pid st1")
      case (Some i)
      note s = find_one_ack_Some [OF Some ok1]
      have "acks_ok ((ack_table st1)[i := (ack_table st1 ! i)\<lparr>ack_max_hops := of_int hop_count\<rparr>])"
        using ok1 s by (intro acks_ok_same) (simp_all add: cache_ok_def)
      then show ?thesis using run b False pid Some ok1
        by (auto simp: save_one_ack_def st1_def [symmetric] Let_def cache_ok_def tokens_ok_def split: if_splits)
    next
      case None
      obtain i st2 where place: "ack_place now (ack_index pid st1) st1 = Some (i, st2)"
        and st': "st' = snd (pcache_id_found_delete pid True (st2\<lparr>ack_table := (ack_table st2)[i := \<lparr>ack_ack = ack, ack_id = pid, ack_used = True,
                    ack_max_hops = of_int hop_count, ack_sent_to_tokens = 0\<rparr>]\<rparr>))"
        using run b False pid None
        by (auto simp: save_one_ack_def st1_def [symmetric] Let_def bind_eq_Some_conv split: if_splits)
      note p = ack_place_ok [OF place ok1]
      have "acks_ok ((ack_table st2)[i := \<lparr>ack_ack = ack, ack_id = pid, ack_used = True, ack_max_hops = of_int hop_count, ack_sent_to_tokens = 0\<rparr>])"
        using p pid None by (intro acks_ok_set) (auto simp: cache_ok_def entry_index_number)
      then have "cache_ok (st2\<lparr>ack_table := (ack_table st2)[i := \<lparr>ack_ack = ack, ack_id = pid, ack_used = True,
                    ack_max_hops = of_int hop_count, ack_sent_to_tokens = 0\<rparr>]\<rparr>)"
        using p by (simp add: cache_ok_def tokens_ok_def)
      then show ?thesis unfolding st' by (rule found_delete_ok)
    qed
  qed
qed

lemma token_position_Some: "token_position token st = Some i \<Longrightarrow> i < num_external_tokens st \<and> token_list st ! i = token"
  by (auto simp: token_position_def find_Some_iff)

lemma token_position_None:
  "tokens_ok st \<Longrightarrow> token_position token st = None \<longleftrightarrow> token \<notin> set (take (num_external_tokens st) (token_list st))"
  by (auto simp: token_position_def find_None_iff tokens_ok_def in_set_conv_nth)

text \<open>What \<open>token_to_send_to\<close> may do: nothing, or a collection and a new token.\<close>

definition token_added :: "u8 list \<Rightarrow> pcache \<Rightarrow> pcache" where
  "token_added token st = st\<lparr>token_list := (token_list st)[num_external_tokens st := token],
     num_external_tokens := num_external_tokens st + 1\<rparr>"

lemma token_added_ok:
  assumes ok: "cache_ok st" and n: "num_external_tokens st < max_tokens" and new: "token_position token st = None"
  shows "cache_ok (token_added token st)"
proof -
  let ?n = "num_external_tokens st" and ?l = "token_list st"
  have t: "tokens_ok st" using ok by (simp add: cache_ok_def)
  then have "take (?n + 1) (?l[?n := token]) = take ?n ?l @ [token]"
    using n by (simp add: tokens_ok_def take_Suc_conv_app_nth)
  moreover have "token \<notin> set (take ?n ?l)" using token_position_None [OF t] new by simp
  ultimately have "tokens_ok (token_added token st)" using t n by (simp add: tokens_ok_def token_added_def)
  then show ?thesis using ok by (simp add: cache_ok_def token_added_def)
qed

lemma token_position_gc:
  assumes "gc_done now e msize st off st'" and "tokens_ok st" and "token_position token st = None"
  shows "token_position token st' = None"
proof -
  have g: "token_list st' = token_list (snd (gc_tokens st))" "num_external_tokens st' = num_external_tokens (snd (gc_tokens st))"
    using assms(1) by (simp_all add: gc_done_def)
  then have "tokens_ok st'" using gc_tokens_ok(1) [OF assms(2)] by (simp add: tokens_ok_def)
  from token_position_None [OF this, of token] token_position_None [OF assms(2), of token] assms(3) gc_tokens_ok(3) [OF assms(2)]
  show ?thesis unfolding g by blast
qed

lemma token_to_send_to_cases:
  assumes run: "token_to_send_to now token bitmap st = Some (i, st')" and ok: "cache_ok st"
  shows "cache_ok st'"
    and "st' = st \<or> (i \<ge> 0 \<and> st' = token_added token st \<and> nat i = num_external_tokens st) \<or>
      (\<exists>off st1. do_gc now None 0 st = Some (off, st1))"
proof -
  have t: "tokens_ok st" using ok by (simp add: cache_ok_def)
  consider "st' = st"
    | "token_position token st = None" "num_external_tokens st < max_tokens" "i = int (num_external_tokens st)" "st' = token_added token st"
    | off st1 st2 where "token_position token st = None" "do_gc now None 0 st = Some (off, st1)" "st2 = st1\<lparr>last_gc := allnet_time now\<rparr>"
      "st' = token_added token st2"
  proof (cases "token_position token st")
    case (Some j)
    then show ?thesis using run that(1) by (simp add: token_to_send_to_def)
  next
    case None
    show ?thesis
    proof (cases "num_external_tokens st + 1 > max_tokens")
      case False
      then show ?thesis using run None that(2) by (simp add: token_to_send_to_def token_added_def Let_def)
    next
      case full: True
      show ?thesis
      proof (cases "last_gc st + 60 > allnet_time now")
        case True
        then show ?thesis using run None full that(1) by (simp add: token_to_send_to_def)
      next
        case False
        then show ?thesis using run None full that(3)
          by (auto simp: token_to_send_to_def token_added_def Let_def bind_eq_Some_conv split: if_splits)
      qed
    qed
  qed
  then show "cache_ok st'" and "st' = st \<or> (i \<ge> 0 \<and> st' = token_added token st \<and> nat i = num_external_tokens st) \<or>
      (\<exists>off st1. do_gc now None 0 st = Some (off, st1))"
  proof (atomize (full), cases)
    case 1
    then show "cache_ok st' \<and> (st' = st \<or> (i \<ge> 0 \<and> st' = token_added token st \<and> nat i = num_external_tokens st) \<or>
      (\<exists>off st1. do_gc now None 0 st = Some (off, st1)))" using ok by simp
  next
    case 2
    then show "cache_ok st' \<and> (st' = st \<or> (i \<ge> 0 \<and> st' = token_added token st \<and> nat i = num_external_tokens st) \<or>
      (\<exists>off st1. do_gc now None 0 st = Some (off, st1)))" using token_added_ok [OF ok] by simp
  next
    case (3 off st1 st2)
    note gc = do_gc_ok [OF 3(2) ok]
    have "cache_ok st2" "num_external_tokens st2 < max_tokens"
      using gc(2,3) 3(3) by (simp_all add: cache_ok_def tokens_ok_def)
    moreover have "token_position token st2 = None"
      using token_position_gc [OF gc(1) t 3(1)] 3(3) by (simp add: token_position_def)
    ultimately have "cache_ok st'" unfolding 3(4) by (rule token_added_ok)
    then show "cache_ok st' \<and> (st' = st \<or> (i \<ge> 0 \<and> st' = token_added token st \<and> nat i = num_external_tokens st) \<or>
      (\<exists>off st1. do_gc now None 0 st = Some (off, st1)))" using 3(2) by blast
  qed
qed

lemma ack_mark_ok:
  assumes "cache_ok st"
  shows "cache_ok (st\<lparr>ack_table := (ack_table st)[j := (ack_table st ! j)\<lparr>ack_sent_to_tokens := v\<rparr>]\<rparr>)"
proof (cases "j < length (ack_table st)")
  case True
  then have "acks_ok ((ack_table st)[j := (ack_table st ! j)\<lparr>ack_sent_to_tokens := v\<rparr>])"
    using assms by (intro acks_ok_same) (simp_all add: cache_ok_def)
  then show ?thesis using assms by (simp add: cache_ok_def tokens_ok_def)
next
  case False
  then have "(ack_table st)[j := (ack_table st ! j)\<lparr>ack_sent_to_tokens := v\<rparr>] = ack_table st" by (simp add: list_update_beyond)
  then show ?thesis using assms by (simp add: cache_ok_def tokens_ok_def)
qed

lemma ack_for_token_ok:
  assumes "pcache_ack_for_token now token ack st = Some (r, st')" and "cache_ok st"
  shows "cache_ok st'"
proof -
  obtain f b where b: "in_bloom ack pid_ack_filter st = (f, st\<lparr>blooms := b\<rparr>)" using in_bloom_frame by blast
  have ok1: "cache_ok (st\<lparr>blooms := b\<rparr>)" using assms(2) by simp
  show ?thesis
  proof (cases f)
    case True
    then show ?thesis using assms b by (auto simp: pcache_ack_for_token_def)
  next
    case False
    then obtain pid j i st2 where tok: "token_to_send_to now token (ack_sent_to_tokens (ack_table (st\<lparr>blooms := b\<rparr>) ! j)) (st\<lparr>blooms := b\<rparr>) = Some (i, st2)"
      and st': "st' = st2 \<or> st' = st2\<lparr>ack_table := (ack_table st2)[j := (ack_table st2 ! j)\<lparr>ack_sent_to_tokens := ack_sent_to_tokens (ack_table st2 ! j) OR push_bit (nat i) 1\<rparr>]\<rparr>"
      using assms(1) b by (auto simp: pcache_ack_for_token_def bind_eq_Some_conv Let_def split: if_splits)
    show ?thesis using st' token_to_send_to_cases(1) [OF tok ok1] ack_mark_ok by auto
  qed
qed

lemma each_inv:
  assumes "each f xs s = Some s'" and "\<And>x s s'. P s \<Longrightarrow> f x s = Some s' \<Longrightarrow> P s'" and "P s"
  shows "P s'"
  using assms(1,3) by (induction xs arbitrary: s) (auto simp: bind_eq_Some_conv dest: assms(2))

lemma acks_for_token_ok:
  assumes "pcache_acks_for_token now token acks st = Some (acks', n, st')" and "cache_ok st"
  shows "cache_ok st'"
proof -
  have "cache_ok (snd (snd (acks', n, st')))"
  proof (rule each_inv [where P = "\<lambda>s. cache_ok (snd (snd s))"])
    show "each (acks_step now token) [0..<length acks] (acks, 0, st) = Some (acks', n, st')"
      using assms(1) by (simp add: pcache_acks_for_token_def)
    show "cache_ok (snd (snd (acks, 0, st)))" using assms(2) by simp
  qed (auto simp: acks_step_def bind_eq_Some_conv split: if_splits dest: ack_for_token_ok)
  then show ?thesis by simp
qed

lemma save_acks_ok: "pcache_save_acks now acks hop_count st = Some st' \<Longrightarrow> cache_ok st \<Longrightarrow> cache_ok st'"
  unfolding pcache_save_acks_def by (rule each_inv [where P = cache_ok]) (auto dest: save_one_ack_ok)

lemma bytes_used_update:
  "k < length hp \<Longrightarrow> bytes_used_for_entry (hp[k := (hp ! k)\<lparr>mh_sent_to_tokens := v\<rparr>]) = bytes_used_for_entry hp"
  by (induction hp arbitrary: k) (auto split: nat.splits)

lemma mark_token_ok:
  assumes run: "pcache_mark_token_sent now token message st = Some st'" and ok: "cache_ok st"
  shows "cache_ok st'"
proof -
  consider "st' = st" | pid t i st1 where "token_to_send_to now t 0 st = Some (i, st1)"
    "st' = st1 \<or> (\<exists>k v. fst (pcache_id_found_delete pid False st1) = Some k \<and>
       st' = st1\<lparr>message_table := (message_table st1)[entry_index pid st1 :=
         (message_table st1 ! entry_index pid st1)[k := (message_table st1 ! entry_index pid st1 ! k)\<lparr>mh_sent_to_tokens := v\<rparr>]]\<rparr>)"
    using run by (fastforce simp: pcache_mark_token_sent_def bind_eq_Some_conv Let_def split: if_splits option.splits)
  then show ?thesis
  proof cases
    case (2 pid t i st1)
    have ok1: "cache_ok st1" using token_to_send_to_cases(1) [OF 2(1) ok] .
    let ?e = "entry_index pid st1"
    note ix = index_less [OF ok1, of pid]
    have "cache_ok (st1\<lparr>message_table := (message_table st1)[?e := (message_table st1 ! ?e)[k := (message_table st1 ! ?e ! k)\<lparr>mh_sent_to_tokens := v\<rparr>]]\<rparr>)"
      if "k < length (message_table st1 ! ?e)" for k v
    proof -
      let ?hp = "message_table st1 ! ?e"
      have same: "map mh_id (?hp[k := (?hp ! k)\<lparr>mh_sent_to_tokens := v\<rparr>]) = map mh_id ?hp"
        using that by (intro nth_equalityI) (auto simp: nth_list_update)
      have bytes: "bytes_used_for_entry (?hp[k := (?hp ! k)\<lparr>mh_sent_to_tokens := v\<rparr>]) = bytes_used_for_entry ?hp"
        using that by (rule bytes_used_update)
      have "mh_id ` set (?hp[k := (?hp ! k)\<lparr>mh_sent_to_tokens := v\<rparr>]) = mh_id ` set ?hp"
        using same by (metis list.set_map)
      then have "entry_ok (length (message_table st1)) ?e (?hp[k := (?hp ! k)\<lparr>mh_sent_to_tokens := v\<rparr>])"
        using ix(3) same bytes unfolding entry_ok_def by (metis (no_types, lifting) imageE imageI)
      then have "messages_ok ((message_table st1)[?e := ?hp[k := (?hp ! k)\<lparr>mh_sent_to_tokens := v\<rparr>]])"
        using ok1 by (intro messages_ok_update) (auto simp: cache_ok_def)
      then show ?thesis using ok1 by (simp add: cache_ok_def tokens_ok_def)
    qed
    moreover have "k < length (message_table st1 ! ?e)" if "fst (pcache_id_found_delete pid False st1) = Some k" for k
      using that message_position_Some by (auto simp: pcache_id_found_delete_def Let_def split: option.splits)
    ultimately show ?thesis using 2(2) ok1 by auto
  qed (use ok in simp)
qed

end
