(* ===== verification/CacheRequest.thy ===== *)
theory CacheRequest
  imports CacheInv
begin

text \<open>
  Data requests, \<open>lib/pcache.c\<close>: which messages of the cache match a request, and the buffer in which
  they are returned, sorted by priority. A request is the list of its bytes from the token on; the
  messages of a result are offsets into its memory. \<open>fresh\<close> is what new memory contains. \<open>None\<close> is also
  a request whose token makes the cache collect garbage, since the loop then goes on over entries that
  have changed.
\<close>

section \<open>Matching\<close>

fun double_while :: "nat \<Rightarrow> nat \<Rightarrow> nat" where
  "double_while 0 result = result"
| "double_while (Suc bits_power_two) result =
     (if result < allnet_mtu * 8 then double_while bits_power_two (result + result) else result)"

definition power_two :: "nat \<Rightarrow> nat" where
  "power_two bits_power_two = (if bits_power_two = 0 then 0 else double_while bits_power_two 1)"

text \<open>A bitmap is the rest of the request from where it starts, or \<open>None\<close> for \<open>NULL\<close>.\<close>

record req_details =
  rd_dst_bits_power_two :: nat
  rd_src_bits_power_two :: nat
  rd_mid_bits_power_two :: nat
  rd_dst_bits :: nat
  rd_dst_bitmap :: "u8 list option"
  rd_src_bits :: nat
  rd_src_bitmap :: "u8 list option"
  rd_mid_bits :: nat
  rd_mid_bitmap :: "u8 list option"

definition get_details :: "u8 list \<Rightarrow> req_details" where
  "get_details req =
     (let dst = unat (req ! 24); src = unat (req ! 25); mid = unat (req ! 26);
          dst_bits = power_two dst; src_bits = power_two src; mid_bits = power_two mid;
          ptr = data_request_size;
          dst_bitmap = (if dst = 0 then None else Some (drop ptr req));
          ptr = (if dst = 0 then ptr else ptr + (dst_bits + 7) div 8);
          src_bitmap = (if src = 0 then None else Some (drop ptr req));
          ptr = (if src = 0 then ptr else ptr + (src_bits + 7) div 8);
          mid_bitmap = (if mid = 0 then None else Some (drop ptr req))
      in \<lparr>rd_dst_bits_power_two = dst, rd_src_bits_power_two = src, rd_mid_bits_power_two = mid,
          rd_dst_bits = dst_bits, rd_dst_bitmap = dst_bitmap, rd_src_bits = src_bits, rd_src_bitmap = src_bitmap,
          rd_mid_bits = mid_bits, rd_mid_bitmap = mid_bitmap\<rparr>)"

text \<open>One bit of a bitmap: \<open>Some None\<close> when the number has no place in it.\<close>

definition bitmap_bit :: "int \<Rightarrow> int \<Rightarrow> u8 list \<Rightarrow> bool option option" where
  "bitmap_bit pow2 first16 bitmap =
     (let byte_index = allnet_bitmap_byte_index pow2 first16; byte_mask = allnet_bitmap_byte_mask pow2 first16
      in if byte_index < 0 \<or> byte_mask < 0 then Some None
         else if nat byte_index < length bitmap
         then Some (Some (uint (bitmap ! nat byte_index) AND byte_mask \<noteq> 0))
         else None)"

fun scan_bitmap :: "int \<Rightarrow> int \<Rightarrow> u8 list \<Rightarrow> nat \<Rightarrow> bool option" where
  "scan_bitmap pow2 first16 bitmap 0 = Some False"
| "scan_bitmap pow2 first16 bitmap (Suc loops) = do {
     b \<leftarrow> bitmap_bit pow2 first16 bitmap;
     (case b of
        None \<Rightarrow> Some False
      | Some True \<Rightarrow> Some True
      | Some False \<Rightarrow> scan_bitmap pow2 (first16 + 1) bitmap loops)
   }"

definition matches_req :: "nat \<Rightarrow> u8 list \<Rightarrow> nat \<Rightarrow> nat \<Rightarrow> u8 list option \<Rightarrow> bool option" where
  "matches_req nbits address pow2 bitmap_bits bitmap =
     (case bitmap of
        None \<Rightarrow> Some True
      | Some bitmap \<Rightarrow>
        if pow2 = 0 \<or> nbits < 1 then Some True
        else if nbits > 64 \<or> pow2 > 16 \<or> bitmap_bits \<ge> allnet_mtu * 8 then Some False
        else
          let first16 = uint (readb16 (Some address));
              loops = (if nbits \<ge> pow2 then 1 else 2 ^ (pow2 - nbits));
              first16 = (if nbits < 16 then first16 AND NOT (2 ^ (16 - nbits) - 1) else first16)
          in scan_bitmap (int pow2) first16 bitmap loops)"

definition matches_mid :: "u8 list option \<Rightarrow> nat \<Rightarrow> u8 list option \<Rightarrow> bool option" where
  "matches_mid mid nbits bitmap =
     (case (mid, bitmap) of
        (Some mid, Some bitmap) \<Rightarrow>
          map_option (\<lambda>b. b = Some True) (bitmap_bit (int nbits) (uint (readb16 (Some mid))) bitmap)
      | _ \<Rightarrow> Some True)"

definition matches_data_request :: "req_details \<Rightarrow> u8 list \<Rightarrow> bool option" where
  "matches_data_request rd message = do {
     let hp = header_of message;
     r1 \<leftarrow> matches_req (unat (dst_nbits hp)) (destination hp) (rd_dst_bits_power_two rd) (rd_dst_bits rd) (rd_dst_bitmap rd);
     r2 \<leftarrow> matches_req (unat (src_nbits hp)) (source hp) (rd_src_bits_power_two rd) (rd_src_bits rd) (rd_src_bitmap rd);
     r3 \<leftarrow> matches_mid (map_option (\<lambda>off. drop off message) (allnet_message_id (transport hp) (length message)))
       (rd_mid_bits_power_two rd) (rd_mid_bitmap rd);
     Some (r1 \<and> r2 \<and> r3)
   }"

section \<open>The buffer of the result\<close>

record pcache_message =
  pm_offset :: nat
  pm_msize :: nat
  pm_priority :: int

record pcache_result =
  res_messages :: "pcache_message list"
  res_free_ptr :: "u8 list option"

definition pcache_realloc :: "(nat \<Rightarrow> u8) \<Rightarrow> u8 list option \<Rightarrow> nat \<Rightarrow> u8 list" where
  "pcache_realloc fresh ptr new_size =
     (let local_minimum = 11 * allnet_mtu
      in if new_size \<le> local_minimum
         then (case ptr of None \<Rightarrow> map fresh [0..<local_minimum] | Some p \<Rightarrow> p)
         else (case ptr of
                 None \<Rightarrow> map fresh [0..<new_size]
               | Some p \<Rightarrow> take new_size p @ map fresh [length p..<new_size]))"

text \<open>
  The loop over the messages of lower priority, from the last one on: where it stops, the messages, the
  place for the new one and the size of what has to move.
\<close>

fun shift_lower :: "nat \<Rightarrow> int \<Rightarrow> nat \<Rightarrow> pcache_message list \<Rightarrow> nat \<Rightarrow> nat \<Rightarrow> nat \<times> pcache_message list \<times> nat \<times> nat" where
  "shift_lower 0 priority msize messages current move_size = (0, messages, current, move_size)"
| "shift_lower (Suc i) priority msize messages current move_size =
     (let m = messages ! i
      in if pm_priority m < priority
         then shift_lower i priority msize (messages[Suc i := m\<lparr>pm_offset := pm_offset m + msize\<rparr>]) (pm_offset m) (move_size + pm_msize m)
         else (Suc i, messages, current, move_size))"

fun point_back :: "nat \<Rightarrow> nat \<Rightarrow> pcache_message list \<Rightarrow> pcache_message list" where
  "point_back 0 current messages = messages"
| "point_back (Suc i) current messages =
     (let current = current - pm_msize (messages ! i)
      in point_back i current (messages[i := (messages ! i)\<lparr>pm_offset := current\<rparr>]))"

definition memmove :: "u8 list \<Rightarrow> nat \<Rightarrow> nat \<Rightarrow> nat \<Rightarrow> u8 list option" where
  "memmove mem to from n =
     (if to + n \<le> length mem \<and> from + n \<le> length mem then Some (take to mem @ take n (drop from mem) @ drop (to + n) mem)
      else None)"

definition put_bytes :: "u8 list \<Rightarrow> nat \<Rightarrow> u8 list \<Rightarrow> u8 list option" where
  "put_bytes mem to bytes =
     (if to + length bytes \<le> length mem then Some (take to mem @ bytes @ drop (to + length bytes) mem) else None)"

definition add_to_result :: "(nat \<Rightarrow> u8) \<Rightarrow> pcache_result \<Rightarrow> nat \<Rightarrow> u8 list \<Rightarrow> int \<Rightarrow> (nat \<times> pcache_result) option" where
  "add_to_result fresh r size_old message priority =
     (let msize = length message;
          n = length (res_messages r);
          new_messages = res_messages r @ [\<lparr>pm_offset = 0, pm_msize = 0, pm_priority = 0\<rparr>];
          size_new = size_old + msize;
          mem = pcache_realloc fresh (res_free_ptr r) size_new;
          (i, new_messages, current, move_size) = shift_lower n priority msize new_messages size_old 0
      in do {
        mem \<leftarrow> (if move_size > 0 then memmove mem (current + msize) current move_size else Some mem);
        mem \<leftarrow> put_bytes mem current message;
        let new_messages = new_messages[i := \<lparr>pm_offset = current, pm_msize = msize, pm_priority = priority\<rparr>];
        Some (size_new, \<lparr>res_messages = point_back i current new_messages, res_free_ptr = Some mem\<rparr>)
      })"

definition cond_add_to_result :: "(nat \<Rightarrow> u8) \<Rightarrow> pcache_result \<Rightarrow> nat \<Rightarrow> u8 list \<Rightarrow> int \<Rightarrow> (nat \<times> pcache_result) option" where
  "cond_add_to_result fresh r size_old message priority =
     (if res_messages r = [] then Some (0, r)
      else if pm_priority (last (res_messages r)) \<ge> priority then Some (size_old, r)
      else add_to_result fresh (r\<lparr>res_messages := butlast (res_messages r)\<rparr>)
        (size_old - pm_msize (last (res_messages r))) message priority)"

section \<open>Requests\<close>

text \<open>
  One message of the cache. The priority of a message is unsigned in the table and signed in the result.
\<close>

definition request_step :: "(nat \<Rightarrow> u8) \<Rightarrow> int \<Rightarrow> u8 list \<Rightarrow> nat \<Rightarrow> bool \<Rightarrow> message_header \<Rightarrow>
    pcache_result \<times> nat \<times> pcache \<Rightarrow> (pcache_result \<times> nat \<times> pcache) option" where
  "request_step fresh now req limit match_all mh s =
     (case s of (result, result_size, st) \<Rightarrow> do {
        let token = take allnet_token_size req;
        let msg = mh_message mh;
        let priority = sint (mh_priority mh);
        matching \<leftarrow> (if match_all then Some True else matches_data_request (get_details req) msg);
        if \<not> matching then Some s
        else do {
          expired \<leftarrow> is_expired_message now msg;
          if expired then Some s
          else do {
            no_token \<leftarrow> memget token 0 allnet_token_size;
            (itoken, st') \<leftarrow> (if no_token then Some (0, st) else token_to_send_to now token (mh_sent_to_tokens mh) st);
            if message_table st' \<noteq> message_table st then None
            else if itoken = - 1 then Some (result, result_size, st')
            else do {
              (result_size, result) \<leftarrow>
                (if limit > 0 \<and> length (res_messages result) \<ge> limit
                 then cond_add_to_result fresh result result_size msg priority
                 else add_to_result fresh result result_size msg priority);
              Some (result, result_size, st')
            }
          }
        }
      })"

definition pcache_request :: "(nat \<Rightarrow> u8) \<Rightarrow> int \<Rightarrow> u8 list \<Rightarrow> nat \<Rightarrow> pcache \<Rightarrow> (pcache_result \<times> pcache) option" where
  "pcache_request fresh now req limit st =
     (if length req < data_request_size then None
      else do {
        zero_since \<leftarrow> memget (take allnet_time_size (drop allnet_token_size req)) 0 allnet_time_size;
        let match_all = (req ! 24 = 0 \<and> req ! 25 = 0 \<and> req ! 26 = 0 \<and> zero_since);
        (result, result_size, st) \<leftarrow> each (request_step fresh now req limit match_all) (concat (message_table st))
          (\<lparr>res_messages = [], res_free_ptr = None\<rparr>, 0, st);
        Some (result\<lparr>res_messages := (if limit > 0 \<and> length (res_messages result) > limit
          then take limit (res_messages result) else res_messages result)\<rparr>, st)
      })"

section \<open>What the buffer holds\<close>

text \<open>The headers of messages that follow each other in memory.\<close>

fun layout :: "nat \<Rightarrow> (u8 list \<times> int) list \<Rightarrow> pcache_message list" where
  "layout off [] = []"
| "layout off (x # V) = \<lparr>pm_offset = off, pm_msize = length (fst x), pm_priority = snd x\<rparr> # layout (off + length (fst x)) V"

definition view_size :: "(u8 list \<times> int) list \<Rightarrow> nat" where
  "view_size V = length (concat (map fst V))"

lemma view_size_simps [simp]: "view_size [] = 0" "view_size (x # V) = length (fst x) + view_size V"
  "view_size (V @ W) = view_size V + view_size W"
  by (simp_all add: view_size_def)

lemma length_layout [simp]: "length (layout off V) = length V"
  by (induction V arbitrary: off) simp_all

lemma layout_append [simp]: "layout off (V @ W) = layout off V @ layout (off + view_size V) W"
  by (induction V arbitrary: off) (simp_all add: add.assoc)

lemma layout_nth: "k < length V \<Longrightarrow>
  layout off V ! k = \<lparr>pm_offset = off + view_size (take k V), pm_msize = length (fst (V ! k)), pm_priority = snd (V ! k)\<rparr>"
  by (induction V arbitrary: off k) (auto simp: nth_Cons split: nat.splits)

lemma layout_take: "take k (layout off V) = layout off (take k V)"
  by (induction V arbitrary: off k) (auto simp: take_Cons split: nat.splits)

lemma layout_drop: "drop k (layout off V) = layout (off + view_size (take k V)) (drop k V)"
  by (induction V arbitrary: off k) (auto simp: drop_Cons take_Cons add.assoc split: nat.splits)

lemma layout_shift: "map (\<lambda>m. m\<lparr>pm_offset := pm_offset m + s\<rparr>) (layout off V) = layout (off + s) V"
  by (induction V arbitrary: off) (simp_all add: ac_simps)

text \<open>The result holds the messages of \<open>V\<close> with their priorities.\<close>

definition holds :: "pcache_result \<Rightarrow> nat \<Rightarrow> (u8 list \<times> int) list \<Rightarrow> bool" where
  "holds r n V \<longleftrightarrow> res_messages r = layout 0 V \<and> n = view_size V \<and>
     (case res_free_ptr r of
        None \<Rightarrow> V = []
      | Some mem \<Rightarrow> 11 * allnet_mtu \<le> length mem \<and> (\<exists>rest. mem = concat (map fst V) @ rest))"

text \<open>The place of a message: after the last one whose priority is not lower.\<close>

definition place :: "int \<Rightarrow> (u8 list \<times> int) list \<Rightarrow> nat" where
  "place p V = length (dropWhile (\<lambda>y. snd y < p) (rev V))"

lemma place_le: "place p V \<le> length V"
  using length_dropWhile_le [of "\<lambda>y. snd y < p" "rev V"] by (simp add: place_def)

lemma place_after: "place p V \<le> j \<Longrightarrow> j < length V \<Longrightarrow> snd (V ! j) < p"
proof (induction V rule: rev_induct)
  case (snoc x V)
  show ?case
  proof (cases "snd x < p")
    case True
    then have "place p (V @ [x]) = place p V" by (simp add: place_def)
    then show ?thesis using snoc True by (cases "j = length V") (simp_all add: nth_append)
  next
    case False
    then show ?thesis using snoc.prems by (simp add: place_def)
  qed
qed simp

lemma place_before: "0 < place p V \<Longrightarrow> \<not> snd (V ! (place p V - 1)) < p"
proof (induction V rule: rev_induct)
  case (snoc x V)
  show ?case
  proof (cases "snd x < p")
    case True
    then have e: "place p (V @ [x]) = place p V" by (simp add: place_def)
    then have "place p V - 1 < length V" using snoc.prems place_le [of p V] by simp
    then show ?thesis using snoc e by (simp add: nth_append)
  next
    case False
    then show ?thesis by (simp add: place_def)
  qed
qed (simp add: place_def)

lemma place_unique:
  assumes "i \<le> length V" and "\<And>j. i \<le> j \<Longrightarrow> j < length V \<Longrightarrow> snd (V ! j) < p" and "0 < i \<Longrightarrow> \<not> snd (V ! (i - 1)) < p"
  shows "i = place p V"
proof (rule ccontr)
  assume "i \<noteq> place p V"
  then consider "i < place p V" | "place p V < i" by linarith
  then show False
  proof cases
    case 1
    then have "0 < place p V" "i \<le> place p V - 1" "place p V - 1 < length V" using place_le [of p V] by linarith+
    then show False using place_before [of p V] assms(2) [of "place p V - 1"] by blast
  next
    case 2
    then have "0 < i" "place p V \<le> i - 1" "i - 1 < length V" using assms(1) by linarith+
    then show False using assms(3) place_after [of p V "i - 1"] by blast
  qed
qed

text \<open>The loop that makes room stops at the place, with the messages after it moved up by one.\<close>

lemma shift_lower_run:
  assumes "shift_lower k p s ms cur mv = (i, ms', cur', mv')" and "k < length ms"
  shows "i \<le> k \<and> length ms' = length ms \<and> (\<forall>j. i \<le> j \<and> j < k \<longrightarrow> pm_priority (ms ! j) < p) \<and>
    (0 < i \<longrightarrow> \<not> pm_priority (ms ! (i - 1)) < p) \<and>
    (\<forall>j \<le> i. ms' ! j = ms ! j) \<and> (\<forall>j. i \<le> j \<and> j < k \<longrightarrow> ms' ! Suc j = (ms ! j)\<lparr>pm_offset := pm_offset (ms ! j) + s\<rparr>) \<and>
    (\<forall>j. k < j \<longrightarrow> ms' ! j = ms ! j) \<and>
    cur' = (if i < k then pm_offset (ms ! i) else cur) \<and> mv' = mv + sum_list (map pm_msize (take (k - i) (drop i ms)))"
  using assms
proof (induction k arbitrary: ms cur mv)
  case 0
  then show ?case by auto
next
  case (Suc k)
  show ?case
  proof (cases "pm_priority (ms ! k) < p")
    case False
    then show ?thesis using Suc.prems by auto
  next
    case True
    let ?ms = "ms[Suc k := (ms ! k)\<lparr>pm_offset := pm_offset (ms ! k) + s\<rparr>]"
    have run: "shift_lower k p s ?ms (pm_offset (ms ! k)) (mv + pm_msize (ms ! k)) = (i, ms', cur', mv')"
      using Suc.prems(1) True by (simp add: Let_def)
    have "k < length ?ms" using Suc.prems(2) by simp
    note ih = Suc.IH [OF run this]
    have same: "?ms ! j = ms ! j" if "j \<le> k" for j using that by simp
    have i: "i \<le> k" using ih by simp
    have sum: "sum_list (map pm_msize (take (Suc k - i) (drop i ms))) = sum_list (map pm_msize (take (k - i) (drop i ?ms))) + pm_msize (ms ! k)"
    proof -
      have "take (k - i) (drop i ?ms) = take (k - i) (drop i ms)"
        using i by (simp add: drop_update_swap)
      moreover have "take (Suc k - i) (drop i ms) = take (k - i) (drop i ms) @ [ms ! k]"
        using i Suc.prems(2) by (simp add: Suc_diff_le take_Suc_conv_app_nth)
      ultimately show ?thesis by simp
    qed
    show ?thesis
    proof (intro conjI allI impI)
      show "i \<le> Suc k" "length ms' = length ms" using ih by auto
      show "pm_priority (ms ! j) < p" if "i \<le> j \<and> j < Suc k" for j
        using ih that True by (cases "j = k") (auto simp: less_Suc_eq)
      show "\<not> pm_priority (ms ! (i - 1)) < p" if "0 < i" using ih that i by auto
      show "ms' ! j = ms ! j" if "j \<le> i" for j using ih that i by auto
      show "ms' ! Suc j = (ms ! j)\<lparr>pm_offset := pm_offset (ms ! j) + s\<rparr>" if "i \<le> j \<and> j < Suc k" for j
        using ih that Suc.prems(2) by (cases "j = k") (auto simp: less_Suc_eq)
      show "ms' ! j = ms ! j" if "Suc k < j" for j using ih that by auto
      show "cur' = (if i < Suc k then pm_offset (ms ! i) else cur)" using ih i by (cases "i = k") auto
      show "mv' = mv + sum_list (map pm_msize (take (Suc k - i) (drop i ms)))" using ih sum by simp
    qed
  qed
qed

text \<open>The pointers to the messages before it are already right.\<close>

lemma point_back_run: "i \<le> length V \<Longrightarrow> ms = layout 0 (take i V) @ rest \<Longrightarrow> point_back i (view_size (take i V)) ms = ms"
proof (induction i arbitrary: ms rest)
  case (Suc i)
  then have i: "i < length V" "take (Suc i) V = take i V @ [V ! i]" by (simp_all add: take_Suc_conv_app_nth)
  have ms: "ms = layout 0 (take i V) @ (layout (view_size (take i V)) [V ! i] @ rest)" using Suc.prems(2) i by simp
  have at: "ms ! i = \<lparr>pm_offset = view_size (take i V), pm_msize = length (fst (V ! i)), pm_priority = snd (V ! i)\<rparr>"
    using i by (simp add: ms nth_append)
  have "ms[i := (ms ! i)\<lparr>pm_offset := view_size (take i V)\<rparr>] = ms"
    using at by (metis list_update_id pcache_message.update_convs(1))
  then show ?case using Suc.IH [OF _ ms] i at by (simp add: Let_def)
qed simp

definition insert_message :: "u8 list \<times> int \<Rightarrow> (u8 list \<times> int) list \<Rightarrow> (u8 list \<times> int) list" where
  "insert_message x V = take (place (snd x) V) V @ x # drop (place (snd x) V) V"

lemma realloc_run:
  assumes "holds r n V" and "n \<le> m"
  shows "\<exists>rest. pcache_realloc fresh (res_free_ptr r) m = concat (map fst V) @ rest \<and>
    m \<le> length (pcache_realloc fresh (res_free_ptr r) m) \<and> 11 * allnet_mtu \<le> length (pcache_realloc fresh (res_free_ptr r) m)"
proof (cases "res_free_ptr r")
  case None
  then show ?thesis using assms by (auto simp: holds_def pcache_realloc_def Let_def)
next
  case (Some mem)
  then obtain rest where mem: "mem = concat (map fst V) @ rest" "11 * allnet_mtu \<le> length mem" "n = length (concat (map fst V))"
    using assms(1) by (auto simp: holds_def view_size_def)
  show ?thesis
  proof (cases "m \<le> 11 * allnet_mtu")
    case True
    then show ?thesis using Some mem by (auto simp: pcache_realloc_def)
  next
    case False
    have e: "pcache_realloc fresh (res_free_ptr r) m = take m mem @ map fresh [length mem..<m]"
      using Some False by (simp add: pcache_realloc_def)
    then have l: "length (pcache_realloc fresh (res_free_ptr r) m) = m" by simp
    have "take m mem = concat (map fst V) @ take (m - n) rest" using mem assms(2) by simp
    then have "pcache_realloc fresh (res_free_ptr r) m = concat (map fst V) @ (take (m - n) rest @ map fresh [length mem..<m])"
      using e by simp
    then show ?thesis using l False by (metis linear)
  qed
qed

lemma memory_run:
  assumes mem: "mem = A @ B @ C" and room: "length A + length msg + length B \<le> length mem"
  shows "\<exists>rest mem1. (if length B > 0 then memmove mem (length A + length msg) (length A) (length B) else Some mem) = Some mem1 \<and>
    put_bytes mem1 (length A) msg = Some (A @ msg @ B @ rest) \<and> length (A @ msg @ B @ rest) = length mem"
proof (cases "B = []")
  case True
  then show ?thesis using assms by (auto simp: put_bytes_def)
next
  case False
  let ?mem1 = "take (length A + length msg) mem @ B @ drop (length A + length msg + length B) mem"
  have "memmove mem (length A + length msg) (length A) (length B) = Some ?mem1"
    using room by (simp add: memmove_def mem)
  moreover have "take (length A) ?mem1 = A" using room by (simp add: mem)
  moreover have "drop (length A + length msg) ?mem1 = B @ drop (length A + length msg + length B) mem" using room by simp
  moreover have "length A + length msg \<le> length ?mem1" using room by simp
  ultimately show ?thesis using False room
    by (intro exI [of _ "drop (length A + length msg + length B) mem"] exI [of _ ?mem1]) (auto simp: put_bytes_def)
qed

lemma sum_sizes: "sum_list (map pm_msize (layout off V)) = view_size V"
  by (induction V arbitrary: off) simp_all

lemma add_to_result_run:
  assumes h: "holds r n V"
  shows "\<exists>r'. add_to_result fresh r n msg p = Some (n + length msg, r') \<and> holds r' (n + length msg) (insert_message (msg, p) V)"
proof -
  define i where "i = place p V"
  define A B where "A = concat (map fst (take i V))" and "B = concat (map fst (drop i V))"
  have il: "i \<le> length V" using place_le by (simp add: i_def)
  have AB: "concat (map fst V) = A @ B" unfolding A_def B_def by (metis append_take_drop_id concat_append map_append)
  have sizes: "view_size (take i V) = length A" "view_size (drop i V) = length B" by (simp_all add: view_size_def A_def B_def)
  have n: "n = length A + length B" "res_messages r = layout 0 V" using h AB by (simp_all add: holds_def view_size_def)
  let ?dummy = "\<lparr>pm_offset = 0, pm_msize = 0, pm_priority = 0\<rparr>"
  let ?L = "layout 0 V @ [?dummy]" and ?s = "length msg"
  obtain i' ms' cur mv where run: "shift_lower (length V) p ?s ?L n 0 = (i', ms', cur, mv)"
    by (cases "shift_lower (length V) p ?s ?L n 0") auto
  have "length V < length ?L" by simp
  note m = shift_lower_run [OF run this]
  have prio: "pm_priority (?L ! j) = snd (V ! j)" if "j < length V" for j using that by (simp add: nth_append layout_nth)
  have "i' = place p V"
  proof (rule place_unique)
    show "i' \<le> length V" using m by simp
    show "snd (V ! j) < p" if "i' \<le> j" "j < length V" for j using m prio that by auto
    show "\<not> snd (V ! (i' - 1)) < p" if "0 < i'"
    proof -
      have "i' - 1 < length V" using m that by linarith
      then show ?thesis using m prio [of "i' - 1"] that by auto
    qed
  qed
  then have i': "i' = i" by (simp add: i_def)
  have cur: "cur = length A"
  proof (cases "i < length V")
    case True
    then show ?thesis using m i' by (simp add: nth_append layout_nth sizes)
  next
    case False
    then have "B = []" by (simp add: B_def)
    then show ?thesis using m i' il False n by simp
  qed
  have "take (length V - i) (drop i ?L) = layout (view_size (take i V)) (drop i V)"
    using il by (simp add: layout_drop)
  then have mv: "mv = length B" using m i' by (simp add: sum_sizes sizes)
  have ms': "ms'[i := \<lparr>pm_offset = length A, pm_msize = ?s, pm_priority = p\<rparr>] = layout 0 (insert_message (msg, p) V)"
  proof (rule nth_equalityI)
    show "length (ms'[i := \<lparr>pm_offset = length A, pm_msize = ?s, pm_priority = p\<rparr>]) = length (layout 0 (insert_message (msg, p) V))"
      using m il by (simp add: insert_message_def i_def)
    fix j assume "j < length (ms'[i := \<lparr>pm_offset = length A, pm_msize = ?s, pm_priority = p\<rparr>])"
    then have j: "j \<le> length V" using m by simp
    have lay: "layout 0 (insert_message (msg, p) V) = layout 0 (take i V) @ \<lparr>pm_offset = length A, pm_msize = ?s, pm_priority = p\<rparr> #
        layout (length A + ?s) (drop i V)"
      by (simp add: insert_message_def i_def [symmetric] sizes)
    consider "j < i" | "j = i" | k where "j = Suc k" "i \<le> k" "k < length V" 
      using j by (metis Suc_le_lessD Suc_le_mono less_Suc_eq_le linorder_cases not0_implies_Suc not_less_zero)
    then show "ms'[i := \<lparr>pm_offset = length A, pm_msize = ?s, pm_priority = p\<rparr>] ! j = layout 0 (insert_message (msg, p) V) ! j"
    proof cases
      case 1
      then have "ms' ! j = layout 0 V ! j" using m i' il by (simp add: nth_append)
      then show ?thesis using 1 il unfolding lay by (simp add: nth_append layout_nth)
    next
      case 2
      then show ?thesis using m il unfolding lay by (simp add: nth_append)
    next
      case 3
      have "ms' ! Suc k = (?L ! k)\<lparr>pm_offset := pm_offset (?L ! k) + ?s\<rparr>" using m i' 3 by simp
      moreover have "?L ! k = layout 0 V ! k" using 3 by (simp add: nth_append)
      moreover have "layout 0 V ! k = layout (length A) (drop i V) ! (k - i)"
        using 3 layout_drop [of i 0 V] by (metis (no_types, lifting) add.left_neutral il le_add_diff_inverse length_layout nth_drop sizes(1))
      moreover have "layout (length A + ?s) (drop i V) ! (k - i) = (layout (length A) (drop i V) ! (k - i))\<lparr>pm_offset := pm_offset (layout (length A) (drop i V) ! (k - i)) + ?s\<rparr>"
        using 3 by (subst layout_shift [symmetric]) simp
      ultimately show ?thesis using 3 il unfolding lay by (simp add: nth_append Suc_diff_le)
    qed
  qed
  have pb: "point_back i (length A) (layout 0 (insert_message (msg, p) V)) = layout 0 (insert_message (msg, p) V)"
    using point_back_run [of i V "layout 0 (insert_message (msg, p) V)" "\<lparr>pm_offset = length A, pm_msize = ?s, pm_priority = p\<rparr> # layout (length A + ?s) (drop i V)"] il
    by (simp add: insert_message_def i_def [symmetric] sizes)
  define mem where "mem = pcache_realloc fresh (res_free_ptr r) (n + ?s)"
  obtain C where mem: "mem = A @ B @ C" "n + ?s \<le> length mem" "11 * allnet_mtu \<le> length mem"
    using realloc_run [OF h, of "n + ?s" fresh] AB by (auto simp: mem_def)
  obtain rest mem1 where mv_run: "(if length B > 0 then memmove mem (length A + ?s) (length A) (length B) else Some mem) = Some mem1"
    "put_bytes mem1 (length A) msg = Some (A @ msg @ B @ rest)" "length (A @ msg @ B @ rest) = length mem"
    using memory_run [OF mem(1), of msg] mem(2) n by auto
  let ?r = "\<lparr>res_messages = layout 0 (insert_message (msg, p) V), res_free_ptr = Some (A @ msg @ B @ rest)\<rparr>"
  have "add_to_result fresh r n msg p = Some (n + ?s, ?r)"
    unfolding add_to_result_def Let_def n(2) length_layout run prod.case mem_def [symmetric] cur mv mv_run(1) bind.simps mv_run(2) i' ms' pb
    by (rule refl)
  moreover have "holds ?r (n + ?s) (insert_message (msg, p) V)"
    using mv_run(3) mem(3) n by (simp add: holds_def insert_message_def i_def [symmetric] sizes A_def B_def)
  ultimately show ?thesis by blast
qed

section \<open>The result is sorted\<close>

definition best :: "(u8 list \<times> int) list \<Rightarrow> (u8 list \<times> int) list" where
  "best xs = sort_key (\<lambda>x. - snd x) xs"

lemma length_best [simp]: "length (best xs) = length xs"
  by (simp add: best_def)

lemma best_nth: "i \<le> j \<Longrightarrow> j < length xs \<Longrightarrow> snd (best xs ! j) \<le> snd (best xs ! i)"
  using sorted_nth_mono [of "map (\<lambda>x. - snd x) (best xs)" i j] by (simp add: best_def)

lemma place_splits:
  assumes "i \<le> place p (best xs)" and "i < length xs"
  shows "i = place p (best xs) \<or> p \<le> snd (best xs ! i)"
proof (cases "i = place p (best xs)")
  case False
  then have "\<not> snd (best xs ! (place p (best xs) - 1)) < p" "i \<le> place p (best xs) - 1" "place p (best xs) - 1 < length xs"
    using place_before [of p "best xs"] place_le [of p "best xs"] assms by (auto simp: best_def)
  then show ?thesis using best_nth [of i "place p (best xs) - 1" xs] by simp
qed simp

lemma insert_is_best: "insert_message x (best xs) = best (xs @ [x])"
proof -
  let ?f = "\<lambda>x :: u8 list \<times> int. - snd x" and ?p = "place (snd x) (best xs)"
  have len: "?p \<le> length xs" using place_le [of "snd x" "best xs"] by (simp add: best_def)
  have before: "snd x \<le> snd y" if y: "y \<in> set (take ?p (best xs))" for y
  proof -
    obtain i where i: "i < ?p" "y = best xs ! i" using y by (auto simp: in_set_conv_nth)
    then show ?thesis using len place_splits [of i "snd x" xs] by auto
  qed
  have after: "snd y < snd x" if "y \<in> set (drop ?p (best xs))" for y
    using that place_after [of "snd x" "best xs"] by (auto simp: in_set_conv_nth)
  have "sort_key ?f (xs @ [x]) = insert_message x (best xs)"
  proof (rule properties_for_sort_key)
    have "mset (insert_message x (best xs)) = add_mset x (mset (take ?p (best xs) @ drop ?p (best xs)))"
      by (simp add: insert_message_def del: append_take_drop_id)
    then show "mset (insert_message x (best xs)) = mset (xs @ [x])" by (simp add: best_def)
  next
    fix k
    have split: "filter (\<lambda>y. ?f k = ?f y) (take ?p (best xs)) @ filter (\<lambda>y. ?f k = ?f y) (drop ?p (best xs)) = filter (\<lambda>y. ?f k = ?f y) xs"
      using sort_key_stable [of ?f "?f k" xs] by (simp add: best_def eq_commute [of "snd k"] flip: filter_append)
    have "filter (\<lambda>y. ?f k = ?f y) (drop ?p (best xs)) = []" if "?f k = ?f x"
      using after that by (fastforce simp: filter_empty_conv)
    then show "filter (\<lambda>y. ?f k = ?f y) (insert_message x (best xs)) = filter (\<lambda>y. ?f k = ?f y) (xs @ [x])"
      using split by (auto simp: insert_message_def)
  next
    have "sorted (map ?f (take ?p (best xs)))" "sorted (map ?f (drop ?p (best xs)))"
      by (simp_all add: best_def sorted_wrt_take sorted_wrt_drop flip: take_map drop_map)
    then show "sorted (map ?f (insert_message x (best xs)))"
      using before after by (fastforce simp: insert_message_def sorted_append)
  qed
  then show ?thesis by (simp add: best_def)
qed

definition keep_best :: "nat \<Rightarrow> (u8 list \<times> int) list \<Rightarrow> (u8 list \<times> int) list" where
  "keep_best limit xs = (if limit > 0 then take limit (best xs) else best xs)"

lemma keep_best_step:
  assumes "0 < limit" and "limit \<le> length xs"
  shows "keep_best limit (xs @ [x]) =
    (if snd (last (keep_best limit xs)) \<ge> snd x then keep_best limit xs else insert_message x (butlast (keep_best limit xs)))"
proof -
  let ?S = "best xs" and ?p = "place (snd x) (best xs)"
  have len: "?p \<le> length xs" using place_le [of "snd x" ?S] by simp
  have last: "last (keep_best limit xs) = ?S ! (limit - 1)"
    using assms last_conv_nth [of "take limit ?S"] by (auto simp: keep_best_def min_def simp flip: length_greater_0_conv)
  have all: "best (xs @ [x]) = take ?p ?S @ x # drop ?p ?S" using insert_is_best [of x xs] by (simp add: insert_message_def)
  show ?thesis
  proof (cases "snd (?S ! (limit - 1)) \<ge> snd x")
    case True
    then have "limit \<le> ?p" using place_after [of "snd x" ?S "limit - 1"] assms by fastforce
    then show ?thesis using True assms len last by (simp add: keep_best_def all min_def)
  next
    case False
    then have p: "?p \<le> limit - 1"
      using place_splits [of "limit - 1" "snd x" xs] assms by (cases "limit - 1 \<le> ?p") auto
    have butlast: "butlast (keep_best limit xs) = take (limit - 1) ?S" using assms by (simp add: keep_best_def butlast_take)
    have "?p = place (snd x) (take (limit - 1) ?S)"
    proof (rule place_unique)
      show "?p \<le> length (take (limit - 1) ?S)" using p assms by simp
      show "snd (take (limit - 1) ?S ! j) < snd x" if "?p \<le> j" "j < length (take (limit - 1) ?S)" for j
        using place_after [OF that(1)] that(2) by simp
      show "\<not> snd (take (limit - 1) ?S ! (?p - 1)) < snd x" if "0 < ?p"
      proof -
        have "?p - 1 < limit - 1" using p that by linarith
        then show ?thesis using place_before [OF that] by simp
      qed
    qed
    from this [symmetric] have "insert_message x (butlast (keep_best limit xs)) = take (min ?p (limit - 1)) ?S @ x # drop ?p (take (limit - 1) ?S)"
      unfolding insert_message_def butlast by (simp only: take_take)
    then have "insert_message x (butlast (keep_best limit xs)) = take ?p ?S @ x # drop ?p (take (limit - 1) ?S)"
      using p by (simp only: min_absorb1)
    moreover have "take limit (best (xs @ [x])) = take ?p ?S @ x # take (limit - 1 - ?p) (drop ?p ?S)"
    proof -
      have "limit - ?p = Suc (limit - 1 - ?p)" "min limit ?p = ?p" using p assms(1) by linarith+
      then show ?thesis using len by (simp add: all)
    qed
    ultimately show ?thesis using False last assms by (simp add: keep_best_def drop_take)
  qed
qed

lemma keep_best_short: "limit = 0 \<or> length xs < limit \<Longrightarrow> keep_best limit (xs @ [x]) = insert_message x (keep_best limit xs)"
  using insert_is_best [of x xs] by (auto simp: keep_best_def)

lemma cond_add_run:
  assumes h: "holds r n V" and V: "V \<noteq> []"
  shows "\<exists>n' r'. cond_add_to_result fresh r n msg p = Some (n', r') \<and>
    holds r' n' (if snd (last V) \<ge> p then V else insert_message (msg, p) (butlast V))"
proof -
  have ms: "res_messages r = layout 0 (butlast V) @ layout (view_size (butlast V)) [last V]"
    using h V layout_append [of 0 "butlast V" "[last V]"] by (simp add: holds_def)
  have lst: "res_messages r \<noteq> []" "pm_priority (last (res_messages r)) = snd (last V)" "pm_msize (last (res_messages r)) = length (fst (last V))"
    "butlast (res_messages r) = layout 0 (butlast V)" using ms by (simp_all add: butlast_append)
  have n: "n - length (fst (last V)) = view_size (butlast V)"
  proof -
    have "view_size V = view_size (butlast V) + length (fst (last V))"
      using view_size_simps(3) [of "butlast V" "[last V]"] V by simp
    then show ?thesis using h by (simp add: holds_def)
  qed
  show ?thesis
  proof (cases "snd (last V) \<ge> p")
    case True
    then show ?thesis using h lst by (simp add: cond_add_to_result_def)
  next
    case False
    have "concat (map fst V) = concat (map fst (butlast V)) @ fst (last V)"
    proof -
      have "concat (map fst (butlast V @ [last V])) = concat (map fst (butlast V)) @ fst (last V)" by (simp del: append_butlast_last_id)
      then show ?thesis using append_butlast_last_id [OF V] by simp
    qed
    then have "holds (r\<lparr>res_messages := butlast (res_messages r)\<rparr>) (n - length (fst (last V))) (butlast V)"
      using h V n lst(4) by (auto simp: holds_def split: option.splits)
    from add_to_result_run [OF this, of fresh msg p] show ?thesis using False lst by (auto simp: cond_add_to_result_def)
  qed
qed

lemma keep_best_run:
  assumes h: "holds r n (keep_best limit xs)"
  shows "\<exists>n' r'. (if limit > 0 \<and> length (res_messages r) \<ge> limit then cond_add_to_result fresh r n msg p else add_to_result fresh r n msg p) = Some (n', r') \<and>
    holds r' n' (keep_best limit (xs @ [(msg, p)]))"
proof -
  have len: "length (res_messages r) = (if limit > 0 then min (length xs) limit else length xs)"
    using h by (simp add: holds_def keep_best_def)
  show ?thesis
  proof (cases "limit > 0 \<and> length (res_messages r) \<ge> limit")
    case True
    then have "0 < limit" "limit \<le> length xs" using len by auto
    moreover from this have "length (keep_best limit xs) = limit" by (simp add: keep_best_def)
    moreover from this have "keep_best limit xs \<noteq> []" using \<open>0 < limit\<close> by force
    ultimately show ?thesis using True cond_add_run [OF h, of fresh msg p] keep_best_step [of limit xs "(msg, p)"] by simp
  next
    case False
    then show ?thesis using add_to_result_run [OF h, of fresh msg p] keep_best_short [of limit xs "(msg, p)"] len by (auto split: if_splits)
  qed
qed

section \<open>What a request returns\<close>

text \<open>
  Whether a message is wanted: it matches, it has not expired, and it has not been sent for the token.
  \<open>None\<close> when the bitmaps of the request are too short.
\<close>

definition wanted :: "int \<Rightarrow> u8 list \<Rightarrow> pcache \<Rightarrow> message_header \<Rightarrow> bool option" where
  "wanted now req st mh = do {
     let token = take allnet_token_size req;
     zero_since \<leftarrow> memget (take allnet_time_size (drop allnet_token_size req)) 0 allnet_time_size;
     matching \<leftarrow> (if req ! 24 = 0 \<and> req ! 25 = 0 \<and> req ! 26 = 0 \<and> zero_since then Some True
       else matches_data_request (get_details req) (mh_message mh));
     if \<not> matching then Some False
     else do {
       expired \<leftarrow> is_expired_message now (mh_message mh);
       no_token \<leftarrow> memget token 0 allnet_token_size;
       Some (\<not> expired \<and> (no_token \<or> (\<forall>i. token_position token st = Some i \<longrightarrow> \<not> bit (mh_sent_to_tokens mh) i)))
     }
   }"

text \<open>The messages of a result, as bytes and priorities.\<close>

definition result_view :: "pcache_result \<Rightarrow> (u8 list \<times> int) list" where
  "result_view r = map (\<lambda>m. (take (pm_msize m) (drop (pm_offset m) (case res_free_ptr r of None \<Rightarrow> [] | Some mem \<Rightarrow> mem)), pm_priority m))
     (res_messages r)"

lemma layout_view: "map (\<lambda>m. (take (pm_msize m) (drop (pm_offset m) (pre @ concat (map fst V) @ rest)), pm_priority m)) (layout (length pre) V) = V"
proof (induction V arbitrary: pre)
  case (Cons x V)
  show ?case using Cons.IH [of "pre @ fst x"] by simp
qed simp

lemma holds_view: "holds r n V \<Longrightarrow> result_view r = V"
  using layout_view [of "[]" V] by (auto simp: holds_def result_view_def split: option.splits)

definition candidate :: "message_header \<Rightarrow> u8 list \<times> int" where
  "candidate mh = (mh_message mh, sint (mh_priority mh))"

lemma wanted_cases:
  assumes w: "wanted now req st mh = Some b"
    and since: "memget (take allnet_time_size (drop allnet_token_size req)) 0 allnet_time_size = Some z"
  obtains (other) "(if req ! 24 = 0 \<and> req ! 25 = 0 \<and> req ! 26 = 0 \<and> z then Some True else matches_data_request (get_details req) (mh_message mh)) = Some False" "\<not> b"
  | (match) expired no_token where
    "(if req ! 24 = 0 \<and> req ! 25 = 0 \<and> req ! 26 = 0 \<and> z then Some True else matches_data_request (get_details req) (mh_message mh)) = Some True"
    "is_expired_message now (mh_message mh) = Some expired" "memget (take allnet_token_size req) 0 allnet_token_size = Some no_token"
    "b = (\<not> expired \<and> (no_token \<or> (\<forall>i. token_position (take allnet_token_size req) st = Some i \<longrightarrow> \<not> bit (mh_sent_to_tokens mh) i)))"
proof -
  define M where "M = (if req ! 24 = 0 \<and> req ! 25 = 0 \<and> req ! 26 = 0 \<and> z then Some True else matches_data_request (get_details req) (mh_message mh))"
  have w': "bind M (\<lambda>matching. if \<not> matching then Some False
     else do {
       expired \<leftarrow> is_expired_message now (mh_message mh);
       no_token \<leftarrow> memget (take allnet_token_size req) 0 allnet_token_size;
       Some (\<not> expired \<and> (no_token \<or> (\<forall>i. token_position (take allnet_token_size req) st = Some i \<longrightarrow> \<not> bit (mh_sent_to_tokens mh) i)))
     }) = Some b"
    using w since by (simp add: wanted_def M_def Let_def)
  then obtain m where m: "M = Some m" by (cases M) auto
  show thesis
  proof (cases m)
    case False
    then show thesis using w' m other unfolding M_def by auto
  next
    case True
    then show thesis using w' m match unfolding M_def [symmetric] by (auto simp: bind_eq_Some_conv)
  qed
qed

lemma request_step_run:
  assumes h: "holds r n (keep_best limit xs)"
    and known: "memget (take allnet_token_size req) 0 allnet_token_size = Some True \<or> token_position (take allnet_token_size req) st \<noteq> None"
    and since: "memget (take allnet_time_size (drop allnet_token_size req)) 0 allnet_time_size = Some z"
    and w: "wanted now req st mh = Some b"
  shows "\<exists>r' n'. request_step fresh now req limit (req ! 24 = 0 \<and> req ! 25 = 0 \<and> req ! 26 = 0 \<and> z) mh (r, n, st) = Some (r', n', st) \<and>
    holds r' n' (keep_best limit (xs @ (if b then [candidate mh] else [])))"
proof -
  obtain n' r' where add: "(if limit > 0 \<and> length (res_messages r) \<ge> limit then cond_add_to_result fresh r n (mh_message mh) (sint (mh_priority mh))
      else add_to_result fresh r n (mh_message mh) (sint (mh_priority mh))) = Some (n', r')"
    "holds r' n' (keep_best limit (xs @ [candidate mh]))"
    using keep_best_run [OF h, of fresh "mh_message mh" "sint (mh_priority mh)"] by (auto simp: candidate_def)
  show ?thesis using w since
  proof (cases rule: wanted_cases)
    case other
    then show ?thesis using h by (simp add: request_step_def Let_def)
  next
    case (match expired no_token)
    show ?thesis
    proof (cases expired)
      case True
      then show ?thesis using h match by (simp add: request_step_def Let_def)
    next
      case False
      show ?thesis
      proof (cases no_token)
        case True
        then show ?thesis using False match add by (simp add: request_step_def Let_def)
      next
        case no: False
        then obtain i where i: "token_position (take allnet_token_size req) st = Some i" using known match(3) by auto
        have tok: "token_to_send_to now (take allnet_token_size req) (mh_sent_to_tokens mh) st =
            Some (if bit (mh_sent_to_tokens mh) i then - 1 else int i, st)"
          using i bit_iff_and_push_bit_not_eq_0 [of "mh_sent_to_tokens mh" i] by (simp add: token_to_send_to_def)
        show ?thesis
        proof (cases "bit (mh_sent_to_tokens mh) i")
          case True
          then show ?thesis using False no match i tok h by (simp add: request_step_def Let_def)
        next
          case unsent: False
          then show ?thesis using False no match i tok add by (simp add: request_step_def Let_def)
        qed
      qed
    qed
  qed
qed

lemma request_steps_run:
  assumes known: "memget (take allnet_token_size req) 0 allnet_token_size = Some True \<or> token_position (take allnet_token_size req) st \<noteq> None"
    and since: "memget (take allnet_time_size (drop allnet_token_size req)) 0 allnet_time_size = Some z"
  shows "holds r n (keep_best limit xs) \<Longrightarrow> \<forall>mh \<in> set ms. wanted now req st mh \<noteq> None \<Longrightarrow>
    \<exists>r' n'. each (request_step fresh now req limit (req ! 24 = 0 \<and> req ! 25 = 0 \<and> req ! 26 = 0 \<and> z)) ms (r, n, st) = Some (r', n', st) \<and>
      holds r' n' (keep_best limit (xs @ map candidate (filter (\<lambda>mh. wanted now req st mh = Some True) ms)))"
proof (induction ms arbitrary: r n xs)
  case (Cons mh ms)
  obtain b where b: "wanted now req st mh = Some b" using Cons.prems(2) by auto
  obtain r' n' where s: "request_step fresh now req limit (req ! 24 = 0 \<and> req ! 25 = 0 \<and> req ! 26 = 0 \<and> z) mh (r, n, st) = Some (r', n', st)"
    "holds r' n' (keep_best limit (xs @ (if b then [candidate mh] else [])))"
    using request_step_run [OF Cons.prems(1) known since b] by blast
  have "\<forall>mh \<in> set ms. wanted now req st mh \<noteq> None" using Cons.prems(2) by simp
  from Cons.IH [OF s(2) this] show ?case using s(1) b by (cases b) simp_all
qed simp

lemma memget_total: "n \<le> length xs \<Longrightarrow> memget xs c n \<noteq> None"
  unfolding memget_def by (auto split: if_splits)

lemma request_run:
  assumes len: "data_request_size \<le> length req"
    and known: "memget (take allnet_token_size req) 0 allnet_token_size = Some True \<or> token_position (take allnet_token_size req) st \<noteq> None"
    and w: "\<forall>mh \<in> set (concat (message_table st)). wanted now req st mh \<noteq> None"
  shows "\<exists>r. pcache_request fresh now req limit st = Some (r, st) \<and>
    result_view r = keep_best limit (map candidate (filter (\<lambda>mh. wanted now req st mh = Some True) (concat (message_table st))))"
proof -
  have "allnet_time_size \<le> length (take allnet_time_size (drop allnet_token_size req))"
    using len by (simp add: data_request_size_def allnet_time_size_def allnet_token_size_def message_id_size_def)
  then obtain z where z: "memget (take allnet_time_size (drop allnet_token_size req)) 0 allnet_time_size = Some z"
    using memget_total by blast
  have "holds \<lparr>res_messages = [], res_free_ptr = None\<rparr> 0 (keep_best limit [])" by (simp add: holds_def keep_best_def best_def)
  from request_steps_run [OF known z this w, of fresh] obtain r n
    where run: "each (request_step fresh now req limit (req ! 24 = 0 \<and> req ! 25 = 0 \<and> req ! 26 = 0 \<and> z)) (concat (message_table st))
        (\<lparr>res_messages = [], res_free_ptr = None\<rparr>, 0, st) = Some (r, n, st)"
      and h: "holds r n (keep_best limit (map candidate (filter (\<lambda>mh. wanted now req st mh = Some True) (concat (message_table st)))))"
    by auto
  have "\<not> (limit > 0 \<and> length (res_messages r) > limit)" using h by (auto simp: holds_def keep_best_def)
  then have "(if limit > 0 \<and> length (res_messages r) > limit then take limit (res_messages r) else res_messages r) = res_messages r" by auto
  then have "pcache_request fresh now req limit st = Some (r, st)"
    using run z len by (simp add: pcache_request_def Let_def)
  then show ?thesis using holds_view [OF h] by blast
qed

section \<open>The bits that a request looks at\<close>

lemma scan_same:
  assumes "\<forall>i \<le> n. bitmap_bit pow2 (first16 + int i) bitmap = bitmap_bit pow2 first16 bitmap"
  shows "scan_bitmap pow2 first16 bitmap (Suc n) = map_option (\<lambda>b. b = Some True) (bitmap_bit pow2 first16 bitmap)"
  using assms
proof (induction n arbitrary: first16)
  case 0
  then show ?case by (auto split: option.splits bool.splits simp: bind_eq_None_conv bind_eq_Some_conv split: bind_splits)
next
  case (Suc n)
  have one: "bitmap_bit pow2 (first16 + 1) bitmap = bitmap_bit pow2 first16 bitmap" using Suc.prems [rule_format, of 1] by simp
  have "bitmap_bit pow2 (first16 + 1 + int i) bitmap = bitmap_bit pow2 (first16 + 1) bitmap" if "i \<le> n" for i
    using Suc.prems [rule_format, of "Suc i"] that one by (simp add: ac_simps)
  then have "scan_bitmap pow2 (first16 + 1) bitmap (Suc n) = map_option (\<lambda>b. b = Some True) (bitmap_bit pow2 first16 bitmap)"
    using Suc.IH [of "first16 + 1"] one by simp
  moreover have "scan_bitmap pow2 first16 bitmap (Suc (Suc n)) = do {
      b \<leftarrow> bitmap_bit pow2 first16 bitmap;
      (case b of None \<Rightarrow> Some False | Some True \<Rightarrow> Some True | Some False \<Rightarrow> scan_bitmap pow2 (first16 + 1) bitmap (Suc n))
    }" by (rule scan_bitmap.simps(2))
  ultimately show ?case by (auto split: option.splits bool.splits split: bind_splits)
qed

lemma clear_low: "x AND NOT (2 ^ k - 1) = (x div 2 ^ k) * 2 ^ k" for x :: int
proof -
  have "x AND NOT (mask k) = push_bit k (drop_bit k x)"
    by (rule bit_eqI) (auto simp: bit_and_iff bit_not_iff bit_mask_iff bit_push_bit_iff bit_drop_bit_eq)
  then show ?thesis by (simp add: mask_eq_exp_minus_1 push_bit_eq_mult drop_bit_eq_div)
qed

lemma same_place:
  assumes p: "0 < p" "p \<le> 16" "nbits < p" "p - nbits \<le> 16 - p" and i: "i < 2 ^ (p - nbits)"
    and f: "f = x AND NOT (2 ^ (16 - nbits) - 1)" "0 \<le> x" "x < 65536"
  shows "bitmap_bit (int p) (f + int i) bitmap = bitmap_bit (int p) f bitmap"
proof -
  have e: "f = (x div 2 ^ (16 - nbits)) * 2 ^ (16 - nbits)" unfolding f(1) by (rule clear_low)
  have "f \<le> x" unfolding e using pos_mod_sign [of "2 ^ (16 - nbits)" x] div_mult_mod_eq [of x "2 ^ (16 - nbits)"] zero_less_power [of "2 :: int" "16 - nbits"] by linarith
  then have f_range: "0 \<le> f" "f < 65536" using f unfolding e by auto
  have "i < 2 ^ (16 - p)" by (rule less_le_trans [OF i]) (rule power_increasing [OF p(4)], simp)
  then have i16: "int i < 2 ^ (16 - p)" by (metis of_nat_less_iff of_nat_numeral of_nat_power)
  have "16 - nbits = (p - nbits) + (16 - p)" using p by simp
  then have e2: "f = (x div 2 ^ (16 - nbits) * 2 ^ (p - nbits)) * 2 ^ (16 - p)" unfolding e by (simp add: power_add)
  obtain c where c: "f = c * 2 ^ (16 - p)" using e2 by blast
  have same: "(f + int i) div 2 ^ (16 - p) = f div 2 ^ (16 - p)" using i16 by (simp add: c)
  have "(65536 :: int) = 2 ^ p * 2 ^ (16 - p)" using p by (simp flip: power_add)
  then have "c * 2 ^ (16 - p) < 2 ^ p * 2 ^ (16 - p)" using f_range(2) unfolding c by simp
  then have "c < 2 ^ p" by (rule mult_right_less_imp_less) simp
  then have "(c + 1) * 2 ^ (16 - p) \<le> 2 ^ p * 2 ^ (16 - p)" by (intro mult_right_mono) simp_all
  then have "c * 2 ^ (16 - p) + 2 ^ (16 - p) \<le> 65536" using \<open>(65536 :: int) = 2 ^ p * 2 ^ (16 - p)\<close> by (simp add: distrib_right)
  then have "f + int i < 65536" using i16 unfolding c by linarith
  moreover have "nat (16 - int p) = 16 - p" by simp
  ultimately show ?thesis
    using f_range p same
    by (simp add: bitmap_bit_def allnet_bitmap_byte_index_def allnet_bitmap_byte_mask_def compute_index_mask_value)
qed

lemma uint_readb16: "uint (readb16 (Some q)) < 65536"
proof -
  have "take_bit 16 (readb16 (Some q)) = readb16 (Some q)"
    by (rule bit_eqI) (auto simp: readb16_def bit_take_bit_iff bit_or_iff bit_push_bit_iff bit_unsigned_iff dest: bit_imp_le_length)
  then have "uint (readb16 (Some q)) = take_bit 16 (uint (readb16 (Some q)))" by (metis unsigned_take_bit_eq)
  also have "\<dots> < 2 ^ 16" by (rule take_bit_int_less_exp)
  finally show ?thesis by simp
qed

lemma matches_req_run:
  assumes "0 < p" "p \<le> 16" "0 < nbits" "nbits \<le> 64" "bits < allnet_mtu * 8" "nbits < p \<Longrightarrow> p - nbits \<le> 16 - p"
  shows "matches_req nbits address p bits (Some bitmap) = map_option (\<lambda>b. b = Some True)
    (bitmap_bit (int p) (if nbits < 16 then uint (readb16 (Some address)) AND NOT (2 ^ (16 - nbits) - 1) else uint (readb16 (Some address))) bitmap)"
proof -
  let ?x = "uint (readb16 (Some address))"
  have x: "0 \<le> ?x" "?x < 65536" using uint_readb16 [of address] by simp_all
  define f where "f = (if nbits < 16 then ?x AND NOT (2 ^ (16 - nbits) - 1) else ?x)"
  define loops where "loops = (if nbits \<ge> p then 1 else 2 ^ (p - nbits) :: nat)"
  have "0 < loops" by (simp add: loops_def)
  then obtain n where n: "loops = Suc n" by (cases loops) auto
  have "bitmap_bit (int p) (f + int i) bitmap = bitmap_bit (int p) f bitmap" if "i \<le> n" for i
  proof (cases "p \<le> nbits")
    case True
    then show ?thesis using n that by (simp add: loops_def)
  next
    case False
    then have "i < 2 ^ (p - nbits)" "nbits < 16" using n that assms by (simp_all add: loops_def)
    then show ?thesis using same_place [OF assms(1,2) _ _ \<open>i < 2 ^ (p - nbits)\<close> _ x] False assms(6) by (simp add: f_def)
  qed
  then have "scan_bitmap (int p) f bitmap (Suc n) = map_option (\<lambda>b. b = Some True) (bitmap_bit (int p) f bitmap)" by (intro scan_same) blast
  then show ?thesis using assms unfolding matches_req_def by (simp add: f_def [symmetric] loops_def [symmetric] n Let_def)
qed

end
