(* ===== verification/CacheProps.thy ===== *)
theory CacheProps
  imports CacheRequest
begin

text \<open>
  The properties of the cache in \<open>PacketCache\<close>: consistency over every history of calls, packets that
  are saved are found, what a collection keeps, acknowledgements and tokens, what a collection does to
  the marks of the tokens, and what a data request returns.
\<close>

section \<open>Histories\<close>

text \<open>One call of a function of the cache, at any time.\<close>

inductive cache_step :: "pcache \<Rightarrow> pcache \<Rightarrow> bool" where
  save: "pcache_save_packet now message priority st = Some st' \<Longrightarrow> cache_step st st'"
| record_packet: "pcache_record_packet message st = Some st' \<Longrightarrow> cache_step st st'"
| lookup: "pcache_id_found pid st = (f, st') \<Longrightarrow> cache_step st st'"
| acks: "pcache_save_acks now acks hop_count st = Some st' \<Longrightarrow> cache_step st st'"
| send_acks: "pcache_acks_for_token now token acks st = Some (acks', n, st') \<Longrightarrow> cache_step st st'"
| mark: "pcache_mark_token_sent now token message st = Some st' \<Longrightarrow> cache_step st st'"
| send_ack: "pcache_ack_for_token now token ack st = Some (ok, st') \<Longrightarrow> cache_step st st'"
| request: "pcache_request fresh now req limit st = Some (r, st') \<Longrightarrow> cache_step st st'"
| trace_request: "pcache_trace_request pid st = (f, st') \<Longrightarrow> cache_step st st'"
| trace_reply: "pcache_trace_reply message st = Some (f, st') \<Longrightarrow> cache_step st st'"

lemma request_step_ok:
  assumes "request_step fresh now req limit match_all mh s = Some s'" and "cache_ok (snd (snd s))"
  shows "cache_ok (snd (snd s'))"
proof -
  obtain result n st where s: "s = (result, n, st)" by (cases s)
  consider "snd (snd s') = st"
    | itoken st' where "token_to_send_to now (take allnet_token_size req) (mh_sent_to_tokens mh) st = Some (itoken, st')" "snd (snd s') = st'"
    using assms(1) by (auto simp: request_step_def s Let_def bind_eq_Some_conv split: if_splits)
  then show ?thesis
  proof cases
    case (2 itoken st')
    then show ?thesis using token_to_send_to_cases(1) [OF 2(1)] assms(2) by (simp add: s)
  qed (use assms(2) in \<open>simp add: s\<close>)
qed

lemma request_ok:
  assumes "pcache_request fresh now req limit st = Some (r, st')" and "cache_ok st"
  shows "cache_ok st'"
proof -
  obtain match_all result n where
    run: "each (request_step fresh now req limit match_all) (concat (message_table st)) (\<lparr>res_messages = [], res_free_ptr = None\<rparr>, 0, st) = Some (result, n, st')"
    using assms(1) by (auto simp: pcache_request_def Let_def bind_eq_Some_conv split: if_splits)
  have "cache_ok (snd (snd (result, n, st')))"
    by (rule each_inv [OF run, of "\<lambda>s. cache_ok (snd (snd s))"]) (auto dest: request_step_ok simp: assms(2))
  then show ?thesis by simp
qed

lemma step_ok: "cache_step st st' \<Longrightarrow> cache_ok st \<Longrightarrow> cache_ok st'"
proof (induction rule: cache_step.induct)
  case (record_packet message st st')
  then show ?case by (auto simp: pcache_record_packet_def bind_eq_Some_conv split: option.splits)
next
  case (lookup pid st f st')
  obtain f' b where "pcache_id_found pid st = (f', st\<lparr>blooms := b\<rparr>)" using found_frame by blast
  then show ?case using lookup by simp
next
  case (trace_request pid st f st')
  then show ?case by (auto simp: pcache_trace_request_def in_bloom_def case_prod_beta split: if_splits)
next
  case (trace_reply message st f st')
  then show ?case by (auto simp: pcache_trace_reply_def in_bloom_def case_prod_beta bind_eq_Some_conv split: if_splits)
qed (auto dest: save_packet_ok save_acks_ok acks_for_token_ok mark_token_ok ack_for_token_ok request_ok)

inductive cache_run :: "pcache \<Rightarrow> pcache \<Rightarrow> bool" where
  start: "cache_run st st"
| step: "cache_run st st' \<Longrightarrow> cache_step st' st'' \<Longrightarrow> cache_run st st''"

lemma cache_run_ok: "cache_run st st' \<Longrightarrow> cache_ok st \<Longrightarrow> cache_ok st'"
  by (induction rule: cache_run.induct) (auto dest: step_ok)

lemma scratch_ok:
  assumes "initialize_from_scratch n num_acks st = Some st'" and "0 < n" and "slots_ok (random_slots st)"
  shows "cache_ok st'"
proof -
  define k where "k = (if num_acks < 100 then default_num_acks else num_acks)"
  have "acks_per_slot \<le> k" by (simp add: k_def default_num_acks_def acks_per_slot_def)
  then have len: "0 < k - k mod acks_per_slot" "(k - k mod acks_per_slot) mod acks_per_slot = 0"
    using mod_less_divisor [of acks_per_slot k] by (simp_all add: acks_per_slot_def)
  have "acks_ok (replicate (k - k mod acks_per_slot) no_ack)"
    using len by (simp add: acks_ok_def no_ack_def)
  moreover have "messages_ok (replicate n [])"
    using assms(2) by (simp add: messages_ok_def entry_ok_def)
  moreover have "tokens_ok st'" "slots_ok (random_slots st')" "message_table st' = replicate n []"
    "ack_table st' = replicate (k - k mod acks_per_slot) no_ack"
    using assms
    by (auto simp: initialize_from_scratch_def reinit_local_token_def bind_eq_Some_conv tokens_ok_def k_def [symmetric] Let_def split: list.splits)
  ultimately show ?thesis by (simp add: cache_ok_def)
qed

section \<open>Looking up what was saved\<close>

lemma bloom_found_again:
  assumes "pid_is_in_bloom pid sel b = (True, b')" and "sel < pid_filter_selectors"
  shows "fst (pid_is_in_bloom pid sel b')"
proof -
  consider "b' = bloom_init b" | "b' = pid_add_to_bloom pid sel (bloom_init b)" using lookup_cases [of pid sel b] assms(1) by auto
  then show ?thesis
  proof cases
    case 1
    then show ?thesis using assms(1) found_iff [of pid sel b] found_iff [of pid sel b'] by simp
  next
    case 2
    let ?a = "of_bool (add_advances pid sel (bloom_init b)) :: nat"
    have "in_filter (pid_add_to_bloom pid sel (bloom_init b)) pid sel (0 + ?a)"
      by (rule in_filter_add [OF _ assms(2) in_filter_added]) (simp_all add: num_filters_def)
    moreover have "0 + ?a < num_filters" by (simp add: num_filters_def)
    moreover have "bloom_init b' = b'" unfolding 2 by (rule bloom_init_id) (rule add_initialized, simp)
    ultimately show ?thesis unfolding found_iff using 2 by metis
  qed
qed

lemma found_iff_state:
  "fst (pcache_id_found pid st) \<longleftrightarrow> fst (pid_is_in_bloom pid pid_message_filter (blooms st)) \<or>
     pid \<in> mh_id ` set (message_table st ! entry_index pid st)"
proof -
  have "fst (pcache_id_found_delete pid False (st\<lparr>blooms := b\<rparr>)) = message_position pid (message_table st ! entry_index pid st)" for b
    by (simp add: pcache_id_found_delete_def entry_index_def Let_def split: option.splits)
  then show ?thesis using message_position_None [of pid "message_table st ! entry_index pid st"]
    by (auto simp: pcache_id_found_def in_bloom_def case_prod_beta)
qed

lemma found_again:
  assumes "pcache_id_found pid st = (True, st')"
  shows "fst (pcache_id_found pid st')"
proof -
  obtain f b where b: "pid_is_in_bloom pid pid_message_filter (blooms st) = (f, b)" by (cases "pid_is_in_bloom pid pid_message_filter (blooms st)")
  then have st': "st' = st\<lparr>blooms := b\<rparr>" using assms by (auto simp: pcache_id_found_def in_bloom_def split: if_splits)
  show ?thesis
  proof (cases f)
    case True
    then show ?thesis using bloom_found_again [of pid pid_message_filter "blooms st" b] b
      by (simp add: found_iff_state st' pid_message_filter_def pid_filter_selectors_def)
  next
    case False
    have "fst (pcache_id_found pid st)" using assms by simp
    then have "pid \<in> mh_id ` set (message_table st ! entry_index pid st)" using b False by (simp add: found_iff_state)
    then show ?thesis by (simp add: found_iff_state st' entry_index_def)
  qed
qed

lemma save_packet_run:
  assumes ok: "cache_ok st" and size: "length message \<le> allnet_mtu" and pid: "pcache_message_id message = Some (Some pid)"
    and rnd: "blocks (length (ack_table st) div acks_per_slot) (random_slots st)" "random_tokens st \<noteq> []"
  shows "\<exists>st'. pcache_save_packet now message priority st = Some st' \<and> fst (pcache_id_found pid st')"
proof -
  obtain f b where f: "pcache_id_found pid st = (f, st\<lparr>blooms := b\<rparr>)" using found_frame by blast
  show ?thesis
  proof (cases f)
    case True
    then show ?thesis using f pid found_again [of pid st] by (simp add: pcache_save_packet_def)
  next
    case False
    define st1 where "st1 = st\<lparr>blooms := b\<rparr>"
    have ok1: "cache_ok st1" using ok by (simp add: st1_def)
    define i where "i = entry_index pid st1"
    note ix = index_less [OF ok1, of pid, folded i_def]
    obtain off st2 where st2: "(if bytes_used_for_entry (message_table st1 ! i) + message_header_size + length message > message_storage_size
          then do_gc now (Some i) (length message) st1 else Some (bytes_used_for_entry (message_table st1 ! i), st1)) = Some (off, st2)"
      and fit: "off + message_header_size + length message \<le> message_storage_size" "off = bytes_used_for_entry (message_table st2 ! i)"
      and len: "length (message_table st2) = length (message_table st1)"
    proof (cases "bytes_used_for_entry (message_table st1 ! i) + message_header_size + length message > message_storage_size")
      case True
      obtain off st2 where gc: "do_gc now (Some i) (length message) st1 = Some (off, st2)"
        using do_gc_returns [OF entries_fit [OF ok1], of now "Some i" "length message"] ok1 rnd by (auto simp: st1_def cache_ok_def)
      note g = gc_done_entry [OF do_gc_ok(1) [OF gc ok1] ix(1)]
      have "off + length message + message_header_size \<le> message_storage_size \<or> message_table st2 ! i = []"
        using gc_result_ids(3) [OF g(3)] g(2) by simp
      then have "off + message_header_size + length message \<le> message_storage_size"
        using g(2) size by (auto simp: message_storage_size_def)
      then show ?thesis using that gc True g by simp
    next
      case False
      then show ?thesis using that by simp
    qed
    let ?m = "\<lparr>mh_id = pid, mh_priority = of_int priority, mh_sent_to_tokens = 0, mh_message = message\<rparr>"
    let ?st' = "st2\<lparr>message_table := (message_table st2)[i := message_table st2 ! i @ [?m]]\<rparr>"
    have "pcache_save_packet now message priority st = Some ?st'"
      using False f pid st2 fit unfolding pcache_save_packet_def
      by (auto simp: st1_def [symmetric] i_def [symmetric] Let_def)
    moreover have "entry_index pid ?st' = i" using len by (simp add: entry_index_def i_def)
    then have "fst (pcache_id_found pid ?st')" using ix(1) len by (simp add: found_iff_state)
    ultimately show ?thesis by blast
  qed
qed

section \<open>Shifting the marks\<close>

lemma eight_cases: "q < 8 \<Longrightarrow> q = 0 \<or> q = 1 \<or> q = 2 \<or> q = 3 \<or> q = 4 \<or> q = 5 \<or> q = 6 \<or> q = (7 :: nat)"
  by linarith

lemma bit_byte_beyond: "8 \<le> j \<Longrightarrow> \<not> bit (b :: u8) j"
  by (auto dest: bit_imp_le_length)

lemma bit_readb64:
  assumes "q < 8" and "r < 8"
  shows "bit (readb64 (Some p)) (8 * q + r) \<longleftrightarrow> bit (p ! (7 - q)) r"
  using eight_cases [OF assms(1)] assms(2)
  by (elim disjE) (simp_all add: readb64_def bit_or_iff bit_push_bit_iff bit_unsigned_iff bit_byte_beyond)

lemma bit_memory_value:
  assumes "q < 8" and "r < 8"
  shows "bit (memory_value p) (8 * q + r) \<longleftrightarrow> bit (p ! q) r"
proof -
  have "[0..<8] = [0, 1, 2, 3, 4, 5, 6, 7 :: nat]" by (simp add: upt_rec)
  then show ?thesis using eight_cases [OF assms(1)] assms(2)
    by (elim disjE) (simp_all add: memory_value_def bit_or_iff bit_push_bit_iff bit_unsigned_iff bit_byte_beyond)
qed

lemma memory_bytes_nth: "k < 8 \<Longrightarrow> r < 8 \<Longrightarrow> bit (memory_bytes v ! k) r \<longleftrightarrow> bit v (8 * k + r)"
  by (simp add: memory_bytes_def bit_unsigned_iff bit_drop_bit_eq)

lemma writeb64_nth:
  assumes "k < 8" and "length p = 8" and "r < 8"
  shows "bit (the (writeb64 (Some p) v) ! k) r \<longleftrightarrow> bit v (8 * (7 - k) + r)"
proof -
  have "(0xff :: u64) = mask 8" by (simp add: mask_eq_exp_minus_1)
  moreover have "bit (mask 8 :: u64) r" unfolding bit_mask_iff using assms(3) by simp
  ultimately have "bit (0xff :: u64) r" by (simp only:)
  then show ?thesis using eight_cases [OF assms(1)] assms(2,3)
    by (elim disjE) (simp_all add: writeb64_def bit_unsigned_iff bit_and_iff bit_drop_bit_eq)
qed

lemma bit_shift_token:
  assumes "k < 64"
  shows "bit (shift_token v 16) k \<longleftrightarrow> 16 \<le> k \<and> bit v (k - 16)"
proof -
  define q r where "q = k div 8" and "r = k mod 8"
  have k: "k = 8 * q + r" "q < 8" "r < 8" using assms by (simp_all add: q_def r_def)
  define t where "t = drop_bit 16 (readb64 (Some (memory_bytes v))) AND NOT (push_bit (64 - 16) (- 1 :: u64))"
  have len: "length (memory_bytes v) = 8" by (simp add: memory_bytes_def)
  have "bit (shift_token v 16) k \<longleftrightarrow> bit (the (writeb64 (Some (memory_bytes v)) t) ! q) r"
    using bit_memory_value [OF k(2,3)] by (simp add: shift_token_def t_def k(1))
  also have "\<dots> \<longleftrightarrow> bit t (8 * (7 - q) + r)" by (rule writeb64_nth [OF k(2) len k(3)])
  also have "\<dots> \<longleftrightarrow> 2 \<le> q \<and> bit (readb64 (Some (memory_bytes v))) (8 * (7 - (q - 2)) + r)"
    using eight_cases [OF k(2)] k(3)
    by (elim disjE) (simp_all add: t_def bit_and_iff bit_drop_bit_eq bit_not_iff bit_push_bit_iff bit_minus_1_iff bit_mask_iff bit_byte_beyond)
  also have "\<dots> \<longleftrightarrow> 2 \<le> q \<and> bit v (8 * (q - 2) + r)"
    using bit_readb64 [of "7 - (q - 2)" r "memory_bytes v"] memory_bytes_nth [of "q - 2" r v] k(2,3) by auto
  also have "\<dots> \<longleftrightarrow> 16 \<le> k \<and> bit v (k - 16)" using k by (auto simp: diff_mult_distrib2)
  finally show ?thesis .
qed

section \<open>Acknowledgements\<close>

lemma found_delete_frame [simp]:
  "ack_table (snd (pcache_id_found_delete pid d st)) = ack_table st"
  "token_list (snd (pcache_id_found_delete pid d st)) = token_list st"
  by (auto simp: pcache_id_found_delete_def Let_def split: option.splits)

lemma found_delete_gone:
  assumes ok: "cache_ok st"
  shows "pid \<notin> mh_id ` set (message_table (snd (pcache_id_found_delete pid True st)) ! entry_index pid (snd (pcache_id_found_delete pid True st)))"
proof -
  note ix = index_less [OF ok, of pid]
  let ?hp = "message_table st ! entry_index pid st"
  show ?thesis
  proof (cases "message_position pid ?hp")
    case None
    then show ?thesis using message_position_None [of pid ?hp] by (simp add: pcache_id_found_delete_def Let_def)
  next
    case (Some j)
    have "j < length ?hp" "mh_id (?hp ! j) = pid" using message_position_Some [OF Some] by simp_all
    then have "pid \<notin> mh_id ` set (delete_message_entry j ?hp)" using delete_entry(4) [of j ?hp] ix(3) by (auto simp: entry_ok_def)
    then show ?thesis using Some ix(1) by (simp add: pcache_id_found_delete_def Let_def entry_index_def)
  qed
qed

lemma find_one_ack_at:
  assumes ok: "cache_ok st" and j: "j < length (ack_table st)" "ack_used (ack_table st ! j)" "ack_id (ack_table st ! j) = pid"
  shows "find_one_ack pid st = Some j"
proof (cases "find_one_ack pid st")
  case None
  then show ?thesis using find_one_ack_None [OF None ok j(1,2)] j(3) by simp
next
  case (Some k)
  note k = find_one_ack_Some [OF Some ok]
  then have "k = j" using ok j unfolding cache_ok_def acks_ok_def by blast
  then show ?thesis using Some by simp
qed

lemma save_one_ack_run:
  assumes run: "save_one_ack now ack hop_count st = Some (j, st')" and ok: "cache_ok st"
    and fresh: "\<not> fst (in_bloom ack pid_ack_filter st)" and pid: "id_of_ack ack = Some pid"
  shows "(\<exists>a. pcache_id_acked pid st' = Some a \<and> id_of_ack a = Some pid) \<and>
    (pcache_id_acked pid st = None \<longrightarrow> pcache_id_acked pid st' = Some ack \<and>
       pid \<notin> mh_id ` set (message_table st' ! entry_index pid st'))"
proof -
  have ok': "cache_ok st'" using save_one_ack_ok [OF run ok] .
  obtain b where b: "in_bloom ack pid_ack_filter st = (False, st\<lparr>blooms := b\<rparr>)" using in_bloom_frame [of ack pid_ack_filter st] fresh by auto
  define st1 where "st1 = st\<lparr>blooms := b\<rparr>"
  have ok1: "cache_ok st1" using ok by (simp add: st1_def)
  have same: "find_one_ack pid st1 = find_one_ack pid st" by (simp add: st1_def find_one_ack_def ack_index_def)
  show ?thesis
  proof (cases "find_one_ack pid st1")
    case (Some i)
    note s = find_one_ack_Some [OF Some ok1]
    have "ack_used (ack_table st' ! i) \<and> ack_id (ack_table st' ! i) = pid \<and> i < length (ack_table st')"
      using run b pid Some s by (auto simp: save_one_ack_def st1_def [symmetric] Let_def split: if_splits)
    then have f: "find_one_ack pid st' = Some i" "i < length (ack_table st')" "ack_used (ack_table st' ! i)" "ack_id (ack_table st' ! i) = pid"
      using find_one_ack_at [OF ok'] by blast+
    then have "id_of_ack (ack_ack (ack_table st' ! i)) = Some pid" using ok' by (auto simp: cache_ok_def acks_ok_def)
    then show ?thesis using f(1) Some same by (simp add: pcache_id_acked_def)
  next
    case None
    obtain i st2 where place: "ack_place now (ack_index pid st1) st1 = Some (i, st2)"
      and st': "st' = snd (pcache_id_found_delete pid True (st2\<lparr>ack_table := (ack_table st2)[i := \<lparr>ack_ack = ack, ack_id = pid, ack_used = True,
                  ack_max_hops = of_int hop_count, ack_sent_to_tokens = 0\<rparr>]\<rparr>))"
      using run b pid None
      by (auto simp: save_one_ack_def st1_def [symmetric] Let_def bind_eq_Some_conv split: if_splits)
    note p = ack_place_ok [OF place ok1]
    let ?a = "\<lparr>ack_ack = ack, ack_id = pid, ack_used = True, ack_max_hops = of_int hop_count, ack_sent_to_tokens = 0\<rparr>"
    have at: "ack_table st' = (ack_table st2)[i := ?a]" by (simp add: st')
    have i: "i < length (ack_table st2)" using p by simp
    have "find_one_ack pid st' = Some i" by (rule find_one_ack_at [OF ok']) (use i in \<open>simp_all add: at\<close>)
    then have acked: "pcache_id_acked pid st' = Some ack" using i by (simp add: pcache_id_acked_def at)
    have "acks_ok ((ack_table st2)[i := ?a])"
      using p pid None by (intro acks_ok_set) (auto simp: cache_ok_def entry_index_number)
    then have "cache_ok (st2\<lparr>ack_table := (ack_table st2)[i := ?a]\<rparr>)"
      using p by (simp add: cache_ok_def tokens_ok_def)
    from found_delete_gone [OF this, of pid] show ?thesis using acked pid by (simp add: st')
  qed
qed

lemma bit_and_push: "(v AND push_bit n 1 \<noteq> 0) = bit (v :: u64) n"
  by (simp add: bit_iff_and_push_bit_not_eq_0)

lemma ack_for_token_once:
  assumes run: "pcache_ack_for_token now token ack st = Some (True, st')" and ok: "cache_ok st"
    and nogc: "token_position token st \<noteq> None \<or> num_external_tokens st < max_tokens"
  shows "pcache_ack_for_token now' token ack st' = Some (False, st')"
proof -
  obtain f b where b: "pid_is_in_bloom ack pid_ack_filter (blooms st) = (f, b)" by (cases "pid_is_in_bloom ack pid_ack_filter (blooms st)")
  define st1 where "st1 = st\<lparr>blooms := b\<rparr>"
  have ok1: "cache_ok st1" using ok by (simp add: st1_def)
  have nf: "\<not> f" using run b by (auto simp: pcache_ack_for_token_def in_bloom_def)
  obtain pid j i st2 where pid: "id_of_ack ack = Some pid" and j: "find_one_ack pid st1 = Some j"
    and tok: "token_to_send_to now token (ack_sent_to_tokens (ack_table st1 ! j)) st1 = Some (i, st2)" and i: "i \<noteq> - 1"
    and st': "st' = st2\<lparr>ack_table := (ack_table st2)[j := (ack_table st2 ! j)\<lparr>ack_sent_to_tokens := ack_sent_to_tokens (ack_table st2 ! j) OR push_bit (nat i) 1\<rparr>]\<rparr>"
    using run b nf by (auto simp: pcache_ack_for_token_def in_bloom_def st1_def [symmetric] bind_eq_Some_conv Let_def split: if_splits)
  have blooms_init: "b = bloom_init (blooms st)" using b nf lookup_cases [of ack pid_ack_filter "blooms st"] by auto
  have again: "pid_is_in_bloom ack pid_ack_filter b = (False, b)"
    using b nf blooms_init by (simp add: pid_is_in_bloom_def)
  have t: "tokens_ok st1" using ok1 by (simp add: cache_ok_def)
  have st2: "(st2 = st1 \<or> st2 = token_added token st1) \<and> i \<ge> 0 \<and> token_position token st2 = Some (nat i)"
  proof (cases "token_position token st1")
    case (Some k)
    then show ?thesis using tok i by (auto simp: token_to_send_to_def split: if_splits)
  next
    case None
    then have n: "num_external_tokens st1 < max_tokens" using nogc by (simp add: token_position_def st1_def)
    then have s: "st2 = token_added token st1" "i = int (num_external_tokens st1)"
      using tok None by (simp_all add: token_to_send_to_def token_added_def Let_def)
    have before: "token_list st1 ! k \<noteq> token" if "k < num_external_tokens st1" for k
      using None that by (auto simp: token_position_def find_None_iff)
    have "token_position token st2 = Some (num_external_tokens st1)"
      unfolding token_position_def find_Some_iff s(1) token_added_def
      using n t before by (intro exI [of _ "num_external_tokens st1"]) (auto simp: tokens_ok_def nth_append)
    then show ?thesis using s by simp
  qed
  have jl: "j < length (ack_table st1)" "ack_used (ack_table st1 ! j)" "ack_id (ack_table st1 ! j) = pid"
    using find_one_ack_Some [OF j ok1] .
  have at2: "ack_table st2 = ack_table st1" "blooms st2 = b" using st2 by (auto simp: token_added_def st1_def)
  have "cache_ok st'" using ack_for_token_ok [OF run ok] .
  then have "find_one_ack pid st' = Some j" by (rule find_one_ack_at) (use jl at2 in \<open>simp_all add: st'\<close>)
  moreover have "token_position token st' = Some (nat i)" using st2 by (simp add: st' token_position_def)
  then have "token_to_send_to now' token (ack_sent_to_tokens (ack_table st' ! j)) st' = Some (- 1, st')"
    using jl(1) at2 bit_and_push [of "ack_sent_to_tokens (ack_table st' ! j)" "nat i"] token_position_Some [of token st' "nat i"]
      \<open>cache_ok st'\<close>
    by (simp add: token_to_send_to_def st' cache_ok_def tokens_ok_def max_tokens_def bit_or_iff bit_push_bit_iff)
  moreover have "in_bloom ack pid_ack_filter st' = (False, st')"
    using again at2 by (simp add: in_bloom_def st')
  ultimately show ?thesis using pid by (simp add: pcache_ack_for_token_def)
qed

section \<open>An example\<close>

definition small_cache :: pcache where
  "small_cache = \<lparr>message_table = [[], []], ack_table = replicate 64 no_ack, local_token = [],
     token_list = replicate 64 (replicate 16 0), num_external_tokens = 0, last_gc = 0,
     blooms = \<lparr>bloom_filter = (\<lambda>_ _ _ _. 0), filter_load = (\<lambda>_. 0), initialized = True, acache = None, acache_writable = False\<rparr>,
     random_slots = [0..<64], random_tokens = [replicate 16 1]\<rparr>"

definition small_message :: "u8 list" where
  "small_message = [3, 1, 0, 9, 0, 0, 0, 2] @ replicate 16 0 @ [1, 2, 3, 4, 5, 6, 7, 8, 9, 10, 11, 12, 13, 14, 15, 16] @ [42]"

lemma small_cache_ok: "cache_ok small_cache"
proof -
  have "acks_ok (replicate 64 no_ack)" by (simp add: acks_ok_def acks_per_slot_def no_ack_def)
  moreover have "messages_ok [[], []]" by (auto simp: messages_ok_def entry_ok_def less_Suc_eq)
  moreover have "slots_ok [0..<64]" by (simp add: slots_ok_def acks_per_slot_def)
  ultimately show ?thesis by (simp add: cache_ok_def small_cache_def tokens_ok_def max_tokens_def)
qed

lemma small_message_id: "pcache_message_id small_message = Some (Some [1, 2, 3, 4, 5, 6, 7, 8, 9, 10, 11, 12, 13, 14, 15, 16])"
  by code_simp

lemma small_not_in_bloom: "pid_is_in_bloom pid sel (blooms small_cache) = (False, blooms small_cache)"
proof -
  let ?b = "blooms small_cache"
  have init: "bloom_init ?b = ?b" by (rule bloom_init_id) (simp add: small_cache_def)
  have "\<not> in_filter ?b pid sel num" for num
    by (auto simp: in_filter_def small_cache_def filter_depth_def intro!: exI [of _ 0])
  then have "\<not> fst (pid_is_in_bloom pid sel ?b)" by (simp add: found_iff init)
  then show ?thesis using lookup_cases [of pid sel ?b] init by (cases "pid_is_in_bloom pid sel ?b") auto
qed

section \<open>The properties\<close>

lemma one_block: "blocks (Suc 0) [0..<64]"
  unfolding blocks.simps by (intro exI [of _ "[0..<64]"] exI [of _ "[]"]) (auto simp: acks_per_slot_def)

text \<open>
  C1: The tables are consistent after every sequence of calls, with any packets, acknowledgements and
  tokens: entries fit their storage, each message is in the entry of its identifier and only once, each
  acknowledgement in the slot of the hash that identifies it and only once, and the tokens are distinct.
\<close>

theorem cache_stays_consistent:
  assumes "initialize_from_scratch num_entries num_acks st = Some st0" and "0 < num_entries"
    and "slots_ok (random_slots st)" and "cache_run st0 st'"
  shows "cache_ok st'"
  using cache_run_ok [OF assms(4)] scratch_ok [OF assms(1-3)] .

theorem cache_stays_consistent_witness:
  "\<exists>st st'. initialize_from_scratch 3 100 (small_cache\<lparr>random_tokens := [replicate 16 2, replicate 16 1]\<rparr>) = Some st \<and>
     pcache_save_packet 700000000 small_message 5 st = Some st' \<and>
     cache_ok (snd (pcache_trace_request (replicate 16 3) st'))"
proof -
  let ?i = "small_cache\<lparr>random_tokens := [replicate 16 2, replicate 16 1]\<rparr>"
  define s where "s = the (initialize_from_scratch 3 100 ?i)"
  have init: "initialize_from_scratch 3 100 ?i = Some s"
    by (simp add: s_def initialize_from_scratch_def reinit_local_token_def)
  have slots: "slots_ok (random_slots ?i)" by (simp add: small_cache_def slots_ok_def acks_per_slot_def)
  have fields: "length (ack_table s) = 64" "random_slots s = [0..<64]" "random_tokens s = [replicate 16 1]"
    by (simp_all add: s_def initialize_from_scratch_def reinit_local_token_def acks_per_slot_def Let_def small_cache_def)
  have "length small_message \<le> allnet_mtu" by (simp add: small_message_def allnet_mtu_def)
  moreover have "blocks (length (ack_table s) div acks_per_slot) (random_slots s)" using one_block fields by (simp add: acks_per_slot_def)
  moreover have "random_tokens s \<noteq> []" using fields by simp
  moreover have "cache_ok s" using scratch_ok [OF init _ slots] by simp
  ultimately obtain st' where save: "pcache_save_packet 700000000 small_message 5 s = Some st'"
    using save_packet_run [of s small_message _ 700000000 5] small_message_id by blast
  have "cache_run s (snd (pcache_trace_request (replicate 16 3) st'))"
    by (rule cache_run.step [OF cache_run.step [OF cache_run.start]])
      (rule cache_step.save [OF save], rule cache_step.trace_request [OF prod.collapse [symmetric]])
  from cache_stays_consistent [OF init _ slots this] init save show ?thesis by auto
qed

text \<open>
  C3: Saving a packet succeeds, and the packet is known afterwards. Whatever is in the cache, a packet
  of at most 12288 bytes that has an identifier is stored or was seen before: the collection, when there
  must be one, ends (the random numbers hit every position of a slot once per slot) and makes room.
\<close>

theorem saved_packet_is_found:
  assumes "cache_ok st" and "length message \<le> allnet_mtu" and "pcache_message_id message = Some (Some pid)"
    and "blocks (length (ack_table st) div acks_per_slot) (random_slots st)" and "random_tokens st \<noteq> []"
  shows "\<exists>st'. pcache_save_packet now message priority st = Some st' \<and> fst (pcache_id_found pid st')"
  by (rule save_packet_run [OF assms])

theorem saved_packet_is_found_witness:
  "\<exists>st'. pcache_save_packet 700000000 small_message 5 small_cache = Some st' \<and>
     fst (pcache_id_found [1, 2, 3, 4, 5, 6, 7, 8, 9, 10, 11, 12, 13, 14, 15, 16] st')"
proof (rule saved_packet_is_found [OF small_cache_ok _ small_message_id])
  show "length small_message \<le> allnet_mtu" by (simp add: small_message_def allnet_mtu_def)
  show "blocks (length (ack_table small_cache) div acks_per_slot) (random_slots small_cache)"
    using one_block by (simp add: small_cache_def acks_per_slot_def)
qed (simp add: small_cache_def)

text \<open>
  A packet of more than 12288 bytes that is not known ends the program: \<open>pcache_save_packet\<close> cannot
  make room for it, and calls \<open>exit\<close>.
\<close>

theorem oversized_packet_exits:
  assumes "pcache_message_id message = Some (Some pid)" and "\<not> fst (pcache_id_found pid st)" and "allnet_mtu < length message"
  shows "pcache_save_packet now message priority st = None"
proof -
  have big: "\<not> off + message_header_size + length message \<le> message_storage_size" for off
    using assms(3) by (simp add: message_storage_size_def)
  show ?thesis
    using assms(1,2) big by (auto simp: pcache_save_packet_def case_prod_beta Let_def bind_eq_None_conv)
qed

theorem oversized_packet_exits_witness:
  "pcache_save_packet 700000000 (small_message @ replicate 12288 0) 5 small_cache = None"
proof (rule oversized_packet_exits)
  show "pcache_message_id (small_message @ replicate 12288 0) = Some (Some [1, 2, 3, 4, 5, 6, 7, 8, 9, 10, 11, 12, 13, 14, 15, 16])"
    by (simp add: pcache_message_id_def small_message_def allnet_header_size_def header_of_def allnet_size_def has_def
      transport_ack_req_def transport_large_def transport_stream_def transport_expiration_def allnet_message_id_def
      allnet_after_stream_id_def slice_def message_id_size_def)
  show "\<not> fst (pcache_id_found [1, 2, 3, 4, 5, 6, 7, 8, 9, 10, 11, 12, 13, 14, 15, 16] small_cache)"
    unfolding found_iff_state small_not_in_bloom by (simp add: small_cache_def entry_index_def nth_Cons')
  show "allnet_mtu < length (small_message @ replicate 12288 0)" by (simp add: small_message_def allnet_mtu_def)
qed





text \<open>
  An acknowledgement that is saved answers for its message: unless it is in the filter of old ones,
  the identifier of the message then has an acknowledgement that hashes to it, and if it had none before
  it is this one, and the message is no longer in the cache.
\<close>

theorem saved_ack_answers:
  assumes "save_one_ack now ack hop_count st = Some (j, st')" and "cache_ok st"
    and "\<not> fst (in_bloom ack pid_ack_filter st)" and "id_of_ack ack = Some pid"
  shows "(\<exists>a. pcache_id_acked pid st' = Some a \<and> id_of_ack a = Some pid) \<and>
    (pcache_id_acked pid st = None \<longrightarrow> pcache_id_acked pid st' = Some ack \<and>
       pid \<notin> mh_id ` set (message_table st' ! entry_index pid st'))"
  by (rule save_one_ack_run [OF assms])

lemma id_of_ack_total: "length ack = 16 \<Longrightarrow> \<exists>pid. id_of_ack ack = Some pid"
  using sha512_run [of ack] by (auto simp: id_of_ack_def sha512_bytes_def message_id_size_def)

lemma small_save_ack:
  assumes "id_of_ack ack = Some pid"
  shows "\<exists>j st'. save_one_ack now ack h small_cache = Some (j, st')"
proof -
  have nb: "in_bloom ack pid_ack_filter small_cache = (False, small_cache)" by (simp add: in_bloom_def small_not_in_bloom)
  have i: "ack_index pid small_cache < 64" using index_less(2) [OF small_cache_ok, of pid] by (simp add: small_cache_def)
  have "find_one_ack pid small_cache = None"
    using find_one_ack_Some [OF _ small_cache_ok] by (cases "find_one_ack pid small_cache") (fastforce simp: small_cache_def no_ack_def)+
  moreover have "ack_place now (ack_index pid small_cache) small_cache = Some (ack_index pid small_cache, small_cache)"
    using i by (simp add: ack_place_def) (simp add: small_cache_def no_ack_def)
  moreover have "\<not> ack_used (ack_table small_cache ! ack_index pid small_cache)"
    using i by (simp add: small_cache_def no_ack_def)
  ultimately show ?thesis using nb assms by (simp add: save_one_ack_def Let_def)
qed

theorem saved_ack_answers_witness:
  "\<exists>pid j st'. save_one_ack 700000000 (replicate 16 5) 3 small_cache = Some (j, st') \<and>
     (\<exists>a. pcache_id_acked pid st' = Some a \<and> id_of_ack a = Some pid)"
proof -
  obtain pid where pid: "id_of_ack (replicate 16 5) = Some pid" using id_of_ack_total [of "replicate 16 5"] by auto
  obtain j st' where run: "save_one_ack 700000000 (replicate 16 5) 3 small_cache = Some (j, st')" using small_save_ack [OF pid] by blast
  have "\<not> fst (in_bloom (replicate 16 5) pid_ack_filter small_cache)" by (simp add: in_bloom_def small_not_in_bloom)
  from saved_ack_answers [OF run small_cache_ok this pid] run show ?thesis by blast
qed

text \<open>
  An acknowledgement is sent to a system once. When \<open>pcache_ack_for_token\<close> says that it has not been
  sent for a token, it is marked, and asked again for the token, at any time, it says that it has; unless
  the first call made room for a new token.
\<close>

theorem ack_is_sent_once:
  assumes "pcache_ack_for_token now token ack st = Some (True, st')" and "cache_ok st"
    and "token_position token st \<noteq> None \<or> num_external_tokens st < max_tokens"
  shows "pcache_ack_for_token now' token ack st' = Some (False, st')"
  by (rule ack_for_token_once [OF assms])

lemma small_send_ack:
  assumes "save_one_ack 700000000 ack h small_cache = Some (j, st')" and pid: "id_of_ack ack = Some pid"
  shows "\<exists>st''. pcache_ack_for_token now (replicate 16 9) ack st' = Some (True, st'') \<and> cache_ok st' \<and> num_external_tokens st' = 0"
proof -
  have nb: "in_bloom ack pid_ack_filter small_cache = (False, small_cache)" by (simp add: in_bloom_def small_not_in_bloom)
  have ok: "cache_ok st'" using save_one_ack_ok [OF assms(1) small_cache_ok] .
  have none: "find_one_ack pid small_cache = None"
    using find_one_ack_Some [OF _ small_cache_ok] by (cases "find_one_ack pid small_cache") (fastforce simp: small_cache_def no_ack_def)+
  have i: "ack_index pid small_cache < 64" using index_less(2) [OF small_cache_ok, of pid] by (simp add: small_cache_def)
  have place: "ack_place now' (ack_index pid small_cache) small_cache = Some (ack_index pid small_cache, small_cache)" for now'
    using i by (simp add: ack_place_def) (simp add: small_cache_def no_ack_def)
  let ?a = "\<lparr>ack_ack = ack, ack_id = pid, ack_used = True, ack_max_hops = of_int h, ack_sent_to_tokens = 0\<rparr>"
  have st': "st' = snd (pcache_id_found_delete pid True (small_cache\<lparr>ack_table := (ack_table small_cache)[ack_index pid small_cache := ?a]\<rparr>))"
    using assms(1) nb pid none place by (auto simp: save_one_ack_def Let_def split: if_splits)
  have at: "ack_table st' = (ack_table small_cache)[ack_index pid small_cache := ?a]" by (simp add: st')
  have fields: "num_external_tokens st' = 0" "blooms st' = blooms small_cache" "token_list st' = token_list small_cache"
    unfolding st' by (auto simp: pcache_id_found_delete_def Let_def small_cache_def split: option.splits)
  have "length (ack_table small_cache) = 64" by (simp add: small_cache_def)
  then have "find_one_ack pid st' = Some (ack_index pid small_cache)"
    using i by (intro find_one_ack_at [OF ok]) (simp_all add: at)
  moreover have "in_bloom ack pid_ack_filter st' = (False, st')"
    using small_not_in_bloom [of ack pid_ack_filter] fields(2) by (simp add: in_bloom_def)
  ultimately have "\<exists>st''. pcache_ack_for_token now (replicate 16 9) ack st' = Some (True, st'')"
    using pid fields by (simp add: pcache_ack_for_token_def token_to_send_to_def token_position_def max_tokens_def Let_def)
  then show ?thesis using ok fields(1) by blast
qed

theorem ack_is_sent_once_witness:
  "\<exists>st st'. pcache_ack_for_token 700000000 (replicate 16 9) (replicate 16 5) st = Some (True, st') \<and>
     pcache_ack_for_token 700000999 (replicate 16 9) (replicate 16 5) st' = Some (False, st')"
proof -
  obtain pid where pid: "id_of_ack (replicate 16 5) = Some pid" using id_of_ack_total [of "replicate 16 5"] by auto
  obtain j st where save: "save_one_ack 700000000 (replicate 16 5) 3 small_cache = Some (j, st)" using small_save_ack [OF pid] by blast
  obtain st' where run: "pcache_ack_for_token 700000000 (replicate 16 9) (replicate 16 5) st = Some (True, st')" "cache_ok st" "num_external_tokens st = 0"
    using small_send_ack [OF save pid, of 700000000] by blast
  from ack_is_sent_once [OF run(1,2), of 700000999] run show ?thesis by (auto simp: max_tokens_def)
qed

text \<open>
  What a collection of the tokens does to the marks. Token \<open>k + 16\<close> becomes token \<open>k\<close>, but mark
  \<open>k - 16\<close> becomes mark \<open>k\<close>: \<open>shift_token\<close> reads the marks as a big-endian number while the others use
  them as a number of the machine. A message is then taken for sent to a system if it had been sent to
  the one 32 places earlier in the old list.
\<close>

theorem collection_moves_marks_wrongly:
  assumes "num_external_tokens st = max_tokens" and "length (token_list st) = max_tokens"
  shows "fst (gc_tokens st) = 16 \<and> num_external_tokens (snd (gc_tokens st)) = 48 \<and>
    (\<forall>k < 48. token_list (snd (gc_tokens st)) ! k = token_list st ! (k + 16)) \<and>
    (\<forall>k < 48. bit (shift_token marks (fst (gc_tokens st))) k \<longleftrightarrow> 16 \<le> k \<and> bit marks (k - 16))"
proof -
  have gc: "fst (gc_tokens st) = 16" using assms by (simp add: gc_tokens_def max_tokens_def Let_def)
  have "token_list (snd (gc_tokens st)) ! k = token_list st ! (k + 16)" if "k < 48" for k
    using assms that by (simp add: gc_tokens_def max_tokens_def Let_def nth_append add.commute)
  moreover have "num_external_tokens (snd (gc_tokens st)) = 48" using assms by (simp add: gc_tokens_def max_tokens_def Let_def)
  ultimately show ?thesis unfolding gc using bit_shift_token by simp
qed

theorem collection_moves_marks_wrongly_witness:
  "bit (shift_token (push_bit 20 1) (fst (gc_tokens (small_cache\<lparr>num_external_tokens := 64\<rparr>)))) 36 \<and>
   \<not> bit (shift_token (push_bit 20 1) (fst (gc_tokens (small_cache\<lparr>num_external_tokens := 64\<rparr>)))) 4"
proof -
  let ?st = "small_cache\<lparr>num_external_tokens := 64\<rparr>"
  have "num_external_tokens ?st = max_tokens" "length (token_list ?st) = max_tokens" by (simp_all add: small_cache_def max_tokens_def)
  from collection_moves_marks_wrongly [OF this, of "push_bit 20 1"]
  have all: "\<forall>k < 48. bit (shift_token (push_bit 20 1) (fst (gc_tokens ?st))) k \<longleftrightarrow> 16 \<le> k \<and> bit (push_bit 20 1 :: u64) (k - 16)"
    by blast
  have "bit (push_bit 20 1 :: u64) (36 - 16)" "\<not> 16 \<le> (4 :: nat)" by (simp_all add: bit_push_bit_iff)
  then show ?thesis using all [rule_format, of 36] all [rule_format, of 4] by simp
qed




text \<open>
  A request looks at one bit for each address. For an address of at least as many bits as the bitmap
  resolves this is the bit of the address. For a shorter one the bits of all its extensions are meant,
  and the loop counts \<open>loops\<close> of them, but it adds to the low end of the 16 bits: unless the address is much
  shorter, only the bit of the address extended by zeros counts.
\<close>

theorem request_looks_at_one_bit:
  assumes "0 < p" and "p \<le> 16" and "0 < nbits" and "nbits \<le> 64" and "bits < allnet_mtu * 8"
    and "nbits < p \<Longrightarrow> p - nbits \<le> 16 - p"
  shows "matches_req nbits address p bits (Some bitmap) = map_option (\<lambda>b. b = Some True)
    (bitmap_bit (int p) (if nbits < 16 then uint (readb16 (Some address)) AND NOT (2 ^ (16 - nbits) - 1) else uint (readb16 (Some address))) bitmap)"
  by (rule matches_req_run [OF assms])

theorem request_looks_at_one_bit_witness:
  "matches_req 1 [0x80, 0] 2 4 (Some [0x10]) = Some False \<and> matches_req 1 [0x80, 0] 2 4 (Some [0x20]) = Some True"
proof -
  have one: "matches_req 1 [0x80, 0] 2 4 (Some bm) = map_option (\<lambda>b. b = Some True)
      (bitmap_bit (int 2) (uint (readb16 (Some [0x80, 0])) AND NOT (2 ^ (16 - 1) - 1)) bm)" for bm
    using request_looks_at_one_bit [of 2 1 4 "[0x80, 0]" bm] by (simp add: allnet_mtu_def)
  have "bitmap_bit (int 2) (uint (readb16 (Some [0x80, 0])) AND NOT (2 ^ (16 - 1) - 1)) [b] = Some (Some (uint b AND 0x20 \<noteq> 0))" for b
    by (simp add: bitmap_bit_def readb16_def allnet_bitmap_byte_index_def allnet_bitmap_byte_mask_def compute_index_mask_def Let_def)
  then show ?thesis unfolding one by simp
qed

end
