(* ===== verification/Spec2Isabelle.thy ===== *)
theory Spec2Isabelle
  imports AllnetPrelude WpArith WpMod WpFast WpMont ShaHash AesCipher UtilBytes Priority StreamCrypt PacketQueue PidBloom RecordTrack PacketHeader RsaMath RsaPad RsaCrypt ExampleKey MessageCipher KeyFiles KeyRound PacketCache CacheGc CacheInv CacheRequest CacheProps
begin

text \<open>
  AllNet carries messages between people nearby, over whatever links there are. A daemon written in C
  receives packets, decides whether to forward them, queues them by priority and sends them; the
  applications encrypt, sign and decrypt the messages in them. This development models the code of
  \<open>src/app/src/main/cfiles\<close> that computes, and proves what the program relies on.

  \<^bold>\<open>How a message travels.\<close> The sender encrypts the text for the receiver and signs the result
  (\<open>lib/cipher.c\<close>), with RSA and AES of its own (\<open>lib/wp_rsa.c\<close>, \<open>lib/wp_aes.c\<close>, \<open>lib/sha.c\<close>) over
  long integers of its own (\<open>lib/wp_arith.c\<close>), or uses a stream key (\<open>lib/stream.c\<close>), and puts it into a
  packet (\<open>lib/packet.h\<close>, \<open>lib/util.c\<close>). A daemon that receives a packet checks its form
  (\<open>is_valid_message\<close>), recognises duplicates (\<open>record.c\<close>, \<open>lib/pid_bloom.c\<close>), computes a priority from
  the distance travelled and the share of the traffic of the source (\<open>track.c\<close>, \<open>lib/priority.c\<close>), and
  queues it (\<open>lib/pqueue.c\<close>); it keeps messages and their acknowledgements for others who ask
  (\<open>lib/pcache.c\<close>). The receiver searches its contacts for the one who signed it
  (\<open>decrypt_verify\<close>).

  \<^bold>\<open>Theories, in the order of their imports.\<close>
  \<^item> \<open>AllnetPrelude\<close>: machine types, numbers of word and byte arrays, loops, and the locale
    \<open>carry_chain\<close> of the loops that pass a carry from word to word.
  \<^item> \<open>WpArith\<close>, \<open>WpMod\<close>, \<open>WpFast\<close>, \<open>WpMont\<close>: \<open>lib/wp_arith.c\<close>. An array of words is a list, most
    significant word first, and every operation returns the array it writes. The lemmas named
    \<open>_value\<close> say what number that is; the locales \<open>msb_scan\<close> and \<open>modular_product\<close> hold the loops over
    the bits of an exponent, once for all four exponentiations. The properties: each exponentiation
    computes the power, or exactly the value the code computes where it does not.
  \<^item> \<open>ShaHash\<close>, \<open>AesCipher\<close>: \<open>lib/sha.c\<close> and \<open>lib/wp_aes.c\<close>. The locale \<open>padded_hash\<close> shows that the
    padding in two buffers is the padding of the standard; AES is shown to be inverted by \<open>AESD\<close> and
    its tables to be multiplication in the field of 256 elements.
  \<^item> \<open>UtilBytes\<close>, \<open>Priority\<close>, \<open>PacketHeader\<close>: \<open>lib/util.c\<close>, \<open>lib/packet.h\<close> and \<open>lib/priority.c\<close>: byte
    fields, address matching, times, unbiased random numbers, fractions, and the functions that build
    and check packets.
  \<^item> \<open>StreamCrypt\<close>: \<open>lib/stream.c\<close>, over any cipher that satisfies the locale \<open>block_cipher\<close>.
  \<^item> \<open>PacketQueue\<close>: \<open>lib/pqueue.c\<close> with its pointers in a store; the operations refine a list ordered
    by priority, and a client that follows the protocol of the header, a step relation, never reaches a
    dangling pointer.
  \<^item> \<open>PidBloom\<close>, \<open>RecordTrack\<close>: the memories of identifiers, packets and traffic shares, with
    invariants over every history of calls.
  \<^item> \<open>RsaMath\<close>, \<open>RsaPad\<close>, \<open>RsaCrypt\<close>: \<open>lib/wp_rsa.c\<close> and the functions of \<open>lib/crypt_sel.c\<close> over it:
    Fermat's theorem, the modular inverse, paddings, encryption, decryption with and without the
    primes, and signatures. \<open>ExampleKey\<close> holds a key large enough for messages, checked by evaluation.
  \<^item> \<open>MessageCipher\<close>: \<open>lib/cipher.c\<close>, from the text of a message to its delivery.
  \<^item> \<open>KeyFiles\<close>, \<open>KeyRound\<close>: \<open>lib/asn1.c\<close>, DER and base 64, and which keys survive being written to a
    file and read back.
  \<^item> \<open>PacketCache\<close>, \<open>CacheGc\<close>, \<open>CacheInv\<close>, \<open>CacheRequest\<close>, \<open>CacheProps\<close>: \<open>lib/pcache.c\<close>, the tables of
    messages, acknowledgements and tokens, what a collection gives up, the invariant that every
    operation preserves, and the messages that a data request returns.

  \<^bold>\<open>What the lemmas show.\<close> In every theory the operations come first, as the code has them, then an
  abstract reading of the state (a number, a list, a set of positions), the lemmas that an operation
  maps to its abstract counterpart (\<open>_value\<close>, \<open>_run\<close>, \<open>_inv\<close>), and last the properties with their
  examples. A failed assertion, a call of \<open>exit\<close>, an access outside an array and a loop that does
  not end are the value \<open>None\<close>, so that a property with \<open>Some\<close> in it also says that none of them
  happens; return codes are values.

  \<^bold>\<open>Bounds.\<close> Words have the width they have in C and wrap around; \<open>int\<close> variables are integers
  where the code keeps them small, and the bounds that keep them so are hypotheses (messages below
  2 to the power 27 bytes, keys of at most 4096 bits). Where a size of the caller can make an \<open>int\<close> wrap
  around the model wraps too (\<open>c_int\<close>), except in the priority queue, whose sizes are those of packets
  and are taken to be far below 2 to the power 31. The arrays of 64 words that \<open>wp_rsa.c\<close> declares are
  large enough for every key its callers accept. There is no fuel: loops that may not end are
  partial functions into options, and the properties prove that they return.

  \<^bold>\<open>Parameters.\<close> The clock, the random bytes (lists in the state of the cache), the contents of fresh memory (\<open>malloc\<close>, \<open>junk\<close>), the
  contents of configuration files, and the AES function of OpenSSL are arguments. Allocation is
  assumed to succeed, as \<open>malloc_or_fail\<close> ends the program when it does not. Byte order is that of a
  little-endian machine.

  \<^bold>\<open>Not modelled.\<close> System calls and what only wraps them: sockets, pipes between processes, the event
  loops of the daemon, logging, tracing and the user interfaces; the directory of contacts
  (\<open>lib/keys.c\<close>), of which the record \<open>key_store\<close> has the answers; the files of the packet cache and the
  older \<open>lib/dcache.c\<close>; the routing table and the chat program; the headers of OpenSSL and the Android application in Java.
\<close>

end
